theory Spec2Isabelle
  imports Main "HOL-Library.Sublist"
begin

section \<open>The workflow graph (sync/merge.ts, types)\<close>

text \<open>
  The interfaces \<^verbatim>\<open>Step\<close>, \<^verbatim>\<open>Journey\<close> and \<^verbatim>\<open>WorkflowDefs\<close> of sync/merge.ts.
  A field declared with \<^verbatim>\<open>?\<close> is an \<open>option\<close> (\<open>None\<close> is \<^verbatim>\<open>undefined\<close>);
  \<^verbatim>\<open>swiftFile: string | null\<close> is an \<open>option\<close> whose \<open>None\<close> is \<^verbatim>\<open>null\<close>.
  The fields \<^verbatim>\<open>id\<close>, \<^verbatim>\<open>type\<close> and \<^verbatim>\<open>next\<close> carry a prefix, their names being taken in HOL
  or Isar. The step type stays a string, as at run time: the validator tests it against
  the set of the five valid names.
\<close>

record Step =
  step_id :: string
  label :: string
  screen :: string
  swiftFile :: "string option"
  step_type :: string
  phase :: string
  step_next :: "string list"
  edgeLabels :: "string list option"
  deprecated :: "bool option"
  needsReview :: "bool option"

record Journey =
  journey_id :: string
  journey_name :: string
  description :: string
  journey_group :: "string option"
  steps :: "Step list"

record WorkflowDefs =
  version :: "string option"
  generatedAt :: "string option"
  journeys :: "Journey list"

text \<open>JavaScript truthiness of an optional boolean: \<^verbatim>\<open>undefined\<close> and \<^verbatim>\<open>false\<close> are falsy.\<close>

definition truthy :: "bool option \<Rightarrow> bool" where
  "truthy b = (b = Some True)"

section \<open>The validator (sync/validate.ts)\<close>

text \<open>
  \<^verbatim>\<open>errors: string[]\<close> holds messages built from templates. Each template is a
  constructor here, carrying the values the template interpolates:
  \<^item> \<open>TooManyAdded d\<close>: \<^verbatim>\<open>Too many journeys added in one cycle: +d (max +3)\<close>
  \<^item> \<open>TooManyRemoved d\<close>: \<^verbatim>\<open>Too many journeys removed in one cycle: d (max -1)\<close>
  \<^item> \<open>JourneyMissingId\<close>: \<^verbatim>\<open>Journey missing id\<close>
  \<^item> \<open>JourneyMissingName j\<close>: \<^verbatim>\<open>Journey "j": missing name\<close>
  \<^item> \<open>StepMissingId j\<close>: \<^verbatim>\<open>Journey "j": step missing id\<close>
  \<^item> \<open>StepMissingLabel j s\<close>, \<open>StepMissingScreen j s\<close>, \<open>StepMissingType j s\<close>:
    \<^verbatim>\<open>Journey "j" step "s": missing label\<close> (screen, type)
  \<^item> \<open>InvalidType j s t\<close>: \<^verbatim>\<open>Journey "j" step "s": invalid type "t"\<close>
  \<^item> \<open>DuplicateStepId j s\<close>: \<^verbatim>\<open>Journey "j" step "s": duplicate step ID in journey "j"\<close>
  \<^item> \<open>NextRefNotFound j s n\<close>: \<^verbatim>\<open>Journey "j" step "s": next ref "n" not found in journey\<close>
  \<^item> \<open>StepRemoved j s\<close>: \<^verbatim>\<open>Journey "j": step "s" was removed (use deprecated:true instead)\<close>

  The remaining pushes of the source guard against values outside the declared types
  (\<^verbatim>\<open>journeys\<close>, \<^verbatim>\<open>steps\<close> or \<^verbatim>\<open>next\<close> not an array, \<^verbatim>\<open>description\<close> not a string,
  \<^verbatim>\<open>swiftFile\<close> undefined); on a \<open>WorkflowDefs\<close> their conditions are false, so they
  push nothing and the early return of check 1 is not taken.
\<close>

datatype verror =
    TooManyAdded int
  | TooManyRemoved int
  | JourneyMissingId
  | JourneyMissingName string
  | StepMissingId string
  | StepMissingLabel string string
  | StepMissingScreen string string
  | StepMissingType string string
  | InvalidType string string string
  | DuplicateStepId string string
  | NextRefNotFound string string string
  | StepRemoved string string

record ValidationResult =
  ok :: bool
  errors :: "verror list"

definition VALID_TYPES :: "string list" where
  "VALID_TYPES = [''action'', ''display'', ''decision'', ''input'', ''system'']"

text \<open>The key \<^verbatim>\<open>`${journey.id}::${step.id}`\<close> of the two sets of step ids.\<close>

definition stepKey :: "string \<Rightarrow> string \<Rightarrow> string" where
  "stepKey jid sid = jid @ ''::'' @ sid"

text \<open>
  A \<^verbatim>\<open>Set<string>\<close> is the list of its elements in insertion order; \<^verbatim>\<open>add\<close> of an
  element already present changes nothing.
\<close>

definition setAdd :: "string list \<Rightarrow> string \<Rightarrow> string list" where
  "setAdd xs x = (if x \<in> set xs then xs else xs @ [x])"

text \<open>Lines 39 to 47: the keys of the steps of the current graph that are not deprecated.\<close>

definition collectCurrentStepIds :: "WorkflowDefs \<Rightarrow> string list" where
  "collectCurrentStepIds current =
     foldl (\<lambda>acc journey.
              foldl (\<lambda>acc' step.
                       if \<not> truthy (deprecated step)
                       then setAdd acc' (stepKey (journey_id journey) (step_id step))
                       else acc')
                    acc (steps journey))
           [] (journeys current)"

text \<open>Lines 92 to 98: one error for each entry of \<^verbatim>\<open>next\<close> that is no step id of the journey.\<close>

definition checkNextRefs :: "string \<Rightarrow> string list \<Rightarrow> Step \<Rightarrow> verror list" where
  "checkNextRefs jid journeyStepIds step =
     map (NextRefNotFound jid (step_id step))
         (filter (\<lambda>nextId. nextId \<notin> set journeyStepIds) (step_next step))"

text \<open>
  Lines 67 to 104, the body of the loop over the steps of one journey. The state is the
  pair of \<^verbatim>\<open>errors\<close> and \<^verbatim>\<open>globalStepIds\<close>. A step without id is reported and skipped.
\<close>

definition validateStep ::
  "string \<Rightarrow> string list \<Rightarrow> verror list \<times> string list \<Rightarrow> Step \<Rightarrow> verror list \<times> string list" where
  "validateStep jid journeyStepIds st step =
     (let errs = fst st; globalStepIds = snd st; sid = step_id step in
      if sid = [] then (errs @ [StepMissingId jid], globalStepIds)
      else
        let e4 = (if label step = [] then [StepMissingLabel jid sid] else [])
               @ (if screen step = [] then [StepMissingScreen jid sid] else [])
               @ (if step_type step = [] then [StepMissingType jid sid] else []);
            e5 = (if step_type step \<noteq> [] \<and> step_type step \<notin> set VALID_TYPES
                  then [InvalidType jid sid (step_type step)] else []);
            globalKey = stepKey jid sid;
            e6 = (if globalKey \<in> set globalStepIds then [DuplicateStepId jid sid] else []);
            globalStepIds' = (if globalKey \<in> set globalStepIds then globalStepIds
                              else setAdd globalStepIds globalKey);
            e7 = checkNextRefs jid journeyStepIds step
        in (errs @ e4 @ e5 @ e6 @ e7, globalStepIds'))"

text \<open>
  Lines 106 to 114: for each key of the current graph that starts with the id of this
  journey and \<^verbatim>\<open>::\<close>, the rest of the key must be a step id of this journey.
\<close>

definition checkRemoved :: "string list \<Rightarrow> string \<Rightarrow> string list \<Rightarrow> verror list" where
  "checkRemoved currentStepIds jid journeyStepIds =
     concat (map (\<lambda>key.
                    if prefix (jid @ ''::'') key
                    then (let stepId = drop (length jid + 2) key
                          in if stepId \<notin> set journeyStepIds then [StepRemoved jid stepId] else [])
                    else [])
                 currentStepIds)"

text \<open>Lines 52 to 115, the body of the loop over the journeys of the incoming graph.\<close>

definition validateJourney ::
  "string list \<Rightarrow> verror list \<times> string list \<Rightarrow> Journey \<Rightarrow> verror list \<times> string list" where
  "validateJourney currentStepIds st journey =
     (let jid = journey_id journey;
          e3 = (if jid = [] then [JourneyMissingId] else [])
             @ (if journey_name journey = [] then [JourneyMissingName jid] else []);
          journeyStepIds = map step_id (steps journey);
          st' = foldl (validateStep jid journeyStepIds) (fst st @ e3, snd st) (steps journey)
      in (fst st' @ checkRemoved currentStepIds jid journeyStepIds, snd st'))"

text \<open>Lines 28 to 37: the bound on the change of the number of journeys.\<close>

definition deltaErrors :: "WorkflowDefs \<Rightarrow> WorkflowDefs \<Rightarrow> verror list" where
  "deltaErrors current incoming =
     (let currCount = int (length (journeys current));
          newCount = int (length (journeys incoming));
          delta = newCount - currCount
      in (if delta > 3 then [TooManyAdded delta] else [])
       @ (if delta < - 1 then [TooManyRemoved delta] else []))"

text \<open>
  \<^verbatim>\<open>validate(current, incoming)\<close>. The last loop of the source (lines 117 to 123) has
  an empty body and is left out.
\<close>

definition validate :: "WorkflowDefs \<Rightarrow> WorkflowDefs \<Rightarrow> ValidationResult" where
  "validate current incoming =
     (let errs = fst (foldl (validateJourney (collectCurrentStepIds current))
                            (deltaErrors current incoming, [])
                            (journeys incoming))
      in \<lparr> ok = (errs = []), errors = errs \<rparr>)"

section \<open>Descriptors and scan results (sync/parse.ts, sync/scan.ts, types)\<close>

record NavEdge =
  destination :: string
  mechanism :: string

record ParsedView =
  structName :: string
  filePath :: string
  presentsTo :: "NavEdge list"
  inferredType :: string

record ChangedFile =
  path :: string
  content :: string
  diff :: string
  status :: string

record ScanResult =
  currentSHA :: string
  newFiles :: "ChangedFile list"
  removedFiles :: "string list"
  modifiedFiles :: "ChangedFile list"

section \<open>The merger (sync/merge.ts)\<close>

record ChangeRecord =
  action :: string
  journeyId :: string
  stepId :: string
  detail :: string

record MergeResult =
  json :: WorkflowDefs
  changes :: "ChangeRecord list"
  reviewCount :: nat

subsection \<open>String helpers of the run time\<close>

definition isUpper :: "char \<Rightarrow> bool" where
  "isUpper c = (65 \<le> (of_char c :: nat) \<and> (of_char c :: nat) \<le> 90)"

definition isLower :: "char \<Rightarrow> bool" where
  "isLower c = (97 \<le> (of_char c :: nat) \<and> (of_char c :: nat) \<le> 122)"

definition isDigit :: "char \<Rightarrow> bool" where
  "isDigit c = (48 \<le> (of_char c :: nat) \<and> (of_char c :: nat) \<le> 57)"

text \<open>
  \<^verbatim>\<open>toLowerCase\<close> and \<^verbatim>\<open>toUpperCase\<close> on one code unit. A string is a list of code
  units below \<^verbatim>\<open>0x100\<close>, the Latin-1 range, whose letters are the ASCII ones and the
  code units \<^verbatim>\<open>0xC0\<close> to \<^verbatim>\<open>0xDE\<close> (capital) and \<^verbatim>\<open>0xDF\<close> to \<^verbatim>\<open>0xFF\<close> (small)
  without the signs \<^verbatim>\<open>0xD7\<close> and \<^verbatim>\<open>0xF7\<close>. The capital of \<^verbatim>\<open>0xDF\<close> is the two letters
  \<^verbatim>\<open>SS\<close> (see \<open>upperFirst\<close>). The capitals of \<^verbatim>\<open>0xB5\<close> and \<^verbatim>\<open>0xFF\<close> are the code
  units \<^verbatim>\<open>0x39C\<close> and \<^verbatim>\<open>0x178\<close>, which no value of type \<open>char\<close> stands for: these two
  stay as they are here. \<open>slugify\<close> replaces every character outside \<^verbatim>\<open>[a-z0-9-]\<close>
  after lowering, and \<open>merge\<close> creates journeys for the ids \<^verbatim>\<open>first-launch\<close>,
  \<^verbatim>\<open>capture-via-share\<close>, \<^verbatim>\<open>capture-via-action\<close> and \<^verbatim>\<open>unassigned\<close> only.
\<close>

definition toLowerChar :: "char \<Rightarrow> char" where
  "toLowerChar c =
     (let n = (of_char c :: nat)
      in if isUpper c \<or> (192 \<le> n \<and> n \<le> 222 \<and> n \<noteq> 215) then char_of (n + 32) else c)"

definition toUpperChar :: "char \<Rightarrow> char" where
  "toUpperChar c =
     (let n = (of_char c :: nat)
      in if isLower c \<or> (224 \<le> n \<and> n \<le> 254 \<and> n \<noteq> 247) then char_of (n - 32) else c)"

text \<open>\<^verbatim>\<open>s.split(sep)\<close> for a separator of one character: never an empty array.\<close>

fun splitOn :: "char \<Rightarrow> string \<Rightarrow> string list" where
  "splitOn sep [] = [[]]"
| "splitOn sep (c # cs) =
     (if c = sep then [] # splitOn sep cs
      else (case splitOn sep cs of [] \<Rightarrow> [[c]] | w # ws \<Rightarrow> (c # w) # ws))"

text \<open>\<^verbatim>\<open>parts.join(sep)\<close>.\<close>

fun joinWith :: "string \<Rightarrow> string list \<Rightarrow> string" where
  "joinWith sep [] = []"
| "joinWith sep [w] = w"
| "joinWith sep (w # ws) = w @ sep @ joinWith sep ws"

text \<open>
  \<^verbatim>\<open>JSON.stringify\<close> of a string and of an array of strings: the quote and the backslash
  are escaped, the control characters below \<^verbatim>\<open>0x20\<close> are written \<^verbatim>\<open>\b \t \n \f \r\<close>
  or \<^verbatim>\<open>\u00XX\<close> in lower-case hexadecimal.
\<close>

definition hexDigit :: "nat \<Rightarrow> char" where
  "hexDigit n = (if n < 10 then char_of (48 + n) else char_of (87 + n))"

definition jsonEscape :: "char \<Rightarrow> string" where
  "jsonEscape c =
     (let n = (of_char c :: nat) in
      if n = 34 then [CHR 0x5C, CHR 0x22]
      else if n = 92 then [CHR 0x5C, CHR 0x5C]
      else if n = 8 then [CHR 0x5C, CHR ''b'']
      else if n = 9 then [CHR 0x5C, CHR ''t'']
      else if n = 10 then [CHR 0x5C, CHR ''n'']
      else if n = 12 then [CHR 0x5C, CHR ''f'']
      else if n = 13 then [CHR 0x5C, CHR ''r'']
      else if n < 32 then [CHR 0x5C, CHR ''u'', CHR ''0'', CHR ''0'', hexDigit (n div 16), hexDigit (n mod 16)]
      else [c])"

definition jsonString :: "string \<Rightarrow> string" where
  "jsonString s = [CHR 0x22] @ concat (map jsonEscape s) @ [CHR 0x22]"

definition jsonStringArray :: "string list \<Rightarrow> string" where
  "jsonStringArray xs = ''['' @ joinWith '','' (map jsonString xs) @ '']''"

subsection \<open>Helpers\<close>

text \<open>
  \<^verbatim>\<open>slugify\<close>, one function for each \<^verbatim>\<open>replace\<close> of the chain:
  a dash before every capital, lower case, one leading dash dropped, every character
  outside \<^verbatim>\<open>[a-z0-9-]\<close> replaced by a dash, runs of dashes collapsed, and a leading
  and a trailing dash dropped.
\<close>

fun dashCapitals :: "string \<Rightarrow> string" where
  "dashCapitals [] = []"
| "dashCapitals (c # cs) = (if isUpper c then CHR ''-'' # c # dashCapitals cs else c # dashCapitals cs)"

definition dropLeadingDash :: "string \<Rightarrow> string" where
  "dropLeadingDash s = (case s of [] \<Rightarrow> [] | c # cs \<Rightarrow> if c = CHR ''-'' then cs else s)"

definition dropTrailingDash :: "string \<Rightarrow> string" where
  "dropTrailingDash s = (if s \<noteq> [] \<and> last s = CHR ''-'' then butlast s else s)"

definition slugChar :: "char \<Rightarrow> char" where
  "slugChar c = (if isLower c \<or> isDigit c \<or> c = CHR ''-'' then c else CHR ''-'')"

fun collapseDashes :: "string \<Rightarrow> string" where
  "collapseDashes [] = []"
| "collapseDashes [c] = [c]"
| "collapseDashes (c # d # cs) =
     (if c = CHR ''-'' \<and> d = CHR ''-'' then collapseDashes (d # cs)
      else c # collapseDashes (d # cs))"

definition slugify :: "string \<Rightarrow> string" where
  "slugify name =
     dropTrailingDash (dropLeadingDash (collapseDashes (map slugChar
       (dropLeadingDash (map toLowerChar (dashCapitals name))))))"

text \<open>\<^verbatim>\<open>journey.steps.find((s) => s.id === nextId)?.screen === structName\<close>.\<close>

definition nextIsScreen :: "Journey \<Rightarrow> string \<Rightarrow> string \<Rightarrow> bool" where
  "nextIsScreen journey structName' nextId =
     (case find (\<lambda>s. step_id s = nextId) (steps journey) of
        None \<Rightarrow> False
      | Some nextStep \<Rightarrow> screen nextStep = structName')"

text \<open>
  The conditions of the two loops of \<^verbatim>\<open>assignJourney\<close>: some step of the journey has
  a \<^verbatim>\<open>next\<close> id that is a step of the journey showing \<open>structName\<close>; some step of the
  journey has a non-empty screen that is a destination of the parsed view.
\<close>

definition presentsToView :: "string \<Rightarrow> Journey \<Rightarrow> bool" where
  "presentsToView structName' journey =
     list_ex (\<lambda>step. list_ex (nextIsScreen journey structName') (step_next step)) (steps journey)"

definition presentedByView :: "ParsedView \<Rightarrow> Journey \<Rightarrow> bool" where
  "presentedByView parsedView journey =
     list_ex (\<lambda>step. screen step \<noteq> [] \<and>
                       list_ex (\<lambda>e. destination e = screen step) (presentsTo parsedView))
             (steps journey)"

text \<open>
  \<^verbatim>\<open>assignJourney\<close>: the three path rules; then the first journey of the first loop;
  then the first journey of the second loop; else \<^verbatim>\<open>unassigned\<close>.
\<close>

definition assignJourney :: "string \<Rightarrow> string \<Rightarrow> ParsedView \<Rightarrow> WorkflowDefs \<Rightarrow> string" where
  "assignJourney filePath' structName' parsedView defs =
     (if prefix ''ExampleApp/Sources/UI/Onboarding/'' filePath' then ''first-launch''
      else if prefix ''ExampleAppShare/'' filePath' then ''capture-via-share''
      else if prefix ''ExampleAppAction/'' filePath' then ''capture-via-action''
      else
        (case find (presentsToView structName') (journeys defs) of
           Some journey \<Rightarrow> journey_id journey
         | None \<Rightarrow>
            (case find (presentedByView parsedView) (journeys defs) of
               Some journey \<Rightarrow> journey_id journey
             | None \<Rightarrow> ''unassigned'')))"

text \<open>
  The name of a journey that \<^verbatim>\<open>ensureJourney\<close> creates: the words of the id, each as
  \<^verbatim>\<open>w.charAt(0).toUpperCase() + w.slice(1)\<close>.
\<close>

definition upperFirst :: "char \<Rightarrow> string" where
  "upperFirst c = (if c = CHR 0xDF then ''SS'' else [toUpperChar c])"

definition capitalise :: "string \<Rightarrow> string" where
  "capitalise w = (case w of [] \<Rightarrow> [] | c # cs \<Rightarrow> upperFirst c @ cs)"

definition newJourney :: "string \<Rightarrow> Journey" where
  "newJourney journeyId' =
     \<lparr> journey_id = journeyId',
       journey_name = joinWith '' '' (map capitalise (splitOn CHR ''-'' journeyId')),
       description = ''Auto-generated journey'',
       journey_group = None,
       steps = [] \<rparr>"

text \<open>The index of the first element that satisfies \<open>P\<close>.\<close>

fun findIndex :: "('a \<Rightarrow> bool) \<Rightarrow> 'a list \<Rightarrow> nat option" where
  "findIndex P [] = None"
| "findIndex P (x # xs) =
     (if P x then Some 0 else (case findIndex P xs of None \<Rightarrow> None | Some i \<Rightarrow> Some (Suc i)))"

text \<open>
  \<^verbatim>\<open>ensureJourney\<close> returns the journey object it found or pushed; here the graph after
  the push and the position of that journey in it.
\<close>

definition ensureJourney :: "WorkflowDefs \<Rightarrow> string \<Rightarrow> WorkflowDefs \<times> nat" where
  "ensureJourney defs journeyId' =
     (case findIndex (\<lambda>j. journey_id j = journeyId') (journeys defs) of
        Some i \<Rightarrow> (defs, i)
      | None \<Rightarrow> (defs\<lparr> journeys := journeys defs @ [newJourney journeyId'] \<rparr>,
                 length (journeys defs)))"

text \<open>
  \<^verbatim>\<open>findStepByFile\<close> returns the first journey and step, in graph order, whose
  \<^verbatim>\<open>swiftFile\<close> is the path: here their positions.
\<close>

fun findStepIn :: "Journey list \<Rightarrow> string \<Rightarrow> (nat \<times> nat) option" where
  "findStepIn [] filePath' = None"
| "findStepIn (j # js) filePath' =
     (case findIndex (\<lambda>step. swiftFile step = Some filePath') (steps j) of
        Some k \<Rightarrow> Some (0, k)
      | None \<Rightarrow> (case findStepIn js filePath' of
                   None \<Rightarrow> None
                 | Some (i, k) \<Rightarrow> Some (Suc i, k)))"

definition findStepByFile :: "WorkflowDefs \<Rightarrow> string \<Rightarrow> (nat \<times> nat) option" where
  "findStepByFile defs filePath' = findStepIn (journeys defs) filePath'"

text \<open>
  \<^verbatim>\<open>resolveNext\<close>: for each edge, in order, every step of every journey whose screen
  is the destination contributes its id, unless the id is in the list already.
\<close>

definition resolveNext :: "ParsedView \<Rightarrow> WorkflowDefs \<Rightarrow> string list" where
  "resolveNext parsedView defs =
     foldl (\<lambda>nextIds edge.
              foldl (\<lambda>nextIds' journey.
                       foldl (\<lambda>ids step.
                                if screen step = destination edge \<and> step_id step \<notin> set ids
                                then ids @ [step_id step] else ids)
                             nextIds' (steps journey))
                    nextIds (journeys defs))
           [] (presentsTo parsedView)"

subsection \<open>Main merge\<close>

text \<open>
  \<^verbatim>\<open>new Map(parsedViews.map((p) => [p.filePath, p]))\<close>: of two views with one path the
  later one stays.
\<close>

definition parsedByPath :: "ParsedView list \<Rightarrow> string \<Rightarrow> ParsedView option" where
  "parsedByPath parsedViews = map_of (rev (map (\<lambda>p. (filePath p, p)) parsedViews))"

text \<open>The state of the three loops: \<^verbatim>\<open>defs\<close>, \<^verbatim>\<open>changes\<close> and \<^verbatim>\<open>reviewCount\<close>.\<close>

type_synonym mergeState = "WorkflowDefs \<times> ChangeRecord list \<times> nat"

text \<open>A mutation of the step object at position \<open>si\<close> of the journey at position \<open>ji\<close>.\<close>

definition updateStep :: "WorkflowDefs \<Rightarrow> nat \<Rightarrow> nat \<Rightarrow> (Step \<Rightarrow> Step) \<Rightarrow> WorkflowDefs" where
  "updateStep defs ji si f =
     defs\<lparr> journeys := (journeys defs)
             [ji := (journeys defs ! ji)\<lparr> steps := (steps (journeys defs ! ji))
                                                  [si := f (steps (journeys defs ! ji) ! si)] \<rparr>] \<rparr>"

text \<open>\<^verbatim>\<open>journey.steps.push(step)\<close> on the journey at position \<open>ji\<close>.\<close>

definition pushStep :: "WorkflowDefs \<Rightarrow> nat \<Rightarrow> Step \<Rightarrow> WorkflowDefs" where
  "pushStep defs ji step =
     defs\<lparr> journeys := (journeys defs)
             [ji := (journeys defs ! ji)\<lparr> steps := steps (journeys defs ! ji) @ [step] \<rparr>] \<rparr>"

text \<open>Lines 289 to 298: the step object for a view, a path and a list of outgoing ids.\<close>

definition newStep :: "ParsedView \<Rightarrow> string \<Rightarrow> string list \<Rightarrow> Step" where
  "newStep parsed p next' =
     \<lparr> step_id = slugify (structName parsed), label = ''TODO: '' @ structName parsed,
       screen = structName parsed, swiftFile = Some p, step_type = inferredType parsed,
       phase = ''Unassigned'', step_next = next', edgeLabels = None, deprecated = None,
       needsReview = Some True \<rparr>"

text \<open>Lines 276 to 308, the body of the loop over the new files.\<close>

definition addNewFile :: "(string \<Rightarrow> ParsedView option) \<Rightarrow> mergeState \<Rightarrow> ChangedFile \<Rightarrow> mergeState" where
  "addNewFile byPath st file =
     (case st of (defs, chs, rc) \<Rightarrow>
        (case byPath (path file) of
           None \<Rightarrow> st
         | Some parsed \<Rightarrow>
            (case findStepByFile defs (path file) of
               Some found \<Rightarrow> st
             | None \<Rightarrow>
                (let journeyId' = assignJourney (path file) (structName parsed) parsed defs;
                     (defs1, ji) = ensureJourney defs journeyId';
                     stepId' = slugify (structName parsed);
                     next' = resolveNext parsed defs1;
                     step = newStep parsed (path file) next'
                 in (pushStep defs1 ji step,
                     chs @ [\<lparr> action = ''add'', journeyId = journeyId', stepId = stepId',
                              detail = ''Added '' @ structName parsed @ '' from '' @ path file \<rparr>],
                     Suc rc)))))"

text \<open>Lines 312 to 325, the body of the loop over the removed files.\<close>

definition removeFile :: "mergeState \<Rightarrow> string \<Rightarrow> mergeState" where
  "removeFile st filePath' =
     (case st of (defs, chs, rc) \<Rightarrow>
        (case findStepByFile defs filePath' of
           None \<Rightarrow> st
         | Some (ji, si) \<Rightarrow>
            (let journey = journeys defs ! ji; step = steps journey ! si in
             if \<not> truthy (deprecated step)
             then (updateStep defs ji si (\<lambda>s. s\<lparr> deprecated := Some True \<rparr>),
                   chs @ [\<lparr> action = ''deprecate'', journeyId = journey_id journey,
                            stepId = step_id step,
                            detail = ''Marked deprecated (file removed: '' @ filePath' @ '')'' \<rparr>],
                   rc)
             else st)))"

text \<open>
  Lines 329 to 356, the body of the loop over the modified files. The two lists are
  compared through their \<^verbatim>\<open>JSON.stringify\<close> texts, as in the source.
\<close>

definition trimEdgeLabels :: "nat \<Rightarrow> string list option \<Rightarrow> string list option" where
  "trimEdgeLabels n labels =
     (case labels of
        None \<Rightarrow> None
      | Some ls \<Rightarrow> if n < length ls then Some (take n ls) else Some ls)"

definition modifyFile :: "(string \<Rightarrow> ParsedView option) \<Rightarrow> mergeState \<Rightarrow> ChangedFile \<Rightarrow> mergeState" where
  "modifyFile byPath st file =
     (case st of (defs, chs, rc) \<Rightarrow>
        (case byPath (path file) of
           None \<Rightarrow> st
         | Some parsed \<Rightarrow>
            (case findStepByFile defs (path file) of
               None \<Rightarrow> st
             | Some (ji, si) \<Rightarrow>
                (let journey = journeys defs ! ji; step = steps journey ! si;
                     newNext = resolveNext parsed defs;
                     oldNextStr = jsonStringArray (step_next step);
                     newNextStr = jsonStringArray newNext
                 in if oldNextStr \<noteq> newNextStr
                    then (updateStep defs ji si
                            (\<lambda>s. s\<lparr> step_next := newNext,
                                     edgeLabels := trimEdgeLabels (length newNext) (edgeLabels s) \<rparr>),
                          chs @ [\<lparr> action = ''update-edges'', journeyId = journey_id journey,
                                   stepId = step_id step,
                                   detail = ''Updated next[] from '' @ oldNextStr @ '' to '' @ newNextStr \<rparr>],
                          rc)
                    else st))))"

text \<open>
  \<^verbatim>\<open>merge\<close>. The source works on \<^verbatim>\<open>JSON.parse(JSON.stringify(current))\<close>, which for a
  value of type \<open>WorkflowDefs\<close> is a copy equal to it; a value has no identity here, so
  the three loops start from \<open>current\<close>. (The store model below has the copy.)
\<close>

definition merge :: "WorkflowDefs \<Rightarrow> ScanResult \<Rightarrow> ParsedView list \<Rightarrow> MergeResult" where
  "merge current scanResult parsedViews =
     (let byPath = parsedByPath parsedViews;
          st1 = foldl (addNewFile byPath) (current, [], 0) (newFiles scanResult);
          st2 = foldl removeFile st1 (removedFiles scanResult);
          st3 = foldl (modifyFile byPath) st2 (modifiedFiles scanResult)
      in (case st3 of (defs, chs, rc) \<Rightarrow> \<lparr> json = defs, changes = chs, reviewCount = rc \<rparr>))"


section \<open>The merger on a store of objects (sync/merge.ts)\<close>

text \<open>
  In the source a graph is a tree of objects and arrays that are reached by reference,
  and \<^verbatim>\<open>merge\<close> writes to objects: it pushes to \<^verbatim>\<open>defs.journeys\<close> and to
  \<^verbatim>\<open>journey.steps\<close> and assigns to \<^verbatim>\<open>step.deprecated\<close>, \<^verbatim>\<open>step.edgeLabels\<close> and
  \<^verbatim>\<open>step.next\<close>. Here the store is the list of all objects, an address is a position
  in it, and an object holds the addresses of the objects and arrays it refers to. A new
  object goes to the end of the store.
\<close>

type_synonym addr = nat

record StepObj =
  o_id :: string
  o_label :: string
  o_screen :: string
  o_swiftFile :: "string option"
  o_type :: string
  o_phase :: string
  o_next :: addr
  o_edgeLabels :: "addr option"
  o_deprecated :: "bool option"
  o_needsReview :: "bool option"

record JourneyObj =
  jo_id :: string
  jo_name :: string
  jo_description :: string
  jo_group :: "string option"
  jo_steps :: addr

record DefsObj =
  do_version :: "string option"
  do_generatedAt :: "string option"
  do_journeys :: addr

datatype cell =
    DefsCell DefsObj
  | JourneyArray "addr list"
  | JourneyCell JourneyObj
  | StepArray "addr list"
  | StepCell StepObj
  | StrArray "string list"

type_synonym store = "cell list"

definition cellAt :: "store \<Rightarrow> addr \<Rightarrow> cell option" where
  "cellAt h a = (if a < length h then Some (h ! a) else None)"

definition newCell :: "store \<Rightarrow> cell \<Rightarrow> store \<times> addr" where
  "newCell h c = (h @ [c], length h)"

definition writeCell :: "store \<Rightarrow> addr \<Rightarrow> cell \<Rightarrow> store" where
  "writeCell h a c = h[a := c]"

subsection \<open>The value behind a reference\<close>

text \<open>
  The graph that is read through a reference. The result is \<open>None\<close> when a reference
  does not lead to an object of the declared type; every function below that follows
  references is \<open>None\<close> in that case.
\<close>

definition readStrs :: "store \<Rightarrow> addr \<Rightarrow> string list option" where
  "readStrs h a = (case cellAt h a of Some (StrArray xs) \<Rightarrow> Some xs | _ \<Rightarrow> None)"

definition stepValue :: "StepObj \<Rightarrow> string list \<Rightarrow> string list option \<Rightarrow> Step" where
  "stepValue so nx el =
     \<lparr> step_id = o_id so, label = o_label so, screen = o_screen so,
       swiftFile = o_swiftFile so, step_type = o_type so, phase = o_phase so,
       step_next = nx, edgeLabels = el, deprecated = o_deprecated so,
       needsReview = o_needsReview so \<rparr>"

definition readStep :: "store \<Rightarrow> addr \<Rightarrow> Step option" where
  "readStep h a =
     (case cellAt h a of
        Some (StepCell so) \<Rightarrow>
          (case readStrs h (o_next so) of
             None \<Rightarrow> None
           | Some nx \<Rightarrow>
               (case o_edgeLabels so of
                  None \<Rightarrow> Some (stepValue so nx None)
                | Some e \<Rightarrow> map_option (\<lambda>el. stepValue so nx (Some el)) (readStrs h e)))
      | _ \<Rightarrow> None)"

text \<open>A journey object with the content of its \<^verbatim>\<open>steps\<close> array, and the same for the root.\<close>

definition journeyParts :: "store \<Rightarrow> addr \<Rightarrow> (JourneyObj \<times> addr list) option" where
  "journeyParts h a =
     (case cellAt h a of
        Some (JourneyCell jo) \<Rightarrow>
          (case cellAt h (jo_steps jo) of Some (StepArray ss) \<Rightarrow> Some (jo, ss) | _ \<Rightarrow> None)
      | _ \<Rightarrow> None)"

definition defsParts :: "store \<Rightarrow> addr \<Rightarrow> (DefsObj \<times> addr list) option" where
  "defsParts h d =
     (case cellAt h d of
        Some (DefsCell dob) \<Rightarrow>
          (case cellAt h (do_journeys dob) of Some (JourneyArray js) \<Rightarrow> Some (dob, js) | _ \<Rightarrow> None)
      | _ \<Rightarrow> None)"

definition readJourney :: "store \<Rightarrow> addr \<Rightarrow> Journey option" where
  "readJourney h a =
     (case journeyParts h a of
        None \<Rightarrow> None
      | Some (jo, ss) \<Rightarrow>
          map_option (\<lambda>sts. \<lparr> journey_id = jo_id jo, journey_name = jo_name jo,
                              description = jo_description jo, journey_group = jo_group jo,
                              steps = sts \<rparr>)
                     (those (map (readStep h) ss)))"

definition readDefs :: "store \<Rightarrow> addr \<Rightarrow> WorkflowDefs option" where
  "readDefs h d =
     (case defsParts h d of
        None \<Rightarrow> None
      | Some (dob, js) \<Rightarrow>
          map_option (\<lambda>js'. \<lparr> version = do_version dob, generatedAt = do_generatedAt dob,
                              journeys = js' \<rparr>)
                     (those (map (readJourney h) js)))"

subsection \<open>The deep copy\<close>

text \<open>
  \<^verbatim>\<open>JSON.parse(JSON.stringify(current))\<close>, line 262: \<^verbatim>\<open>stringify\<close> reads the graph
  through \<open>current\<close>, and \<^verbatim>\<open>parse\<close> makes a new object or array for each object and
  array of the text. On a graph of the declared types the text loses nothing.
\<close>

definition stepObj :: "Step \<Rightarrow> addr \<Rightarrow> addr option \<Rightarrow> StepObj" where
  "stepObj s nx el =
     \<lparr> o_id = step_id s, o_label = label s, o_screen = screen s, o_swiftFile = swiftFile s,
       o_type = step_type s, o_phase = phase s, o_next = nx, o_edgeLabels = el,
       o_deprecated = deprecated s, o_needsReview = needsReview s \<rparr>"

definition journeyObj :: "Journey \<Rightarrow> addr \<Rightarrow> JourneyObj" where
  "journeyObj j sa =
     \<lparr> jo_id = journey_id j, jo_name = journey_name j, jo_description = description j,
       jo_group = journey_group j, jo_steps = sa \<rparr>"

definition buildStep :: "store \<Rightarrow> Step \<Rightarrow> store \<times> addr" where
  "buildStep h s =
     (let (h1, nx) = newCell h (StrArray (step_next s));
          (h2, el) = (case edgeLabels s of
                        None \<Rightarrow> (h1, None)
                      | Some ls \<Rightarrow> (let (h', e) = newCell h1 (StrArray ls) in (h', Some e)))
      in newCell h2 (StepCell (stepObj s nx el)))"

fun buildAll :: "(store \<Rightarrow> 'a \<Rightarrow> store \<times> addr) \<Rightarrow> store \<Rightarrow> 'a list \<Rightarrow> store \<times> addr list" where
  "buildAll f h [] = (h, [])"
| "buildAll f h (x # xs) =
     (let (h1, a) = f h x; (h2, as) = buildAll f h1 xs in (h2, a # as))"

definition buildJourney :: "store \<Rightarrow> Journey \<Rightarrow> store \<times> addr" where
  "buildJourney h j =
     (let (h1, ss) = buildAll buildStep h (steps j);
          (h2, sa) = newCell h1 (StepArray ss)
      in newCell h2 (JourneyCell (journeyObj j sa)))"

definition buildDefs :: "store \<Rightarrow> WorkflowDefs \<Rightarrow> store \<times> addr" where
  "buildDefs h g =
     (let (h1, js) = buildAll buildJourney h (journeys g);
          (h2, ja) = newCell h1 (JourneyArray js)
      in newCell h2 (DefsCell \<lparr> do_version = version g, do_generatedAt = generatedAt g,
                                do_journeys = ja \<rparr>))"

definition deepClone :: "store \<Rightarrow> addr \<Rightarrow> (store \<times> addr) option" where
  "deepClone h cur = map_option (buildDefs h) (readDefs h cur)"

subsection \<open>Helpers on references\<close>

text \<open>
  \<^verbatim>\<open>findStepByFile\<close>, lines 227 to 237: the references of the first journey and step, in
  graph order, whose \<^verbatim>\<open>swiftFile\<close> is the path. The outer \<open>None\<close> is a reference that
  leads nowhere, the inner one is the \<^verbatim>\<open>null\<close> of the source.
\<close>

fun findStepRef :: "store \<Rightarrow> string \<Rightarrow> addr list \<Rightarrow> addr option option" where
  "findStepRef h filePath' [] = Some None"
| "findStepRef h filePath' (sa # ss) =
     (case cellAt h sa of
        Some (StepCell so) \<Rightarrow>
          if o_swiftFile so = Some filePath' then Some (Some sa) else findStepRef h filePath' ss
      | _ \<Rightarrow> None)"

fun findInJourneys :: "store \<Rightarrow> string \<Rightarrow> addr list \<Rightarrow> (addr \<times> addr) option option" where
  "findInJourneys h filePath' [] = Some None"
| "findInJourneys h filePath' (ja # js) =
     (case journeyParts h ja of
        None \<Rightarrow> None
      | Some (jo, ss) \<Rightarrow>
          (case findStepRef h filePath' ss of
             None \<Rightarrow> None
           | Some (Some sa) \<Rightarrow> Some (Some (ja, sa))
           | Some None \<Rightarrow> findInJourneys h filePath' js))"

definition findStepByFileRef :: "store \<Rightarrow> addr \<Rightarrow> string \<Rightarrow> (addr \<times> addr) option option" where
  "findStepByFileRef h d filePath' =
     (case defsParts h d of None \<Rightarrow> None | Some (dob, js) \<Rightarrow> findInJourneys h filePath' js)"

text \<open>
  \<^verbatim>\<open>ensureJourney\<close>, lines 209 to 224: the reference of the first journey with the id;
  when there is none, a new journey object with a new empty \<^verbatim>\<open>steps\<close> array is pushed
  to \<^verbatim>\<open>defs.journeys\<close>.
\<close>

fun findJourneyRef :: "store \<Rightarrow> string \<Rightarrow> addr list \<Rightarrow> addr option option" where
  "findJourneyRef h journeyId' [] = Some None"
| "findJourneyRef h journeyId' (ja # js) =
     (case cellAt h ja of
        Some (JourneyCell jo) \<Rightarrow>
          if jo_id jo = journeyId' then Some (Some ja) else findJourneyRef h journeyId' js
      | _ \<Rightarrow> None)"

definition ensureJourneyRef :: "store \<Rightarrow> addr \<Rightarrow> string \<Rightarrow> (store \<times> addr) option" where
  "ensureJourneyRef h d journeyId' =
     (case defsParts h d of
        None \<Rightarrow> None
      | Some (dob, js) \<Rightarrow>
          (case findJourneyRef h journeyId' js of
             None \<Rightarrow> None
           | Some (Some ja) \<Rightarrow> Some (h, ja)
           | Some None \<Rightarrow>
               (let (h1, sa) = newCell h (StepArray []);
                    (h2, ja) = newCell h1 (JourneyCell (journeyObj (newJourney journeyId') sa))
                in Some (writeCell h2 (do_journeys dob) (JourneyArray (js @ [ja])), ja))))"

text \<open>\<^verbatim>\<open>journey.steps.push(step)\<close>, line 300.\<close>

definition pushStepRef :: "store \<Rightarrow> addr \<Rightarrow> addr \<Rightarrow> store option" where
  "pushStepRef h ja sa =
     (case journeyParts h ja of
        None \<Rightarrow> None
      | Some (jo, ss) \<Rightarrow> Some (writeCell h (jo_steps jo) (StepArray (ss @ [sa]))))"

subsection \<open>Main merge\<close>

text \<open>
  The state of the three loops: the store, \<^verbatim>\<open>changes\<close> and \<^verbatim>\<open>reviewCount\<close>; \<open>d\<close> is
  the reference \<^verbatim>\<open>defs\<close>. What a loop body only reads of the graph it reads through
  \<open>d\<close>; \<^verbatim>\<open>resolveNext\<close> returns a new array.
\<close>

type_synonym refState = "store \<times> ChangeRecord list \<times> nat"

fun foldOpt :: "('s \<Rightarrow> 'a \<Rightarrow> 's option) \<Rightarrow> 's \<Rightarrow> 'a list \<Rightarrow> 's option" where
  "foldOpt f s [] = Some s"
| "foldOpt f s (x # xs) = (case f s x of None \<Rightarrow> None | Some s' \<Rightarrow> foldOpt f s' xs)"

text \<open>Lines 276 to 308, the body of the loop over the new files.\<close>

definition addNewFileRef ::
  "(string \<Rightarrow> ParsedView option) \<Rightarrow> addr \<Rightarrow> refState \<Rightarrow> ChangedFile \<Rightarrow> refState option" where
  "addNewFileRef byPath d st file =
     (case st of (h, chs, rc) \<Rightarrow>
        (case byPath (path file) of
           None \<Rightarrow> Some st
         | Some parsed \<Rightarrow>
            (case findStepByFileRef h d (path file) of
               None \<Rightarrow> None
             | Some (Some found) \<Rightarrow> Some st
             | Some None \<Rightarrow>
                (case readDefs h d of
                   None \<Rightarrow> None
                 | Some defs \<Rightarrow>
                    (let journeyId' = assignJourney (path file) (structName parsed) parsed defs
                     in (case ensureJourneyRef h d journeyId' of
                           None \<Rightarrow> None
                         | Some (h1, ja) \<Rightarrow>
                            (case readDefs h1 d of
                               None \<Rightarrow> None
                             | Some defs1 \<Rightarrow>
                                (let stepId' = slugify (structName parsed);
                                     (h2, nx) = newCell h1 (StrArray (resolveNext parsed defs1));
                                     (h3, sa) = newCell h2
                                        (StepCell (stepObj (newStep parsed (path file) []) nx None))
                                 in (case pushStepRef h3 ja sa of
                                       None \<Rightarrow> None
                                     | Some h4 \<Rightarrow>
                                         Some (h4,
                                               chs @ [\<lparr> action = ''add'', journeyId = journeyId',
                                                        stepId = stepId',
                                                        detail = ''Added '' @ structName parsed
                                                                 @ '' from '' @ path file \<rparr>],
                                               Suc rc))))))))))"

text \<open>Lines 312 to 325, the body of the loop over the removed files.\<close>

definition removeFileRef :: "addr \<Rightarrow> refState \<Rightarrow> string \<Rightarrow> refState option" where
  "removeFileRef d st filePath' =
     (case st of (h, chs, rc) \<Rightarrow>
        (case findStepByFileRef h d filePath' of
           None \<Rightarrow> None
         | Some None \<Rightarrow> Some st
         | Some (Some (ja, sa)) \<Rightarrow>
            (case (cellAt h ja, cellAt h sa) of
               (Some (JourneyCell jo), Some (StepCell so)) \<Rightarrow>
                 if \<not> truthy (o_deprecated so)
                 then Some (writeCell h sa (StepCell (so\<lparr> o_deprecated := Some True \<rparr>)),
                            chs @ [\<lparr> action = ''deprecate'', journeyId = jo_id jo,
                                     stepId = o_id so,
                                     detail = ''Marked deprecated (file removed: '' @ filePath'
                                              @ '')'' \<rparr>],
                            rc)
                 else Some st
             | _ \<Rightarrow> None)))"

text \<open>
  Lines 329 to 356, the body of the loop over the modified files. \<^verbatim>\<open>slice\<close> returns a
  new array, and the two assignments replace references of the step object; the first of
  them is lines 345 to 347.
\<close>

definition trimEdgeLabelsRef :: "store \<Rightarrow> addr \<Rightarrow> StepObj \<Rightarrow> nat \<Rightarrow> (store \<times> StepObj) option" where
  "trimEdgeLabelsRef h sa so n =
     (case o_edgeLabels so of
        None \<Rightarrow> Some (h, so)
      | Some e \<Rightarrow>
         (case readStrs h e of
            None \<Rightarrow> None
          | Some ls \<Rightarrow>
             if n < length ls
             then (let (h1, e1) = newCell h (StrArray (take n ls));
                       so1 = so\<lparr> o_edgeLabels := Some e1 \<rparr>
                   in Some (writeCell h1 sa (StepCell so1), so1))
             else Some (h, so)))"

definition modifyFileRef ::
  "(string \<Rightarrow> ParsedView option) \<Rightarrow> addr \<Rightarrow> refState \<Rightarrow> ChangedFile \<Rightarrow> refState option" where
  "modifyFileRef byPath d st file =
     (case st of (h, chs, rc) \<Rightarrow>
        (case byPath (path file) of
           None \<Rightarrow> Some st
         | Some parsed \<Rightarrow>
            (case findStepByFileRef h d (path file) of
               None \<Rightarrow> None
             | Some None \<Rightarrow> Some st
             | Some (Some (ja, sa)) \<Rightarrow>
                (case (cellAt h ja, cellAt h sa, readDefs h d) of
                   (Some (JourneyCell jo), Some (StepCell so), Some defs) \<Rightarrow>
                     (let newNext = resolveNext parsed defs;
                          (h1, nn) = newCell h (StrArray newNext)
                      in (case readStrs h1 (o_next so) of
                            None \<Rightarrow> None
                          | Some oldNext \<Rightarrow>
                             (let oldNextStr = jsonStringArray oldNext;
                                  newNextStr = jsonStringArray newNext
                              in if oldNextStr \<noteq> newNextStr
                                 then
                                   (case trimEdgeLabelsRef h1 sa so (length newNext) of
                                      None \<Rightarrow> None
                                    | Some (h2, so1) \<Rightarrow>
                                        Some (writeCell h2 sa (StepCell (so1\<lparr> o_next := nn \<rparr>)),
                                              chs @ [\<lparr> action = ''update-edges'',
                                                       journeyId = jo_id jo, stepId = o_id so,
                                                       detail = ''Updated next[] from '' @ oldNextStr
                                                                @ '' to '' @ newNextStr \<rparr>],
                                              rc))
                                 else Some (h1, chs, rc))))
                 | _ \<Rightarrow> None))))"

text \<open>
  \<^verbatim>\<open>merge\<close> on the store: the deep copy, then the three loops on the copy. The result
  is the store after the call and the \<^verbatim>\<open>MergeResult\<close>, whose \<^verbatim>\<open>json\<close> is the reference
  \<^verbatim>\<open>defs\<close>.
\<close>

definition mergeRef ::
  "store \<Rightarrow> addr \<Rightarrow> ScanResult \<Rightarrow> ParsedView list \<Rightarrow> (store \<times> addr \<times> ChangeRecord list \<times> nat) option" where
  "mergeRef h current scanResult parsedViews =
     (case deepClone h current of
        None \<Rightarrow> None
      | Some (h1, d) \<Rightarrow>
          (let byPath = parsedByPath parsedViews
           in (case foldOpt (addNewFileRef byPath d) (h1, [], 0) (newFiles scanResult) of
                 None \<Rightarrow> None
               | Some st1 \<Rightarrow>
                  (case foldOpt (removeFileRef d) st1 (removedFiles scanResult) of
                     None \<Rightarrow> None
                   | Some st2 \<Rightarrow>
                      (case foldOpt (modifyFileRef byPath d) st2 (modifiedFiles scanResult) of
                         None \<Rightarrow> None
                       | Some (h3, chs, rc) \<Rightarrow> Some (h3, d, chs, rc))))))"

subsection \<open>Predicates on stores\<close>

text \<open>The addresses an object holds, and the type of object each of them is to lead to.\<close>

datatype kind = KDefs | KJourneyArray | KJourney | KStepArray | KStep | KStrArray

fun kindOf :: "cell \<Rightarrow> kind" where
  "kindOf (DefsCell dob) = KDefs"
| "kindOf (JourneyArray js) = KJourneyArray"
| "kindOf (JourneyCell jo) = KJourney"
| "kindOf (StepArray ss) = KStepArray"
| "kindOf (StepCell so) = KStep"
| "kindOf (StrArray xs) = KStrArray"

fun refsOf :: "cell \<Rightarrow> (addr \<times> kind) list" where
  "refsOf (DefsCell dob) = [(do_journeys dob, KJourneyArray)]"
| "refsOf (JourneyArray js) = map (\<lambda>a. (a, KJourney)) js"
| "refsOf (JourneyCell jo) = [(jo_steps jo, KStepArray)]"
| "refsOf (StepArray ss) = map (\<lambda>a. (a, KStep)) ss"
| "refsOf (StepCell so) =
     (o_next so, KStrArray)
     # (case o_edgeLabels so of None \<Rightarrow> [] | Some e \<Rightarrow> [(e, KStrArray)])"
| "refsOf (StrArray xs) = []"

text \<open>
  No object at an address from \<open>n\<close> on holds an address below \<open>n\<close>: the part of the store
  from \<open>n\<close> on shares nothing with the part below.
\<close>

definition closedFrom :: "nat \<Rightarrow> store \<Rightarrow> bool" where
  "closedFrom n h = list_all (\<lambda>c. list_all (\<lambda>r. n \<le> fst r) (refsOf c)) (drop n h)"

text \<open>
  An address from \<open>n\<close> on that leads to an object of the given type, and a part of the
  store from \<open>n\<close> on in which every address held is one: the store invariant of the loops
  of \<open>mergeRef\<close> for the copy at \<open>d\<close>.
\<close>

definition leadsTo :: "nat \<Rightarrow> store \<Rightarrow> addr \<Rightarrow> kind \<Rightarrow> bool" where
  "leadsTo n h a k = (n \<le> a \<and> a < length h \<and> kindOf (h ! a) = k)"

definition cellOk :: "nat \<Rightarrow> store \<Rightarrow> cell \<Rightarrow> bool" where
  "cellOk n h c = list_all (\<lambda>r. leadsTo n h (fst r) (snd r)) (refsOf c)"

definition regionOk :: "nat \<Rightarrow> store \<Rightarrow> bool" where
  "regionOk n h = list_all (cellOk n h) (drop n h)"

definition copyOk :: "nat \<Rightarrow> store \<Rightarrow> addr \<Rightarrow> bool" where
  "copyOk n h d = (n \<le> length h \<and> regionOk n h \<and> leadsTo n h d KDefs)"

text \<open>The store \<open>h'\<close> has the objects of \<open>h\<close> below \<open>n\<close> as they are, and no fewer objects.\<close>

definition keeps :: "nat \<Rightarrow> store \<Rightarrow> store \<Rightarrow> bool" where
  "keeps n h h' = (take n h' = take n h \<and> length h \<le> length h')"


section \<open>The extractor (sync/parse.ts)\<close>

subsection \<open>Regular expressions of the run time\<close>

text \<open>
  The source matches its inputs with JavaScript regular expressions. The constructs
  it uses are modelled by a backtracking matcher with the priorities of the run time:
  a sequence is a list of items; a greedy repetition tries one more character before
  it tries the rest, a lazy one the other way round; the alternatives of a group are
  tried in order. A content is a string of 8-bit characters. The classes:
  \<^verbatim>\<open>\w\<close> is \<^verbatim>\<open>[A-Za-z0-9_]\<close>; \<^verbatim>\<open>\s\<close> is tab, line feed, vertical tab, form feed,
  carriage return, space and the no-break space.
\<close>

definition isWordChar :: "char \<Rightarrow> bool" where
  "isWordChar c = (isUpper c \<or> isLower c \<or> isDigit c \<or> c = CHR ''_'')"

definition isSpace :: "char \<Rightarrow> bool" where
  "isSpace c = ((of_char c :: nat) \<in> set [9, 10, 11, 12, 13, 32, 160])"

definition anyChar :: "char \<Rightarrow> bool" where
  "anyChar c = True"

definition notChar :: "char \<Rightarrow> char \<Rightarrow> bool" where
  "notChar x c = (c \<noteq> x)"

text \<open>
  \<open>Lit\<close> is literal text, \<open>Boundary\<close> is \<^verbatim>\<open>\b\<close>, \<open>Rep greedy n cls\<close> is a class
  repeated at least \<open>n\<close> times (\<^verbatim>\<open>cls*\<close>, \<^verbatim>\<open>cls+\<close>, \<^verbatim>\<open>cls*?\<close>), \<open>OneOf\<close> is a
  group of literal alternatives, \<open>GroupOpen\<close> and \<open>GroupClose\<close> delimit capture group 1,
  \<open>End\<close> is \<^verbatim>\<open>$\<close> without the \<^verbatim>\<open>m\<close> flag: the end of the input.
\<close>

datatype rx =
    Lit string
  | Boundary
  | Rep bool nat "char \<Rightarrow> bool"
  | OneOf "string list"
  | GroupOpen
  | GroupClose
  | End

fun rxWeight :: "rx \<Rightarrow> nat" where
  "rxWeight (OneOf ls) = Suc (Suc (length ls))"
| "rxWeight r = Suc 0"

text \<open>\<^verbatim>\<open>\b\<close> holds between two characters of which exactly one is a word character.\<close>

definition atBoundary :: "char option \<Rightarrow> string \<Rightarrow> bool" where
  "atBoundary prev s =
     ((case prev of None \<Rightarrow> False | Some c \<Rightarrow> isWordChar c)
      \<noteq> (case s of [] \<Rightarrow> False | c # cs \<Rightarrow> isWordChar c))"

text \<open>
  \<open>matchSeq items prev s opened cap\<close> matches the items at the start of \<open>s\<close>, where
  \<open>prev\<close> is the character before \<open>s\<close>, \<open>opened\<close> the input at the opening of the
  group and \<open>cap\<close> the text captured so far. It returns the input after the match, the
  character before it, and the capture.
\<close>

function matchSeq ::
  "rx list \<Rightarrow> char option \<Rightarrow> string \<Rightarrow> string \<Rightarrow> string \<Rightarrow> (string \<times> char option \<times> string) option" where
  "matchSeq [] prev s opened cap = Some (s, prev, cap)"
| "matchSeq (Lit l # rs) prev s opened cap =
     (if prefix l s
      then matchSeq rs (if l = [] then prev else Some (last l)) (drop (length l) s) opened cap
      else None)"
| "matchSeq (Boundary # rs) prev s opened cap =
     (if atBoundary prev s then matchSeq rs prev s opened cap else None)"
| "matchSeq (Rep greedy n cls # rs) prev s opened cap =
     (let more = (case s of
                    [] \<Rightarrow> None
                  | c # cs \<Rightarrow> if cls c then matchSeq (Rep greedy (n - 1) cls # rs) (Some c) cs opened cap
                            else None);
          stop = (if n = 0 then matchSeq rs prev s opened cap else None)
      in if greedy then (case more of Some r \<Rightarrow> Some r | None \<Rightarrow> stop)
         else (case stop of Some r \<Rightarrow> Some r | None \<Rightarrow> more))"
| "matchSeq (OneOf [] # rs) prev s opened cap = None"
| "matchSeq (OneOf (l # ls) # rs) prev s opened cap =
     (case matchSeq (Lit l # rs) prev s opened cap of
        Some r \<Rightarrow> Some r
      | None \<Rightarrow> matchSeq (OneOf ls # rs) prev s opened cap)"
| "matchSeq (GroupOpen # rs) prev s opened cap = matchSeq rs prev s s cap"
| "matchSeq (GroupClose # rs) prev s opened cap =
     matchSeq rs prev s opened (take (length opened - length s) opened)"
| "matchSeq (End # rs) prev s opened cap =
     (if s = [] then matchSeq rs prev s opened cap else None)"
  by pat_completeness auto
termination
  by (relation "measure (\<lambda>(rs, prev, s, opened, cap). sum_list (map rxWeight rs) + length s)") auto

text \<open>The equations of the matcher are applied by hand: they unfold without end on a variable.\<close>

declare matchSeq.simps [simp del]

text \<open>A regular expression is the list of its top-level alternatives, tried in order.\<close>

type_synonym regex = "rx list list"

fun matchHere :: "regex \<Rightarrow> char option \<Rightarrow> string \<Rightarrow> (string \<times> char option \<times> string) option" where
  "matchHere [] prev s = None"
| "matchHere (alt # alts) prev s =
     (case matchSeq alt prev s [] [] of
        Some r \<Rightarrow> Some r
      | None \<Rightarrow> matchHere alts prev s)"

text \<open>The leftmost match at or after the start of \<open>s\<close>.\<close>

fun searchFrom :: "regex \<Rightarrow> char option \<Rightarrow> string \<Rightarrow> (string \<times> char option \<times> string) option" where
  "searchFrom re prev [] = matchHere re prev []"
| "searchFrom re prev (c # cs) =
     (case matchHere re prev (c # cs) of
        Some r \<Rightarrow> Some r
      | None \<Rightarrow> searchFrom re (Some c) cs)"

text \<open>\<^verbatim>\<open>re.test(content)\<close> and group 1 of \<^verbatim>\<open>content.match(re)\<close>, for a regex without \<^verbatim>\<open>g\<close>.\<close>

definition regexTest :: "regex \<Rightarrow> string \<Rightarrow> bool" where
  "regexTest re s = (searchFrom re None s \<noteq> None)"

text \<open>The same for a regex that starts with \<^verbatim>\<open>^\<close>: only a match at the start counts.\<close>

definition regexTestAnchored :: "regex \<Rightarrow> string \<Rightarrow> bool" where
  "regexTestAnchored re s = (matchHere re None s \<noteq> None)"

definition regexGroup1 :: "regex \<Rightarrow> string \<Rightarrow> string option" where
  "regexGroup1 re s = (case searchFrom re None s of None \<Rightarrow> None | Some (rest, prev, cap) \<Rightarrow> Some cap)"

text \<open>
  The loop \<^verbatim>\<open>while ((m = re.exec(content)) !== null)\<close> on a regex with \<^verbatim>\<open>g\<close>: each
  search starts where the last match ended. After an empty match the next search starts
  at the same place and finds the same match, so the loop of the source never ends:
  that is the result \<open>None\<close>. Otherwise the result is the list of the captures.
\<close>

function execAll :: "regex \<Rightarrow> char option \<Rightarrow> string \<Rightarrow> string list option" where
  "execAll re prev s =
     (case searchFrom re prev s of
        None \<Rightarrow> Some []
      | Some (rest, prev', cap) \<Rightarrow>
          if length rest < length s
          then (case execAll re prev' rest of None \<Rightarrow> None | Some caps \<Rightarrow> Some (cap # caps))
          else None)"
  by pat_completeness auto
termination
  by (relation "measure (\<lambda>(re, prev, s). length s)") auto

declare execAll.simps [simp del]

subsection \<open>Struct name\<close>

text \<open>\<^verbatim>\<open>/\bstruct\s+(\w+)\s*:\s*View\b/\<close>\<close>

definition STRUCT_RE :: regex where
  "STRUCT_RE = [[Boundary, Lit ''struct'', Rep True 1 isSpace, GroupOpen, Rep True 1 isWordChar,
                 GroupClose, Rep True 0 isSpace, Lit '':'', Rep True 0 isSpace, Lit ''View'',
                 Boundary]]"

definition extractStructName :: "string \<Rightarrow> string option" where
  "extractStructName content' = regexGroup1 STRUCT_RE content'"

subsection \<open>Nav edge extraction\<close>

text \<open>
  The tail \<^verbatim>\<open>\s*\{[^{]*?(\w+View)\s*\(\<close> that the five patterns share, then the
  patterns with their mechanisms, in the order of the source:
  \<^verbatim>\<open>\.sheet\s*\([^)]*\)\<close>, \<^verbatim>\<open>\.fullScreenCover\s*\([^)]*\)\<close>, \<^verbatim>\<open>NavigationLink\<close>,
  \<^verbatim>\<open>\.navigationDestination\s*\([^)]*\)\<close> and \<^verbatim>\<open>\bTab\<close>, each followed by the tail.
\<close>

definition viewInBraces :: "rx list" where
  "viewInBraces = [Rep True 0 isSpace, Lit ''{'', Rep False 0 (notChar CHR ''{''), GroupOpen,
                   Rep True 1 isWordChar, Lit ''View'', GroupClose, Rep True 0 isSpace, Lit ''('']"

definition withArguments :: "string \<Rightarrow> rx list" where
  "withArguments name = [Lit name, Rep True 0 isSpace, Lit ''('', Rep True 0 (notChar CHR '')''),
                         Lit '')'']"

definition NAV_PATTERNS :: "(regex \<times> string) list" where
  "NAV_PATTERNS =
     [([withArguments ''.sheet'' @ viewInBraces], ''sheet''),
      ([withArguments ''.fullScreenCover'' @ viewInBraces], ''fullScreenCover''),
      ([[Lit ''NavigationLink''] @ viewInBraces], ''navigationLink''),
      ([withArguments ''.navigationDestination'' @ viewInBraces], ''navigationDestination''),
      ([[Boundary, Lit ''Tab''] @ viewInBraces], ''tabView'')]"

text \<open>
  The inner loop of \<^verbatim>\<open>extractEdges\<close> for the matches of one pattern; the state is the
  pair of \<^verbatim>\<open>edges\<close> and \<^verbatim>\<open>seen\<close>.
\<close>

definition addEdge :: "string \<Rightarrow> NavEdge list \<times> string list \<Rightarrow> string \<Rightarrow> NavEdge list \<times> string list" where
  "addEdge mechanism' st destination' =
     (let key = destination' @ ''::'' @ mechanism' in
      if key \<in> set (snd st) then st
      else (fst st @ [\<lparr> destination = destination', mechanism = mechanism' \<rparr>], setAdd (snd st) key))"

text \<open>\<^verbatim>\<open>extractEdges\<close>; \<open>None\<close> when one of the loops never ends.\<close>

fun extractEdgesFrom ::
  "(regex \<times> string) list \<Rightarrow> string \<Rightarrow> NavEdge list \<times> string list \<Rightarrow> NavEdge list option" where
  "extractEdgesFrom [] content' st = Some (fst st)"
| "extractEdgesFrom ((re, mechanism') # patterns) content' st =
     (case execAll re None content' of
        None \<Rightarrow> None
      | Some destinations \<Rightarrow>
          extractEdgesFrom patterns content' (foldl (addEdge mechanism') st destinations))"

definition extractEdges :: "string \<Rightarrow> NavEdge list option" where
  "extractEdges content' = extractEdgesFrom NAV_PATTERNS content' ([], [])"

subsection \<open>Type inference\<close>

text \<open>
  \<^verbatim>\<open>/\b(TextField|TextEditor|Picker|Toggle|SecureField|Slider|Stepper)\b/\<close>,
  \<^verbatim>\<open>/\bdismiss\s*\(\)|presentationMode\.wrappedValue\.dismiss/\<close>,
  \<^verbatim>\<open>/\bButton\s*\(/\<close>,
  \<^verbatim>\<open>/if\s+\w+\s*\{[\s\S]*?(NavigationLink|\.sheet|\.fullScreenCover)/\<close>,
  \<^verbatim>\<open>/\bTask\s*\{|\.task\s*\{|\.onAppear\s*\{/\<close> and \<^verbatim>\<open>/\bvar\s+body\s*:/\<close>.
  These are only tested, so their groups capture nothing here.
\<close>

definition INPUT_INDICATORS :: regex where
  "INPUT_INDICATORS = [[Boundary, OneOf [''TextField'', ''TextEditor'', ''Picker'', ''Toggle'',
                                         ''SecureField'', ''Slider'', ''Stepper''], Boundary]]"

definition DISMISS_INDICATORS :: regex where
  "DISMISS_INDICATORS = [[Boundary, Lit ''dismiss'', Rep True 0 isSpace, Lit ''()''],
                         [Lit ''presentationMode.wrappedValue.dismiss'']]"

definition BUTTON_INDICATORS :: regex where
  "BUTTON_INDICATORS = [[Boundary, Lit ''Button'', Rep True 0 isSpace, Lit ''('']]"

definition CONDITIONAL_NAV :: regex where
  "CONDITIONAL_NAV = [[Lit ''if'', Rep True 1 isSpace, Rep True 1 isWordChar, Rep True 0 isSpace,
                       Lit ''{'', Rep False 0 anyChar,
                       OneOf [''NavigationLink'', ''.sheet'', ''.fullScreenCover'']]]"

definition BACKGROUND_ONLY :: regex where
  "BACKGROUND_ONLY = [[Boundary, Lit ''Task'', Rep True 0 isSpace, Lit ''{''],
                      [Lit ''.task'', Rep True 0 isSpace, Lit ''{''],
                      [Lit ''.onAppear'', Rep True 0 isSpace, Lit ''{'']]"

definition HAS_ANY_BODY_CONTENT :: regex where
  "HAS_ANY_BODY_CONTENT = [[Boundary, Lit ''var'', Rep True 1 isSpace, Lit ''body'',
                            Rep True 0 isSpace, Lit '':'']]"

definition inferType :: "string \<Rightarrow> string" where
  "inferType content' =
     (if regexTest INPUT_INDICATORS content' then ''input''
      else if regexTest CONDITIONAL_NAV content' then ''decision''
      else if regexTest BUTTON_INDICATORS content' \<and> regexTest DISMISS_INDICATORS content'
           then ''action''
      else if \<not> regexTest HAS_ANY_BODY_CONTENT content'
              \<or> (\<not> regexTest BUTTON_INDICATORS content' \<and> regexTest BACKGROUND_ONLY content')
           then ''system''
      else ''display'')"

subsection \<open>Public API\<close>

text \<open>
  The result of a call that may not return: \<open>parseSwiftFile\<close> runs the loops of
  \<open>extractEdges\<close>. That it always returns is proved below.
\<close>

datatype 'a outcome = NeverReturns | Returns 'a

definition parseSwiftFile :: "string \<Rightarrow> string \<Rightarrow> ParsedView option outcome" where
  "parseSwiftFile filePath' content' =
     (case extractStructName content' of
        None \<Rightarrow> Returns None
      | Some structName' \<Rightarrow>
          if structName' = [] then Returns None
          else (case extractEdges content' of
                  None \<Rightarrow> NeverReturns
                | Some edges \<Rightarrow>
                    Returns (Some \<lparr> structName = structName', filePath = filePath',
                                    presentsTo = edges, inferredType = inferType content' \<rparr>)))"


text \<open>
  Lines 105 to 108 of the daemon: the changed files that \<open>parseSwiftFile\<close> gives a view
  for, in order.
\<close>

fun parseFiles :: "ChangedFile list \<Rightarrow> ParsedView list outcome" where
  "parseFiles [] = Returns []"
| "parseFiles (f # fs) =
     (case parseSwiftFile (path f) (content f) of
        NeverReturns \<Rightarrow> NeverReturns
      | Returns r \<Rightarrow>
          (case parseFiles fs of
             NeverReturns \<Rightarrow> NeverReturns
           | Returns ps \<Rightarrow> Returns (case r of None \<Rightarrow> ps | Some p \<Rightarrow> p # ps)))"

section \<open>The scanner (sync/scan.ts)\<close>

text \<open>
  The git commands that \<^verbatim>\<open>scan\<close> runs through \<^verbatim>\<open>Bun.$\<close>, for a fixed repository:
  \<^verbatim>\<open>rev-parse HEAD\<close>, \<^verbatim>\<open>diff last..HEAD --name-status -- "*.swift"\<close>,
  \<^verbatim>\<open>show HEAD:path\<close> and \<^verbatim>\<open>diff last..HEAD -- path\<close>. The repository is a function
  from a command to its standard output, or to \<open>None\<close> when the command exits with an
  error, which makes \<^verbatim>\<open>Bun.$\<close> throw.
\<close>

datatype gitCmd =
    RevParse
  | DiffNameStatus string
  | ShowHead string
  | DiffFile string string

type_synonym repo = "gitCmd \<Rightarrow> string option"

text \<open>\<^verbatim>\<open>s.trim()\<close>: the white space of \<^verbatim>\<open>\s\<close> is dropped at both ends.\<close>

definition trim :: "string \<Rightarrow> string" where
  "trim s = rev (dropWhile isSpace (rev (dropWhile isSpace s)))"

text \<open>
  \<^verbatim>\<open>isWatched\<close>: the five patterns \<^verbatim>\<open>^dir\/[^/]+\.swift$\<close> and the two fixed paths.
\<close>

definition swiftIn :: "string \<Rightarrow> regex" where
  "swiftIn dir = [[Lit dir, Rep True 1 (notChar CHR ''/''), Lit ''.swift'', End]]"

definition isWatched :: "string \<Rightarrow> bool" where
  "isWatched filePath' =
     (regexTestAnchored (swiftIn ''ExampleApp/Sources/UI/Views/'') filePath'
      \<or> regexTestAnchored (swiftIn ''ExampleApp/Sources/UI/Onboarding/'') filePath'
      \<or> regexTestAnchored (swiftIn ''ExampleApp/Sources/UI/Components/'') filePath'
      \<or> filePath' = ''ExampleApp/ContentView.swift''
      \<or> filePath' = ''ExampleApp/ExampleAppApp.swift''
      \<or> regexTestAnchored (swiftIn ''ExampleAppShare/'') filePath'
      \<or> regexTestAnchored (swiftIn ''ExampleAppAction/'') filePath')"

text \<open>
  The state of the loop over the lines of the diff: the three lists of the result and
  the commands run so far, in order.
\<close>

record scanState =
  newAcc :: "ChangedFile list"
  removedAcc :: "string list"
  modifiedAcc :: "ChangedFile list"
  ran :: "gitCmd list"

text \<open>
  Lines 66 to 104, the body of the loop. A line is \<^verbatim>\<open>status TAB path\<close>. A path that is
  empty or not watched is passed over. A \<^verbatim>\<open>D\<close> line adds the path to the removed
  files. For any other line the content is fetched; when that command fails, the
  \<^verbatim>\<open>catch\<close> of the source goes on to the next line. The diff of the file is fetched
  next; when that command fails, the diff is the empty string.
\<close>

definition scanLine :: "repo \<Rightarrow> string \<Rightarrow> scanState \<Rightarrow> string \<Rightarrow> scanState" where
  "scanLine git lastSHA st line =
     (let parts = splitOn (CHR 0x09) line;
          statusCode = hd parts;
          filePath' = joinWith [CHR 0x09] (tl parts)
      in if filePath' = [] \<or> \<not> isWatched filePath' then st
         else
           let status' = take 1 statusCode in
           if status' = ''D'' then st\<lparr> removedAcc := removedAcc st @ [filePath'] \<rparr>
           else
             (case git (ShowHead filePath') of
                None \<Rightarrow> st\<lparr> ran := ran st @ [ShowHead filePath'] \<rparr>
              | Some content' \<Rightarrow>
                  let diff' = (case git (DiffFile lastSHA filePath') of None \<Rightarrow> [] | Some d \<Rightarrow> d);
                      entry = \<lparr> path = filePath', content = content', diff = diff',
                                status = status' \<rparr>;
                      st' = st\<lparr> ran := ran st @ [ShowHead filePath', DiffFile lastSHA filePath'] \<rparr>
                  in if status' = ''A'' then st'\<lparr> newAcc := newAcc st' @ [entry] \<rparr>
                     else st'\<lparr> modifiedAcc := modifiedAcc st' @ [entry] \<rparr>))"

text \<open>
  \<^verbatim>\<open>scan(appPath, lastSHA)\<close>: the result, or the command whose failure is thrown, and
  the commands that were run. \<^verbatim>\<open>!lastSHA\<close> holds for \<^verbatim>\<open>null\<close> and for the empty string.
\<close>

definition scanWithTrace :: "repo \<Rightarrow> string option \<Rightarrow> (gitCmd + ScanResult) \<times> gitCmd list" where
  "scanWithTrace git lastSHA =
     (case git RevParse of
        None \<Rightarrow> (Inl RevParse, [RevParse])
      | Some headOut \<Rightarrow>
          let currentSHA' = trim headOut in
          (case lastSHA of
             None \<Rightarrow> (Inr \<lparr> currentSHA = currentSHA', newFiles = [], removedFiles = [],
                             modifiedFiles = [] \<rparr>, [RevParse])
           | Some lastSHA' \<Rightarrow>
               if lastSHA' = [] \<or> lastSHA' = currentSHA'
               then (Inr \<lparr> currentSHA = currentSHA', newFiles = [], removedFiles = [],
                            modifiedFiles = [] \<rparr>, [RevParse])
               else
                 (case git (DiffNameStatus lastSHA') of
                    None \<Rightarrow> (Inl (DiffNameStatus lastSHA'), [RevParse, DiffNameStatus lastSHA'])
                  | Some diffOut \<Rightarrow>
                      let diffLines = filter (\<lambda>l. l \<noteq> []) (splitOn (CHR 0x0A) (trim diffOut));
                          st = foldl (scanLine git lastSHA')
                                 \<lparr> newAcc = [], removedAcc = [], modifiedAcc = [],
                                   ran = [RevParse, DiffNameStatus lastSHA'] \<rparr>
                                 diffLines
                      in (Inr \<lparr> currentSHA = currentSHA', newFiles = newAcc st,
                                 removedFiles = removedAcc st, modifiedFiles = modifiedAcc st \<rparr>,
                          ran st))))"

definition scan :: "repo \<Rightarrow> string option \<Rightarrow> gitCmd + ScanResult" where
  "scan git lastSHA = fst (scanWithTrace git lastSHA)"

section \<open>The scheduler (daemon.ts)\<close>

text \<open>
  \<^verbatim>\<open>DaemonState\<close>, and the two files the daemon owns: \<^verbatim>\<open>sync/.last-commit\<close>, the
  persisted cursor (\<open>None\<close> when the file does not exist), and \<^verbatim>\<open>workflow-defs.json\<close>.
  The graph file is missing, or holds a graph, or holds something \<^verbatim>\<open>json()\<close> cannot
  read. \<open>polling\<close> says that a timer for the next tick is set; \<open>cooldowns\<close> counts the
  timers that \<^verbatim>\<open>checkErrorThreshold\<close> has set and that have not fired.
\<close>

record DaemonState =
  daemon_status :: string
  lastCommit :: "string option"
  lastCheck :: "string option"
  lastUpdate :: "string option"
  pollInterval :: nat
  updatesApplied :: nat
  pendingReview :: nat
  consecutiveErrors :: nat

datatype workflowsFile = Missing | Unreadable | Stored WorkflowDefs

record World =
  daemon :: DaemonState
  lastCommitFile :: "string option"
  workflowsFile :: workflowsFile
  polling :: bool
  cooldowns :: nat

text \<open>
  What one cycle meets outside the daemon: the repository, the readings of the clock,
  and for each effect whether it fails. A log call is named by its event; the three
  \<^verbatim>\<open>ERROR\<close> calls are told apart by their place.
\<close>

datatype logPoint =
    PollTick
  | UpdateSkipped
  | CommitDetected
  | ScanComplete
  | ValidationFailed
  | BaselineFailed
  | ExportFailed
  | MergeApplied
  | CycleError

record CycleEnv =
  cycleRepo :: repo
  checkTime :: string
  defaultTime :: string
  writeTime :: string
  updateTime :: string
  logFails :: "logPoint \<Rightarrow> bool"
  baselineFails :: bool
  writeFails :: bool
  exportFails :: bool
  saveFails :: bool

text \<open>What is thrown inside the \<^verbatim>\<open>try\<close> block, by the place that throws.\<close>

datatype thrown =
    ShellError gitCmd
  | LogError logPoint
  | ReadError
  | WriteError
  | SaveError

text \<open>
  \<^verbatim>\<open>checkErrorThreshold\<close>: at five consecutive errors the daemon pauses and a cooldown
  timer is set. The log call in it is not awaited, so its failure does not reach the
  cycle.
\<close>

definition checkErrorThreshold :: "World \<Rightarrow> World" where
  "checkErrorThreshold w =
     (if consecutiveErrors (daemon w) \<ge> 5
      then w\<lparr> daemon := (daemon w)\<lparr> daemon_status := ''paused'' \<rparr>, cooldowns := Suc (cooldowns w) \<rparr>
      else w)"

definition countError :: "World \<Rightarrow> World" where
  "countError w = w\<lparr> daemon := (daemon w)\<lparr> consecutiveErrors := Suc (consecutiveErrors (daemon w)) \<rparr> \<rparr>"

text \<open>Lines 111 to 114: the graph of the file, or the empty graph when there is no file.\<close>

definition loadDefs :: "CycleEnv \<Rightarrow> workflowsFile \<Rightarrow> WorkflowDefs option" where
  "loadDefs env f =
     (case f of
        Missing \<Rightarrow> Some \<lparr> version = Some ''1.0.0'', generatedAt = Some (defaultTime env), journeys = [] \<rparr>
      | Unreadable \<Rightarrow> None
      | Stored d \<Rightarrow> Some d)"

text \<open>
  Steps 6 to 9, after a valid candidate: the baseline snapshot and the export may fail
  without harm unless their log call fails too; then the graph is written, the state is
  updated, the cursor is saved, and the merge is logged.
\<close>

definition commitCycle :: "CycleEnv \<Rightarrow> World \<Rightarrow> ScanResult \<Rightarrow> MergeResult \<Rightarrow> thrown option \<times> World" where
  "commitCycle env w scanResult mergeResult =
     (if baselineFails env \<and> logFails env BaselineFailed then (Some (LogError BaselineFailed), w)
      else if writeFails env then (Some WriteError, w)
      else
        let w1 = w\<lparr> workflowsFile :=
                     Stored ((json mergeResult)\<lparr> generatedAt := Some (writeTime env) \<rparr>) \<rparr>
        in if exportFails env \<and> logFails env ExportFailed then (Some (LogError ExportFailed), w1)
           else
             let w2 = w1\<lparr> daemon := (daemon w1)
                          \<lparr> lastCommit := Some (currentSHA scanResult),
                            lastUpdate := Some (updateTime env),
                            updatesApplied := Suc (updatesApplied (daemon w1)),
                            pendingReview := pendingReview (daemon w1) + reviewCount mergeResult,
                            consecutiveErrors := 0 \<rparr> \<rparr>
             in if saveFails env then (Some SaveError, w2)
                else
                  let w3 = w2\<lparr> lastCommitFile := Some (currentSHA scanResult) \<rparr>
                  in if logFails env MergeApplied then (Some (LogError MergeApplied), w3)
                     else (None, w3))"

text \<open>
  The \<^verbatim>\<open>try\<close> block of \<^verbatim>\<open>pollCycle\<close>: what it throws, if anything, and the world it
  leaves. An effect that fails leaves its file as it was.
\<close>

definition tryBlock :: "CycleEnv \<Rightarrow> World \<Rightarrow> (thrown option \<times> World) outcome" where
  "tryBlock env w =
     (case scan (cycleRepo env) (lastCommit (daemon w)) of
        Inl cmd \<Rightarrow> Returns (Some (ShellError cmd), w)
      | Inr scanResult \<Rightarrow>
          let totalChanged = length (newFiles scanResult) + length (removedFiles scanResult)
                             + length (modifiedFiles scanResult)
          in if totalChanged = 0
             then
               if logFails env UpdateSkipped then Returns (Some (LogError UpdateSkipped), w)
               else
                 let w1 = w\<lparr> daemon := (daemon w)\<lparr> lastCommit := Some (currentSHA scanResult) \<rparr> \<rparr>
                 in if saveFails env then Returns (Some SaveError, w1)
                    else Returns (None, w1\<lparr> lastCommitFile := Some (currentSHA scanResult),
                                            daemon := (daemon w1)\<lparr> consecutiveErrors := 0 \<rparr> \<rparr>)
             else
               if logFails env CommitDetected then Returns (Some (LogError CommitDetected), w)
               else
                 (case parseFiles (newFiles scanResult @ modifiedFiles scanResult) of
                    NeverReturns \<Rightarrow> NeverReturns
                  | Returns parsedViews \<Rightarrow>
                      (case loadDefs env (workflowsFile w) of
                         None \<Rightarrow> Returns (Some ReadError, w)
                       | Some currentDefs \<Rightarrow>
                           let mergeResult = merge currentDefs scanResult parsedViews
                           in if logFails env ScanComplete
                              then Returns (Some (LogError ScanComplete), w)
                              else if \<not> ok (validate currentDefs (json mergeResult))
                              then
                                if logFails env ValidationFailed
                                then Returns (Some (LogError ValidationFailed), w)
                                else Returns (None, checkErrorThreshold (countError w))
                              else Returns (commitCycle env w scanResult mergeResult))))"

text \<open>
  \<^verbatim>\<open>pollCycle\<close>: the first log call is outside the \<^verbatim>\<open>try\<close>, and the \<^verbatim>\<open>catch\<close> logs
  too; when one of these two fails the promise of the cycle is rejected.
\<close>

datatype settled = Resolved | Rejected

definition stampCheck :: "CycleEnv \<Rightarrow> World \<Rightarrow> World" where
  "stampCheck env w = w\<lparr> daemon := (daemon w)\<lparr> lastCheck := Some (checkTime env) \<rparr> \<rparr>"

definition pollCycle :: "CycleEnv \<Rightarrow> World \<Rightarrow> (settled \<times> World) outcome" where
  "pollCycle env w =
     (let w0 = stampCheck env w
      in if logFails env PollTick then Returns (Rejected, w0)
         else
           (case tryBlock env w0 of
              NeverReturns \<Rightarrow> NeverReturns
            | Returns (None, w1) \<Rightarrow> Returns (Resolved, w1)
            | Returns (Some e, w1) \<Rightarrow>
                if logFails env CycleError then Returns (Rejected, countError w1)
                else Returns (Resolved, checkErrorThreshold (countError w1))))"

text \<open>
  The events of the poll loop: a tick of the timer of \<^verbatim>\<open>startPoll\<close>, which runs a cycle
  when the daemon is running and sets the next timer unless the cycle is rejected; and
  the end of a cooldown, which sets the daemon running again and restarts the loop.
\<close>

datatype event = Tick CycleEnv | CooldownElapsed

definition dispatch :: "event \<Rightarrow> World \<Rightarrow> World outcome" where
  "dispatch ev w =
     (case ev of
        Tick env \<Rightarrow>
          if polling w \<and> daemon_status (daemon w) = ''running''
          then (case pollCycle env w of
                  NeverReturns \<Rightarrow> NeverReturns
                | Returns (Resolved, w') \<Rightarrow> Returns w'
                | Returns (Rejected, w') \<Rightarrow> Returns (w'\<lparr> polling := False \<rparr>))
          else Returns w
      | CooldownElapsed \<Rightarrow>
          if cooldowns w = 0 then Returns w
          else Returns (w\<lparr> daemon := (daemon w)\<lparr> daemon_status := ''running'',
                                                   consecutiveErrors := 0 \<rparr>,
                           polling := True, cooldowns := cooldowns w - 1 \<rparr>))"

fun run :: "event list \<Rightarrow> World \<Rightarrow> World outcome" where
  "run [] w = Returns w"
| "run (ev # evs) w = (case dispatch ev w of NeverReturns \<Rightarrow> NeverReturns | Returns w' \<Rightarrow> run evs w')"

section \<open>Fixtures of sync/sync.test.ts\<close>

text \<open>
  \<^verbatim>\<open>makeStep\<close>, \<^verbatim>\<open>makeJourney\<close> and \<^verbatim>\<open>makeWorkflow\<close> of the test file, without the
  overrides. The test stamps \<^verbatim>\<open>generatedAt\<close> with the clock; the stamp is fixed here.
\<close>

definition makeStep :: "string \<Rightarrow> Step" where
  "makeStep i = \<lparr> step_id = i, label = i, screen = i, swiftFile = Some (i @ ''.swift''),
                  step_type = ''display'', phase = ''Unassigned'', step_next = [],
                  edgeLabels = None, deprecated = None, needsReview = None \<rparr>"

definition makeJourney :: "string \<Rightarrow> Step list \<Rightarrow> Journey" where
  "makeJourney i ss = \<lparr> journey_id = i, journey_name = i, description = [],
                        journey_group = None, steps = ss \<rparr>"

definition makeWorkflow :: "Journey list \<Rightarrow> WorkflowDefs" where
  "makeWorkflow js = \<lparr> version = Some ''1.0'', generatedAt = Some ''2026-02-20T00:00:00.000Z'',
                       journeys = js \<rparr>"




definition edgeStepA :: Step where
  "edgeStepA = (makeStep ''a'')\<lparr> screen := ''AView'', swiftFile := Some ''a.swift'',
                                 step_next := [''b'', ''c''], edgeLabels := Some [''Yes'', ''No''] \<rparr>"

definition edgeStepB :: Step where
  "edgeStepB = (makeStep ''b'')\<lparr> screen := ''BView'', swiftFile := Some ''b.swift'' \<rparr>"

definition edgeStepC :: Step where
  "edgeStepC = (makeStep ''c'')\<lparr> screen := ''CView'', swiftFile := Some ''c.swift'' \<rparr>"

definition edgeDefs :: WorkflowDefs where
  "edgeDefs = makeWorkflow [makeJourney ''j'' [edgeStepA, edgeStepB, edgeStepC]]"

definition edgeParsedShrunk :: ParsedView where
  "edgeParsedShrunk = \<lparr> structName = ''AView'', filePath = ''a.swift'',
                         presentsTo = [\<lparr> destination = ''BView'', mechanism = ''sheet'' \<rparr>],
                         inferredType = ''display'' \<rparr>"

definition edgeParsedSame :: ParsedView where
  "edgeParsedSame = \<lparr> structName = ''AView'', filePath = ''a.swift'',
                       presentsTo = [\<lparr> destination = ''BView'', mechanism = ''sheet'' \<rparr>,
                                     \<lparr> destination = ''CView'', mechanism = ''sheet'' \<rparr>],
                       inferredType = ''display'' \<rparr>"

definition edgeFile :: ChangedFile where
  "edgeFile = \<lparr> path = ''a.swift'', content = [], diff = [], status = ''M'' \<rparr>"

definition edgeScan :: ScanResult where
  "edgeScan = \<lparr> currentSHA = ''x'', newFiles = [], removedFiles = [], modifiedFiles = [edgeFile] \<rparr>"



definition edgeTwinDefs :: WorkflowDefs where
  "edgeTwinDefs = makeWorkflow
     [makeJourney ''j'' [edgeStepA, edgeStepA\<lparr> step_id := ''a2'' \<rparr>, edgeStepB, edgeStepC]]"

text \<open>
  The added file of the scenario of claim C4, with the content of the test \<^verbatim>\<open>plain display
  view\<close> on one line; the graph of the integration test, without journeys; and a graph
  in which the step of the file is deprecated and still tracks its path.
\<close>

definition welcomePath :: string where
  "welcomePath = ''ExampleApp/Sources/UI/Views/WelcomeView.swift''"

definition welcomeDisplay :: ChangedFile where
  \<open>welcomeDisplay = \<lparr> path = welcomePath,
       content = ''struct WelcomeView: View { var body: some View { VStack { Text("Welcome!") } } }'',
       diff = [], status = ''A'' \<rparr>\<close>

definition welcomeView :: "string \<Rightarrow> ParsedView" where
  "welcomeView t = \<lparr> structName = ''WelcomeView'', filePath = welcomePath, presentsTo = [],
                      inferredType = t \<rparr>"

definition welcomeGoneDefs :: WorkflowDefs where
  "welcomeGoneDefs = makeWorkflow [makeJourney ''main''
       [(makeStep ''welcome-view'')\<lparr> screen := ''WelcomeView'', swiftFile := Some welcomePath,
                                       deprecated := Some True \<rparr>]]"

definition scanOf :: "ChangedFile \<Rightarrow> ScanResult" where
  "scanOf f = \<lparr> currentSHA = ''abc'', newFiles = [f], removedFiles = [], modifiedFiles = [] \<rparr>"

definition baseDefs :: WorkflowDefs where
  "baseDefs = \<lparr> version = Some ''1.0'', generatedAt = Some [], journeys = [] \<rparr>"

text \<open>
  A graph with one journey and one step, and a new view that presents the screen of that
  step from a path outside the path rules.
\<close>

definition homeDefs :: WorkflowDefs where
  "homeDefs = makeWorkflow [makeJourney ''main'' [(makeStep ''home'')\<lparr> screen := ''HomeView'' \<rparr>]]"

definition detailPath :: string where
  "detailPath = ''ExampleApp/Sources/UI/Views/DetailView.swift''"

definition detailView :: ParsedView where
  "detailView = \<lparr> structName = ''DetailView'', filePath = detailPath,
                   presentsTo = [\<lparr> destination = ''HomeView'', mechanism = ''sheet'' \<rparr>],
                   inferredType = ''display'' \<rparr>"

definition detailFile :: ChangedFile where
  "detailFile = \<lparr> path = detailPath, content = [], diff = [], status = ''A'' \<rparr>"

text \<open>
  A graph in which a step presents an existing step that shows \<open>DetailView\<close>; the paths
  of the three routing tests.
\<close>

definition linkedDefs :: WorkflowDefs where
  "linkedDefs = makeWorkflow [makeJourney ''browse''
       [(makeStep ''list'')\<lparr> screen := ''ListView'', step_next := [''detail''] \<rparr>,
        (makeStep ''detail'')\<lparr> screen := ''DetailView'', swiftFile := None \<rparr>]]"

definition onboardingPath :: string where
  "onboardingPath = ''ExampleApp/Sources/UI/Onboarding/OnboardingStep1View.swift''"

definition sharePath :: string where
  "sharePath = ''ExampleAppShare/ShareExtView.swift''"

definition actionPath :: string where
  "actionPath = ''ExampleAppAction/ActionExtView.swift''"

text \<open>
  A repository at revision \<open>def\<close> whose diff against \<open>abc\<close> lists one added watched
  file, and in which fetching the content of that file fails; the same repository with
  the content in place and the fetch of the file's diff failing.
\<close>

definition contentViewPath :: string where
  "contentViewPath = ''ExampleApp/ContentView.swift''"


definition readableRepo :: repo where
  "readableRepo cmd =
     (case cmd of
        RevParse \<Rightarrow> Some (''def'' @ [CHR 0x0A])
      | DiffNameStatus l \<Rightarrow> Some (''A'' @ [CHR 0x09] @ contentViewPath @ [CHR 0x0A])
      | ShowHead p \<Rightarrow> Some ''struct ContentView: View {}''
      | DiffFile l p \<Rightarrow> None)"



text \<open>
  A daemon that last processed revision \<open>abc\<close> and has no graph file yet, and a cycle in
  which nothing fails, on the repository with one added file; the same cycle with a
  failing last log call; a daemon whose graph file holds the graph with the home step,
  and a repository that adds a view under the onboarding path that presents the home
  screen; a graph with two steps that show the same screen under different ids.
\<close>

definition freshDaemon :: DaemonState where
  "freshDaemon = \<lparr> daemon_status = ''running'', lastCommit = Some ''abc'', lastCheck = None,
                    lastUpdate = None, pollInterval = 60000, updatesApplied = 0,
                    pendingReview = 0, consecutiveErrors = 0 \<rparr>"

definition freshWorld :: World where
  "freshWorld = \<lparr> daemon = freshDaemon, lastCommitFile = Some ''abc'', workflowsFile = Missing,
                   polling = True, cooldowns = 0 \<rparr>"

definition calmEnv :: CycleEnv where
  "calmEnv = \<lparr> cycleRepo = readableRepo, checkTime = ''t1'', defaultTime = ''t2'',
                writeTime = ''t3'', updateTime = ''t4'', logFails = (\<lambda>p. False),
                baselineFails = False, writeFails = False, exportFails = False,
                saveFails = False \<rparr>"

definition lateLogEnv :: CycleEnv where
  "lateLogEnv = calmEnv\<lparr> logFails := (\<lambda>p. p = MergeApplied) \<rparr>"

text \<open>
  What the cycle on the repository with one added file meets on its way: the file, the
  scan result, the descriptor of the file, and the graph that stands for a missing graph
  file.
\<close>

definition contentFile :: ChangedFile where
  "contentFile = \<lparr> path = contentViewPath, content = ''struct ContentView: View {}'',
                    diff = [], status = ''A'' \<rparr>"

definition contentScan :: ScanResult where
  "contentScan = \<lparr> currentSHA = ''def'', newFiles = [contentFile], removedFiles = [],
                    modifiedFiles = [] \<rparr>"

definition contentView :: ParsedView where
  "contentView = \<lparr> structName = ''ContentView'', filePath = contentViewPath, presentsTo = [],
                    inferredType = ''system'' \<rparr>"

definition startDefs :: WorkflowDefs where
  "startDefs = \<lparr> version = Some ''1.0.0'', generatedAt = Some ''t2'', journeys = [] \<rparr>"

definition introPath :: string where
  "introPath = ''ExampleApp/Sources/UI/Onboarding/IntroView.swift''"

definition introRepo :: repo where
  \<open>introRepo cmd =
     (case cmd of
        RevParse \<Rightarrow> Some ''def''
      | DiffNameStatus l \<Rightarrow> Some (''A'' @ [CHR 0x09] @ introPath)
      | ShowHead p \<Rightarrow> Some ''struct IntroView: View { var body: some View { NavigationLink { HomeView() } } }''
      | DiffFile l p \<Rightarrow> Some [])\<close>

definition introView :: ParsedView where
  "introView = \<lparr> structName = ''IntroView'', filePath = introPath,
                  presentsTo = [\<lparr> destination = ''HomeView'', mechanism = ''navigationLink'' \<rparr>],
                  inferredType = ''display'' \<rparr>"

definition introFile :: ChangedFile where
  \<open>introFile = \<lparr> path = introPath,
       content = ''struct IntroView: View { var body: some View { NavigationLink { HomeView() } } }'',
       diff = [], status = ''A'' \<rparr>\<close>

definition homeWorld :: World where
  "homeWorld = freshWorld\<lparr> workflowsFile := Stored homeDefs \<rparr>"

definition introEnv :: CycleEnv where
  "introEnv = calmEnv\<lparr> cycleRepo := introRepo \<rparr>"

definition writeFailEnv :: CycleEnv where
  "writeFailEnv = calmEnv\<lparr> writeFails := True \<rparr>"

text \<open>
  A repository whose head is \<open>abc\<close> again and whose diff is empty, and a cycle in which
  the save of the cursor fails.
\<close>

definition rewoundRepo :: repo where
  "rewoundRepo cmd =
     (case cmd of
        RevParse \<Rightarrow> Some ''abc''
      | DiffNameStatus l \<Rightarrow> Some []
      | ShowHead p \<Rightarrow> None
      | DiffFile l p \<Rightarrow> None)"

definition rewoundEnv :: CycleEnv where
  "rewoundEnv = calmEnv\<lparr> cycleRepo := rewoundRepo \<rparr>"

definition saveFailEnv :: CycleEnv where
  "saveFailEnv = calmEnv\<lparr> saveFails := True \<rparr>"

definition introScan :: ScanResult where
  "introScan = \<lparr> currentSHA = ''def'', newFiles = [introFile], removedFiles = [],
                  modifiedFiles = [] \<rparr>"

definition twinDefs :: WorkflowDefs where
  "twinDefs = makeWorkflow
     [makeJourney ''one'' [(makeStep ''b1'')\<lparr> screen := ''BView'' \<rparr>],
      makeJourney ''two'' [(makeStep ''b2'')\<lparr> screen := ''BView'' \<rparr>]]"

definition twinView :: ParsedView where
  "twinView = \<lparr> structName = ''AView'', filePath = ''a.swift'',
                 presentsTo = [\<lparr> destination = ''BView'', mechanism = ''sheet'' \<rparr>],
                 inferredType = ''display'' \<rparr>"

text \<open>
  A scan result without files, and the store that holds the graph with the home step and
  nothing else.
\<close>

definition emptyScan :: "string \<Rightarrow> ScanResult" where
  "emptyScan sha = \<lparr> currentSHA = sha, newFiles = [], removedFiles = [], modifiedFiles = [] \<rparr>"

definition homeStore :: store where
  "homeStore = fst (buildDefs [] homeDefs)"

definition homeRef :: addr where
  "homeRef = snd (buildDefs [] homeDefs)"


section \<open>Predicates of the claims on graphs\<close>

text \<open>A step with id \<open>sid\<close> that is not deprecated is in some journey with id \<open>jid\<close>.\<close>

definition hasLiveStep :: "WorkflowDefs \<Rightarrow> string \<Rightarrow> string \<Rightarrow> bool" where
  "hasLiveStep g jid sid =
     list_ex (\<lambda>j. journey_id j = jid \<and>
                   list_ex (\<lambda>s. step_id s = sid \<and> \<not> truthy (deprecated s)) (steps j))
             (journeys g)"

text \<open>A step with id \<open>sid\<close>, deprecated or not, is in some journey with id \<open>jid\<close>.\<close>

definition hasStep :: "WorkflowDefs \<Rightarrow> string \<Rightarrow> string \<Rightarrow> bool" where
  "hasStep g jid sid =
     list_ex (\<lambda>j. journey_id j = jid \<and> list_ex (\<lambda>s. step_id s = sid) (steps j)) (journeys g)"

definition hasJourney :: "WorkflowDefs \<Rightarrow> string \<Rightarrow> bool" where
  "hasJourney g jid = list_ex (\<lambda>j. journey_id j = jid) (journeys g)"

text \<open>
  No node is removed from \<open>g\<close> to \<open>g'\<close>: every journey of \<open>g\<close> is at the same position
  in \<open>g'\<close> with the same id, and its step ids, in order, start the step ids of that journey
  in \<open>g'\<close>.
\<close>

definition keepsNodes :: "WorkflowDefs \<Rightarrow> WorkflowDefs \<Rightarrow> bool" where
  "keepsNodes g g' =
     (length (journeys g) \<le> length (journeys g') \<and>
      list_all2 (\<lambda>j j'. journey_id j' = journey_id j \<and>
                         prefix (map step_id (steps j)) (map step_id (steps j')))
                (journeys g) (take (length (journeys g)) (journeys g')))"

text \<open>The path starts with one of the three prefixes of the path rules.\<close>

definition matchesPathRule :: "string \<Rightarrow> bool" where
  "matchesPathRule p =
     (prefix ''ExampleApp/Sources/UI/Onboarding/'' p \<or> prefix ''ExampleAppShare/'' p
      \<or> prefix ''ExampleAppAction/'' p)"

text \<open>
  The choice of the container as claim C8 words it: the path rules, then the container
  of an existing node that has the new node as a resolved target, else \<^verbatim>\<open>unassigned\<close>.
\<close>

definition claimedContainer :: "string \<Rightarrow> string \<Rightarrow> WorkflowDefs \<Rightarrow> string" where
  "claimedContainer filePath' structName' defs =
     (if prefix ''ExampleApp/Sources/UI/Onboarding/'' filePath' then ''first-launch''
      else if prefix ''ExampleAppShare/'' filePath' then ''capture-via-share''
      else if prefix ''ExampleAppAction/'' filePath' then ''capture-via-action''
      else (case find (presentsToView structName') (journeys defs) of
              Some journey \<Rightarrow> journey_id journey
            | None \<Rightarrow> ''unassigned''))"

text \<open>
  The scenario of claim C4: the scan holds one added file and nothing else; its content
  parses to a view named \<open>name\<close> without edges; no step of the graph has an edge that
  resolves to a step showing that view; the path matches no path rule.
\<close>

definition addsOnly :: "ScanResult \<Rightarrow> ChangedFile \<Rightarrow> bool" where
  "addsOnly scanResult f =
     (newFiles scanResult = [f] \<and> removedFiles scanResult = [] \<and> modifiedFiles scanResult = [])"

definition definesViewWithoutEdges :: "ChangedFile \<Rightarrow> string \<Rightarrow> ParsedView \<Rightarrow> bool" where
  "definesViewWithoutEdges f name parsed =
     (parseSwiftFile (path f) (content f) = Returns (Some parsed)
      \<and> structName parsed = name \<and> presentsTo parsed = [])"

definition referenced :: "WorkflowDefs \<Rightarrow> string \<Rightarrow> bool" where
  "referenced g name = list_ex (presentsToView name) (journeys g)"

text \<open>
  None of the markers of \<open>inferType\<close> is in the content: no input control, no
  conditional navigation, no button together with a dismiss, a body, and no background
  hook without a button.
\<close>

definition noMarkers :: "string \<Rightarrow> bool" where
  "noMarkers c =
     (\<not> regexTest INPUT_INDICATORS c \<and> \<not> regexTest CONDITIONAL_NAV c
      \<and> \<not> (regexTest BUTTON_INDICATORS c \<and> regexTest DISMISS_INDICATORS c)
      \<and> regexTest HAS_ANY_BODY_CONTENT c
      \<and> \<not> (\<not> regexTest BUTTON_INDICATORS c \<and> regexTest BACKGROUND_ONLY c))"

text \<open>The number of steps of a graph.\<close>

definition stepCount :: "WorkflowDefs \<Rightarrow> nat" where
  "stepCount g = sum_list (map (\<lambda>j. length (steps j)) (journeys g))"

text \<open>Every match of the regular expression consumes at least one character.\<close>

definition consuming :: "regex \<Rightarrow> bool" where
  "consuming re = (\<forall>prev s rest p c. matchHere re prev s = Some (rest, p, c) \<longrightarrow> length rest < length s)"


text \<open>The scan observed no change: the three lists are empty.\<close>

definition zeroChanges :: "ScanResult \<Rightarrow> bool" where
  "zeroChanges r = (newFiles r = [] \<and> removedFiles r = [] \<and> modifiedFiles r = [])"

text \<open>
  The revision that a cycle started in world \<open>w\<close> writes to the cursor file, if it
  writes one, told from outside the code: the scan succeeds; either it observes no
  change, or the candidate graph is valid and written; and no effect up to and
  including the write of the cursor fails.
\<close>

definition cursorWrite :: "CycleEnv \<Rightarrow> World \<Rightarrow> string option" where
  "cursorWrite env w =
     (case scan (cycleRepo env) (lastCommit (daemon w)) of
        Inl cmd \<Rightarrow> None
      | Inr r \<Rightarrow>
          if logFails env PollTick \<or> saveFails env then None
          else if zeroChanges r
          then (if logFails env UpdateSkipped then None else Some (currentSHA r))
          else
            (case (parseFiles (newFiles r @ modifiedFiles r), loadDefs env (workflowsFile w)) of
               (Returns parsedViews, Some currentDefs) \<Rightarrow>
                 if ok (validate currentDefs (json (merge currentDefs r parsedViews)))
                    \<and> \<not> logFails env CommitDetected \<and> \<not> logFails env ScanComplete
                    \<and> \<not> (baselineFails env \<and> logFails env BaselineFailed)
                    \<and> \<not> writeFails env
                    \<and> \<not> (exportFails env \<and> logFails env ExportFailed)
                 then Some (currentSHA r) else None
             | _ \<Rightarrow> None))"

text \<open>
  What the \<^verbatim>\<open>try\<close> block of a cycle throws, and the content of the cursor file after
  the cycle.
\<close>

definition thrownBy :: "CycleEnv \<Rightarrow> World \<Rightarrow> thrown option" where
  "thrownBy env w =
     (case tryBlock env (stampCheck env w) of NeverReturns \<Rightarrow> None | Returns (e, w') \<Rightarrow> e)"

definition cursorFileAfter :: "CycleEnv \<Rightarrow> World \<Rightarrow> string option" where
  "cursorFileAfter env w =
     (case pollCycle env w of
        NeverReturns \<Rightarrow> lastCommitFile w
      | Returns (s, w') \<Rightarrow> lastCommitFile w')"

text \<open>The same for an event of the poll loop, and for the last writing event of a run.\<close>

definition eventWrite :: "event \<Rightarrow> World \<Rightarrow> string option" where
  "eventWrite ev w =
     (case ev of
        Tick env \<Rightarrow> if polling w \<and> daemon_status (daemon w) = ''running''
                    then cursorWrite env w else None
      | CooldownElapsed \<Rightarrow> None)"

fun lastWrite :: "event list \<Rightarrow> World \<Rightarrow> string option" where
  "lastWrite [] w = None"
| "lastWrite (ev # evs) w =
     (case dispatch ev w of
        NeverReturns \<Rightarrow> None
      | Returns w' \<Rightarrow> (case lastWrite evs w' of Some sha \<Rightarrow> Some sha | None \<Rightarrow> eventWrite ev w))"

text \<open>
  The content of the cursor file after a run of the poll loop, and the content of the
  graph file after a cycle.
\<close>

definition cursorAfterRun :: "event list \<Rightarrow> World \<Rightarrow> string option" where
  "cursorAfterRun evs w =
     (case run evs w of NeverReturns \<Rightarrow> lastCommitFile w | Returns w' \<Rightarrow> lastCommitFile w')"

definition graphFileAfter :: "CycleEnv \<Rightarrow> World \<Rightarrow> workflowsFile" where
  "graphFileAfter env w =
     (case pollCycle env w of
        NeverReturns \<Rightarrow> workflowsFile w
      | Returns (s, w') \<Rightarrow> workflowsFile w')"

text \<open>An entry of some step refers to an id that no step of the same journey has.\<close>

definition hasCrossReference :: "WorkflowDefs \<Rightarrow> bool" where
  "hasCrossReference g =
     list_ex (\<lambda>j. list_ex (\<lambda>s. list_ex (\<lambda>n. n \<notin> set (map step_id (steps j))) (step_next s))
                            (steps j))
             (journeys g)"

text \<open>
  The resolution of edge targets as claim C10 words it, first match: for each edge the
  id of the first step, in graph order, whose screen is the destination, once.
\<close>

definition resolveFirstMatch :: "ParsedView \<Rightarrow> WorkflowDefs \<Rightarrow> string list" where
  "resolveFirstMatch parsedView defs =
     foldl (\<lambda>nextIds edge.
              (case find (\<lambda>s. screen s = destination edge) (concat (map steps (journeys defs))) of
                 None \<Rightarrow> nextIds
               | Some s \<Rightarrow> if step_id s \<in> set nextIds then nextIds else nextIds @ [step_id s]))
           [] (presentsTo parsedView)"

text \<open>The errors of the bound on the number of journeys.\<close>

fun isDeltaError :: "verror \<Rightarrow> bool" where
  "isDeltaError (TooManyAdded d) = True"
| "isDeltaError (TooManyRemoved d) = True"
| "isDeltaError e = False"


text \<open>
  The graphs of the validator tests: one journey against five (\<^verbatim>\<open>fails if too many
  journeys added (+4)\<close>), a journey that loses a step (\<^verbatim>\<open>fails if a non-deprecated step is
  removed\<close>), and a graph whose only journey is gone in the incoming graph.
\<close>

definition deltaBase :: WorkflowDefs where
  "deltaBase = makeWorkflow [makeJourney ''j0'' []]"

definition deltaExcess :: WorkflowDefs where
  "deltaExcess = makeWorkflow [makeJourney ''j0'' [], makeJourney ''j1'' [], makeJourney ''j2'' [],
                               makeJourney ''j3'' [], makeJourney ''j4'' []]"

definition removedBase :: WorkflowDefs where
  "removedBase = makeWorkflow [makeJourney ''j1'' [makeStep ''s1'', makeStep ''s2'']]"

definition removedIncoming :: WorkflowDefs where
  "removedIncoming = makeWorkflow [makeJourney ''j1'' [makeStep ''s1'']]"

definition journeyGoneBase :: WorkflowDefs where
  "journeyGoneBase = makeWorkflow [makeJourney ''j1'' [makeStep ''s1'']]"

definition journeyGoneIncoming :: WorkflowDefs where
  "journeyGoneIncoming = makeWorkflow []"


text \<open>The step at a position of the graph: journey \<open>ji\<close>, step \<open>si\<close>.\<close>

definition stepAt :: "WorkflowDefs \<Rightarrow> nat \<Rightarrow> nat \<Rightarrow> Step" where
  "stepAt g ji si = steps (journeys g ! ji) ! si"

text \<open>
  The graph after the additions of a diff: what \<open>merge\<close> returns for the added files
  alone.
\<close>

definition additionsOf :: "ScanResult \<Rightarrow> ScanResult" where
  "additionsOf sc = sc\<lparr> removedFiles := [], modifiedFiles := [] \<rparr>"

definition afterAdditions :: "WorkflowDefs \<Rightarrow> ScanResult \<Rightarrow> ParsedView list \<Rightarrow> WorkflowDefs" where
  "afterAdditions current sc pvs = json (merge current (additionsOf sc) pvs)"

text \<open>The elements of a list in the order of their first occurrences.\<close>

definition firstOccurrences :: "'a list \<Rightarrow> 'a list" where
  "firstOccurrences xs = rev (remdups (rev xs))"

text \<open>
  The record of action \<^verbatim>\<open>update-edges\<close> for a path on a graph, if there is one: the path
  has a descriptor, a step tracks it, and the ids stored on the first such step are not
  the ones that \<open>resolveNext\<close> computes for the descriptor.
\<close>

definition edgeUpdate :: "(string \<Rightarrow> ParsedView option) \<Rightarrow> WorkflowDefs \<Rightarrow> string \<Rightarrow> ChangeRecord option" where
  "edgeUpdate byPath g p =
     (case byPath p of
        None \<Rightarrow> None
      | Some parsed \<Rightarrow>
         (case findStepByFile g p of
            None \<Rightarrow> None
          | Some (ji, si) \<Rightarrow>
             if step_next (stepAt g ji si) = resolveNext parsed g then None
             else Some \<lparr> action = ''update-edges'', journeyId = journey_id (journeys g ! ji),
                         stepId = step_id (stepAt g ji si),
                         detail = ''Updated next[] from '' @ jsonStringArray (step_next (stepAt g ji si))
                                  @ '' to '' @ jsonStringArray (resolveNext parsed g) \<rparr>))"

text \<open>The record of action \<^verbatim>\<open>deprecate\<close> for a path and the step at a position.\<close>

definition removalRecord :: "WorkflowDefs \<Rightarrow> string \<Rightarrow> nat \<Rightarrow> nat \<Rightarrow> ChangeRecord" where
  "removalRecord g p ji si =
     \<lparr> action = ''deprecate'', journeyId = journey_id (journeys g ! ji),
       stepId = step_id (stepAt g ji si),
       detail = ''Marked deprecated (file removed: '' @ p @ '')'' \<rparr>"

text \<open>
  The invariants of the three loops of \<open>merge\<close>. \<open>stepFrame k\<close> is what a graph shows
  through \<open>k\<close>: the layout of its journeys and steps, and \<open>k\<close> of each step. The loop
  over the added files extends the graph: the journeys and steps of the start stay at
  their positions, and a path that a step tracked is tracked by the same step. The loop
  over the removed files changes \<open>deprecated\<close> only, on the first trackers of the paths
  seen so far, and has added one record for each of them that was live. The loop over
  the modified files changes outgoing ids and edge labels only, on the first trackers
  of the paths seen so far that have a descriptor, and has added the records of
  \<open>edgeUpdate\<close>.
\<close>

definition stepFrame :: "(Step \<Rightarrow> 'a) \<Rightarrow> WorkflowDefs \<Rightarrow> 'a list list" where
  "stepFrame k g = map (\<lambda>j. map k (steps j)) (journeys g)"

definition extendsGraph :: "WorkflowDefs \<Rightarrow> WorkflowDefs \<Rightarrow> bool" where
  "extendsGraph g0 g =
     (length (journeys g0) \<le> length (journeys g)
      \<and> (\<forall>ji < length (journeys g0).
            journey_id (journeys g ! ji) = journey_id (journeys g0 ! ji)
            \<and> prefix (steps (journeys g0 ! ji)) (steps (journeys g ! ji)))
      \<and> (\<forall>p. findStepByFile g0 p \<noteq> None \<longrightarrow> findStepByFile g p = findStepByFile g0 p))"

definition removalInv ::
  "WorkflowDefs \<Rightarrow> string list \<Rightarrow> WorkflowDefs \<Rightarrow> ChangeRecord list \<Rightarrow> bool" where
  "removalInv g0 ps g new =
     (stepFrame (\<lambda>s. s\<lparr> deprecated := None \<rparr>) g = stepFrame (\<lambda>s. s\<lparr> deprecated := None \<rparr>) g0
      \<and> map journey_id (journeys g) = map journey_id (journeys g0)
      \<and> (\<forall>ji si. deprecated (stepAt g ji si) =
            (if (\<exists>p \<in> set ps. findStepByFile g0 p = Some (ji, si))
                 \<and> \<not> truthy (deprecated (stepAt g0 ji si))
             then Some True else deprecated (stepAt g0 ji si)))
      \<and> (\<forall>r \<in> set new. action r = ''deprecate'')
      \<and> (\<forall>p ji si. findStepByFile g0 p = Some (ji, si) \<longrightarrow>
            filter (\<lambda>r. detail r = ''Marked deprecated (file removed: '' @ p @ '')'') new =
              (if p \<in> set ps \<and> \<not> truthy (deprecated (stepAt g0 ji si))
               then [removalRecord g0 p ji si] else []))
      \<and> (\<forall>p. findStepByFile g0 p = None \<longrightarrow>
            filter (\<lambda>r. detail r = ''Marked deprecated (file removed: '' @ p @ '')'') new = []))"

definition modifyInv ::
  "(string \<Rightarrow> ParsedView option) \<Rightarrow> WorkflowDefs \<Rightarrow> string list \<Rightarrow> WorkflowDefs
     \<Rightarrow> ChangeRecord list \<Rightarrow> bool" where
  "modifyInv bp g0 ps g new =
     (stepFrame (\<lambda>s. s\<lparr> step_next := [], edgeLabels := None \<rparr>) g
        = stepFrame (\<lambda>s. s\<lparr> step_next := [], edgeLabels := None \<rparr>) g0
      \<and> map journey_id (journeys g) = map journey_id (journeys g0)
      \<and> (\<forall>p parsed ji si.
            p \<in> set ps \<and> bp p = Some parsed \<and> findStepByFile g0 p = Some (ji, si) \<longrightarrow>
            step_next (stepAt g ji si) = resolveNext parsed g0
            \<and> edgeLabels (stepAt g ji si)
                = (if step_next (stepAt g0 ji si) = resolveNext parsed g0
                   then edgeLabels (stepAt g0 ji si)
                   else trimEdgeLabels (length (resolveNext parsed g0)) (edgeLabels (stepAt g0 ji si))))
      \<and> (\<forall>ji si. (\<forall>p \<in> set ps. bp p = None \<or> findStepByFile g0 p \<noteq> Some (ji, si)) \<longrightarrow>
            step_next (stepAt g ji si) = step_next (stepAt g0 ji si)
            \<and> edgeLabels (stepAt g ji si) = edgeLabels (stepAt g0 ji si))
      \<and> new = List.map_filter (edgeUpdate bp g0) (firstOccurrences ps))"

section \<open>Properties of the validator\<close>

lemma setAdd_set: "set (setAdd xs x) = insert x (set xs)"
  by (auto simp: setAdd_def)

lemma collect_inner_set:
  "set (foldl (\<lambda>acc' step. if \<not> truthy (deprecated step)
                       then setAdd acc' (stepKey jid (step_id step)) else acc') acc ss)
   = set acc \<union> {stepKey jid (step_id s) | s. s \<in> set ss \<and> \<not> truthy (deprecated s)}"
  by (induction ss arbitrary: acc) (auto simp: setAdd_set)

lemma collect_outer_set:
  "set (foldl (\<lambda>acc journey.
              foldl (\<lambda>acc' step.
                       if \<not> truthy (deprecated step)
                       then setAdd acc' (stepKey (journey_id journey) (step_id step))
                       else acc')
                    acc (steps journey)) acc js)
   = set acc \<union> {stepKey (journey_id j) (step_id s) | j s. j \<in> set js \<and> s \<in> set (steps j) \<and> \<not> truthy (deprecated s)}"
proof (induction js arbitrary: acc)
  case Nil
  then show ?case by simp
next
  case (Cons j js)
  show ?case
    unfolding foldl_Cons Cons.IH collect_inner_set by auto
qed

lemma set_collectCurrentStepIds:
  "set (collectCurrentStepIds g) =
     {stepKey (journey_id j) (step_id s) | j s.
        j \<in> set (journeys g) \<and> s \<in> set (steps j) \<and> \<not> truthy (deprecated s)}"
  unfolding collectCurrentStepIds_def collect_outer_set by simp

lemma validateStep_grows: "\<exists>ys. fst (validateStep jid ids st step) = fst st @ ys"
  by (simp add: validateStep_def Let_def)

lemma validateStep_delta:
  "filter isDeltaError (fst (validateStep jid ids st step)) = filter isDeltaError (fst st)"
  by (simp add: validateStep_def Let_def checkNextRefs_def filter_map o_def)

lemma foldl_validateStep_grows:
  "\<exists>ys. fst (foldl (validateStep jid ids) st ss) = fst st @ ys"
proof (induction ss arbitrary: st)
  case Nil
  then show ?case by simp
next
  case (Cons s ss)
  obtain ys where a: "fst (validateStep jid ids st s) = fst st @ ys"
    using validateStep_grows by blast
  obtain zs where b: "fst (foldl (validateStep jid ids) (validateStep jid ids st s) ss)
       = fst (validateStep jid ids st s) @ zs"
    using Cons.IH by blast
  show ?case using a b by simp
qed

lemma foldl_validateStep_delta:
  "filter isDeltaError (fst (foldl (validateStep jid ids) st ss)) = filter isDeltaError (fst st)"
  by (induction ss arbitrary: st) (simp_all add: validateStep_delta)

lemma checkRemoved_delta: "filter isDeltaError (checkRemoved cur jid ids) = []"
  by (induction cur) (simp_all add: checkRemoved_def Let_def)

lemma validateJourney_delta:
  "filter isDeltaError (fst (validateJourney cur st j)) = filter isDeltaError (fst st)"
  by (simp add: validateJourney_def Let_def foldl_validateStep_delta checkRemoved_delta)

lemma validateJourney_grows:
  "\<exists>ys. fst (validateJourney cur st j) = fst st @ ys"
proof -
  obtain ys where "fst (foldl (validateStep (journey_id j) (map step_id (steps j)))
      (fst st @ (if journey_id j = [] then [JourneyMissingId] else [])
             @ (if journey_name j = [] then [JourneyMissingName (journey_id j)] else []), snd st) (steps j))
     = fst (fst st @ (if journey_id j = [] then [JourneyMissingId] else [])
             @ (if journey_name j = [] then [JourneyMissingName (journey_id j)] else []), snd st) @ ys"
    using foldl_validateStep_grows by blast
  then show ?thesis by (simp add: validateJourney_def Let_def)
qed

lemma validateJourney_removed:
  "set (checkRemoved cur (journey_id j) (map step_id (steps j))) \<subseteq> set (fst (validateJourney cur st j))"
  by (simp add: validateJourney_def Let_def)

lemma foldl_validateJourney_grows:
  "\<exists>ys. fst (foldl (validateJourney cur) st js) = fst st @ ys"
proof (induction js arbitrary: st)
  case Nil
  then show ?case by simp
next
  case (Cons j js)
  obtain ys where a: "fst (validateJourney cur st j) = fst st @ ys"
    using validateJourney_grows by blast
  obtain zs where b: "fst (foldl (validateJourney cur) (validateJourney cur st j) js)
       = fst (validateJourney cur st j) @ zs"
    using Cons.IH by blast
  show ?case using a b by simp
qed

lemma foldl_validateJourney_delta:
  "filter isDeltaError (fst (foldl (validateJourney cur) st js)) = filter isDeltaError (fst st)"
  by (induction js arbitrary: st) (simp_all add: validateJourney_delta)

lemma foldl_validateJourney_removed:
  "j \<in> set js \<Longrightarrow>
   set (checkRemoved cur (journey_id j) (map step_id (steps j)))
     \<subseteq> set (fst (foldl (validateJourney cur) st js))"
proof (induction js arbitrary: st)
  case Nil
  then show ?case by simp
next
  case (Cons a js)
  show ?case
  proof (cases "j = a")
    case True
    obtain zs where "fst (foldl (validateJourney cur) (validateJourney cur st a) js)
       = fst (validateJourney cur st a) @ zs"
      using foldl_validateJourney_grows by blast
    then show ?thesis using validateJourney_removed[of cur a st] True by auto
  next
    case False
    then show ?thesis using Cons by auto
  qed
qed

lemma deltaErrors_all: "filter isDeltaError (deltaErrors p c) = deltaErrors p c"
  by (simp add: deltaErrors_def Let_def)

lemma validate_delta: "filter isDeltaError (errors (validate p c)) = deltaErrors p c"
  by (simp add: validate_def Let_def foldl_validateJourney_delta deltaErrors_all)

lemma checkRemoved_mem:
  "key \<in> set cur \<Longrightarrow> prefix (jid @ ''::'') key \<Longrightarrow> drop (length jid + 2) key \<notin> set ids
   \<Longrightarrow> StepRemoved jid (drop (length jid + 2) key) \<in> set (checkRemoved cur jid ids)"
  by (auto simp: checkRemoved_def Let_def)

text \<open>
  Claim C7. The validator reports an error of the bound on the number of journeys exactly
  when the incoming graph has more than three journeys more, or more than one journey
  less, than the current graph; the error carries the difference. In particular five
  journeys against one (a difference of +4) give \<open>ok = False\<close>.
\<close>

theorem validate_delta_error_iff:
  "((\<exists>e \<in> set (errors (validate previous candidate)). isDeltaError e) \<longleftrightarrow>
      (int (length (journeys candidate)) - int (length (journeys previous)) > 3 \<or>
       int (length (journeys candidate)) - int (length (journeys previous)) < - 1))
   \<and> (TooManyAdded d \<in> set (errors (validate previous candidate)) \<longleftrightarrow>
        d = int (length (journeys candidate)) - int (length (journeys previous)) \<and> d > 3)
   \<and> (TooManyRemoved d \<in> set (errors (validate previous candidate)) \<longleftrightarrow>
        d = int (length (journeys candidate)) - int (length (journeys previous)) \<and> d < - 1)
   \<and> (length (journeys previous) = 1 \<and> length (journeys candidate) = 5 \<longrightarrow>
        \<not> ok (validate previous candidate))"
proof -
  let ?E = "errors (validate previous candidate)"
  have mem: "\<And>e. isDeltaError e \<Longrightarrow> e \<in> set ?E \<longleftrightarrow> e \<in> set (deltaErrors previous candidate)"
  proof -
    fix e assume d: "isDeltaError e"
    have "e \<in> set ?E \<longleftrightarrow> e \<in> set (filter isDeltaError ?E)" using d by simp
    then show "e \<in> set ?E \<longleftrightarrow> e \<in> set (deltaErrors previous candidate)"
      by (simp only: validate_delta)
  qed
  have ex: "(\<exists>e \<in> set ?E. isDeltaError e) \<longleftrightarrow> deltaErrors previous candidate \<noteq> []"
  proof
    assume "\<exists>e \<in> set ?E. isDeltaError e"
    then obtain e where "e \<in> set ?E" "isDeltaError e" by blast
    then have "e \<in> set (deltaErrors previous candidate)" using mem by blast
    then show "deltaErrors previous candidate \<noteq> []" by auto
  next
    assume "deltaErrors previous candidate \<noteq> []"
    then obtain e where e: "e \<in> set (deltaErrors previous candidate)"
      by (cases "deltaErrors previous candidate") auto
    then have "e \<in> set (filter isDeltaError (deltaErrors previous candidate))"
      by (simp only: deltaErrors_all)
    then have "isDeltaError e" by simp
    then show "\<exists>e \<in> set ?E. isDeltaError e" using e mem by blast
  qed
  have c1: "(\<exists>e \<in> set ?E. isDeltaError e) \<longleftrightarrow>
      (int (length (journeys candidate)) - int (length (journeys previous)) > 3 \<or>
       int (length (journeys candidate)) - int (length (journeys previous)) < - 1)"
    unfolding ex by (simp add: deltaErrors_def Let_def)
  have c2: "TooManyAdded d \<in> set ?E \<longleftrightarrow>
        d = int (length (journeys candidate)) - int (length (journeys previous)) \<and> d > 3"
    using mem[of "TooManyAdded d"] by (auto simp: deltaErrors_def Let_def)
  have c3: "TooManyRemoved d \<in> set ?E \<longleftrightarrow>
        d = int (length (journeys candidate)) - int (length (journeys previous)) \<and> d < - 1"
    using mem[of "TooManyRemoved d"] by (auto simp: deltaErrors_def Let_def)
  have c4: "length (journeys previous) = 1 \<and> length (journeys candidate) = 5 \<longrightarrow>
        \<not> ok (validate previous candidate)"
  proof
    assume h: "length (journeys previous) = 1 \<and> length (journeys candidate) = 5"
    then have "TooManyAdded 4 \<in> set ?E" using mem[of "TooManyAdded 4"]
      by (simp add: deltaErrors_def Let_def)
    then have "?E \<noteq> []" by auto
    then show "\<not> ok (validate previous candidate)" by (simp add: validate_def Let_def)
  qed
  show ?thesis using c1 c2 c3 c4 by blast
qed

text \<open>The test \<^verbatim>\<open>fails if too many journeys added (+4)\<close>.\<close>

theorem validate_delta_error_iff_witness:
  "length (journeys deltaBase) = 1 \<and> length (journeys deltaExcess) = 5
   \<and> (\<exists>e \<in> set (errors (validate deltaBase deltaExcess)). isDeltaError e)
   \<and> TooManyAdded 4 \<in> set (errors (validate deltaBase deltaExcess))
   \<and> \<not> ok (validate deltaBase deltaExcess)"
  using validate_delta_error_iff [of deltaBase deltaExcess 4]
  by (simp add: deltaBase_def deltaExcess_def makeWorkflow_def)

lemma stepKey_prefix: "prefix (jid @ ''::'') (stepKey jid sid)"
  by (simp add: stepKey_def)

lemma stepKey_drop: "drop (length jid + 2) (stepKey jid sid) = sid"
  by (simp add: stepKey_def)

lemma stepKey_drop': "drop (Suc (Suc (length jid))) (stepKey jid sid) = sid"
  by (simp add: stepKey_def)

text \<open>
  Claim C1, amended. If a step id is in a journey of the previous graph on a step that is
  not deprecated, the candidate graph has a journey with that journey id, and no journey
  of the candidate with that id has a step with that step id, then the validator returns
  \<open>ok = False\<close>. The check runs inside the loop over the journeys of the candidate, so
  it says nothing when the candidate has no journey with that id.
\<close>

theorem validate_rejects_vanished_step:
  assumes live: "hasLiveStep previous jid sid"
    and present: "hasJourney candidate jid"
    and gone: "\<not> hasStep candidate jid sid"
  shows "\<not> ok (validate previous candidate)"
proof -
  from live obtain j s where js: "j \<in> set (journeys previous)" "journey_id j = jid"
      "s \<in> set (steps j)" "step_id s = sid" "\<not> truthy (deprecated s)"
    by (auto simp: hasLiveStep_def list_ex_iff)
  then have key: "stepKey jid sid \<in> set (collectCurrentStepIds previous)"
    unfolding set_collectCurrentStepIds by blast
  from present obtain j' where j': "j' \<in> set (journeys candidate)" "journey_id j' = jid"
    by (auto simp: hasJourney_def list_ex_iff)
  with gone have nin: "sid \<notin> set (map step_id (steps j'))"
    by (auto simp: hasStep_def list_ex_iff)
  have "StepRemoved jid (drop (length jid + 2) (stepKey jid sid))
          \<in> set (checkRemoved (collectCurrentStepIds previous) jid (map step_id (steps j')))"
    using key nin by (intro checkRemoved_mem) (simp_all add: stepKey_prefix stepKey_drop')
  then have "StepRemoved jid sid
          \<in> set (checkRemoved (collectCurrentStepIds previous) (journey_id j') (map step_id (steps j')))"
    by (simp add: stepKey_drop' j')
  then have "StepRemoved jid sid \<in> set (errors (validate previous candidate))"
    using foldl_validateJourney_removed[OF j'(1)] by (auto simp: validate_def Let_def)
  then have "errors (validate previous candidate) \<noteq> []" by auto
  then show ?thesis by (simp add: validate_def Let_def)
qed

lemmas fixture_defs = makeWorkflow_def makeJourney_def makeStep_def

text \<open>The test \<^verbatim>\<open>fails if a non-deprecated step is removed\<close>.\<close>

theorem validate_rejects_vanished_step_witness:
  "hasLiveStep removedBase ''j1'' ''s2'' \<and> hasJourney removedIncoming ''j1''
   \<and> \<not> hasStep removedIncoming ''j1'' ''s2'' \<and> \<not> ok (validate removedBase removedIncoming)"
  using validate_rejects_vanished_step [of removedBase "''j1''" "''s2''" removedIncoming]
  by (simp add: removedBase_def removedIncoming_def fixture_defs hasLiveStep_def hasJourney_def
        hasStep_def truthy_def)

text \<open>
  Claim C1 as stated fails when the whole journey is absent from the candidate: the
  step \<open>s1\<close> of journey \<open>j1\<close> is live in the previous graph and nowhere in the
  candidate, the number of journeys drops by one, which the bound allows, and the
  validator accepts.
\<close>

theorem validate_accepts_vanished_journey:
  "hasLiveStep journeyGoneBase ''j1'' ''s1''
   \<and> \<not> hasStep journeyGoneIncoming ''j1'' ''s1''
   \<and> ok (validate journeyGoneBase journeyGoneIncoming)"
  by (simp add: journeyGoneBase_def journeyGoneIncoming_def fixture_defs hasLiveStep_def
        hasStep_def truthy_def validate_def deltaErrors_def)

section \<open>Properties of the merger\<close>

lemma findIndex_Some:
  "findIndex P xs = Some i \<Longrightarrow> i < length xs \<and> P (xs ! i) \<and> (\<forall>k<i. \<not> P (xs ! k))"
proof (induction xs arbitrary: i)
  case Nil
  then show ?case by simp
next
  case (Cons x xs)
  show ?case
  proof (cases "P x")
    case True
    with Cons.prems show ?thesis by simp
  next
    case False
    with Cons.prems obtain i' where i': "findIndex P xs = Some i'" "i = Suc i'"
      by (auto split: option.splits)
    from Cons.IH[OF i'(1)] False i'(2) show ?thesis
      by (auto simp: nth_Cons split: nat.splits)
  qed
qed

lemma findIndex_None: "findIndex P xs = None \<longleftrightarrow> (\<forall>x \<in> set xs. \<not> P x)"
  by (induction xs) (auto split: option.splits)

lemma findStepIn_Some:
  "findStepIn js p = Some (ji, si) \<Longrightarrow>
     ji < length js \<and> si < length (steps (js ! ji))
     \<and> swiftFile (steps (js ! ji) ! si) = Some p"
proof (induction js arbitrary: ji)
  case Nil
  then show ?case by simp
next
  case (Cons j js)
  show ?case
  proof (cases "findIndex (\<lambda>step. swiftFile step = Some p) (steps j)")
    case None
    with Cons.prems obtain i' where i': "findStepIn js p = Some (i', si)" "ji = Suc i'"
      by (auto split: option.splits)
    from Cons.IH[OF i'(1)] i'(2) show ?thesis by simp
  next
    case (Some k)
    with Cons.prems have "ji = 0" "si = k" by simp_all
    with findIndex_Some[OF Some] show ?thesis by simp
  qed
qed

lemma findStepIn_None:
  "findStepIn js p = None \<longleftrightarrow> (\<forall>j \<in> set js. \<forall>s \<in> set (steps j). swiftFile s \<noteq> Some p)"
proof (induction js)
  case Nil
  then show ?case by simp
next
  case (Cons j js)
  show ?case
  proof (cases "findIndex (\<lambda>step. swiftFile step = Some p) (steps j)")
    case None
    then have "\<forall>s \<in> set (steps j). swiftFile s \<noteq> Some p" by (simp add: findIndex_None)
    with None Cons.IH show ?thesis by (auto split: option.splits)
  next
    case (Some k)
    from findIndex_Some[OF Some] have "\<exists>s \<in> set (steps j). swiftFile s = Some p"
      using nth_mem by blast
    with Some show ?thesis by auto
  qed
qed

lemma findStepByFile_Some:
  "findStepByFile defs p = Some (ji, si) \<Longrightarrow>
     ji < length (journeys defs) \<and> si < length (steps (journeys defs ! ji))
     \<and> swiftFile (steps (journeys defs ! ji) ! si) = Some p"
  using findStepIn_Some[of "journeys defs" p ji si] by (simp add: findStepByFile_def)

lemma findStepByFile_None:
  "findStepByFile defs p = None \<longleftrightarrow>
     (\<forall>j \<in> set (journeys defs). \<forall>s \<in> set (steps j). swiftFile s \<noteq> Some p)"
  by (simp add: findStepByFile_def findStepIn_None)

lemma hexDigit_inj: "a < 16 \<Longrightarrow> b < 16 \<Longrightarrow> hexDigit a = hexDigit b \<Longrightarrow> a = b"
  by (auto simp: hexDigit_def split: if_splits)

lemma div_mod_16_eq:
  fixes a b :: nat
  assumes "a div 16 = b div 16" "a mod 16 = b mod 16"
  shows "a = b"
  using assms by (metis div_mult_mod_eq)

lemma same_code: "(of_char c :: nat) = k \<Longrightarrow> (of_char d :: nat) = k \<Longrightarrow> c = d"
  by (metis of_char_eq_iff)

lemma hex_pair_inj:
  assumes "(of_char c :: nat) < 32" "(of_char d :: nat) < 32"
    and "hexDigit (of_char c div 16) = hexDigit (of_char d div 16)"
    and "hexDigit (of_char c mod 16) = hexDigit (of_char d mod 16)"
  shows "c = d"
proof -
  have "(of_char c :: nat) div 16 = of_char d div 16"
    using assms(1,2,3) by (intro hexDigit_inj) auto
  moreover have "(of_char c :: nat) mod 16 = of_char d mod 16"
    using assms(4) by (intro hexDigit_inj) auto
  ultimately have "(of_char c :: nat) = of_char d" by (rule div_mod_16_eq)
  then show ?thesis by simp
qed

lemma jsonEscape_prefix_code:
  assumes "jsonEscape c @ x = jsonEscape d @ y"
  shows "c = d \<and> x = y"
  using assms
  apply (simp add: jsonEscape_def Let_def split: if_splits)
                 apply (auto intro: same_code hex_pair_inj)
  done

lemma jsonEscape_head: "\<exists>h t. jsonEscape c = h # t \<and> h \<noteq> CHR 0x22"
  by (auto simp: jsonEscape_def Let_def)

lemma jsonBody_inj:
  "concat (map jsonEscape s) @ CHR 0x22 # r = concat (map jsonEscape t) @ CHR 0x22 # r'
   \<Longrightarrow> s = t \<and> r = r'"
proof (induction s arbitrary: t)
  case Nil
  show ?case
  proof (cases t)
    case Nil
    with Nil.prems show ?thesis by simp
  next
    case (Cons d t')
    obtain h tl where "jsonEscape d = h # tl" "h \<noteq> CHR 0x22" using jsonEscape_head by blast
    with Nil.prems Cons show ?thesis by simp
  qed
next
  case (Cons c s)
  show ?case
  proof (cases t)
    case Nil
    obtain h tl where "jsonEscape c = h # tl" "h \<noteq> CHR 0x22" using jsonEscape_head by blast
    with Cons.prems Nil show ?thesis by simp
  next
    case (Cons d t')
    with Cons.prems have
      "jsonEscape c @ (concat (map jsonEscape s) @ CHR 0x22 # r)
         = jsonEscape d @ (concat (map jsonEscape t') @ CHR 0x22 # r')" by simp
    from jsonEscape_prefix_code[OF this] Cons.IH[of t'] Cons show ?thesis by simp
  qed
qed

lemma jsonString_prefix_code: "jsonString s @ r = jsonString t @ r' \<Longrightarrow> s = t \<and> r = r'"
  using jsonBody_inj[of s r t r'] by (simp add: jsonString_def)

lemma joinWith_Cons: "joinWith sep (w # ws) = w @ (if ws = [] then [] else sep @ joinWith sep ws)"
  by (cases ws) simp_all

lemma jsonString_nonempty: "jsonString s \<noteq> []"
  by (simp add: jsonString_def)

lemma joinWith_json_inj:
  "joinWith '','' (map jsonString xs) = joinWith '','' (map jsonString ys) \<Longrightarrow> xs = ys"
proof (induction xs arbitrary: ys)
  case Nil
  then show ?case by (cases ys) (simp_all add: joinWith_Cons jsonString_nonempty)
next
  case (Cons x xs)
  show ?case
  proof (cases ys)
    case Nil
    with Cons.prems show ?thesis by (simp add: joinWith_Cons jsonString_nonempty)
  next
    case (Cons y ys')
    let ?R = "\<lambda>zs. if map jsonString zs = [] then [] else '','' @ joinWith '','' (map jsonString zs)"
    from Cons.prems Cons have "jsonString x @ ?R xs = jsonString y @ ?R ys'"
      by (simp add: joinWith_Cons)
    from jsonString_prefix_code[OF this] have xy: "x = y" and R: "?R xs = ?R ys'" by simp_all
    have "xs = ys'"
    proof (cases "xs = []")
      case True
      with R show ?thesis by (cases ys') (simp_all split: if_splits)
    next
      case False
      with R have "ys' \<noteq> []" by (auto split: if_splits)
      with R False have "joinWith '','' (map jsonString xs) = joinWith '','' (map jsonString ys')"
        by simp
      then show ?thesis by (rule Cons.IH)
    qed
    with xy Cons show ?thesis by simp
  qed
qed

lemma jsonStringArray_inj: "jsonStringArray xs = jsonStringArray ys \<longleftrightarrow> xs = ys"
  using joinWith_json_inj by (auto simp: jsonStringArray_def)

lemma keepsNodes_iff:
  "keepsNodes g g' \<longleftrightarrow>
     length (journeys g) \<le> length (journeys g') \<and>
     (\<forall>i < length (journeys g).
        journey_id (journeys g' ! i) = journey_id (journeys g ! i) \<and>
        prefix (map step_id (steps (journeys g ! i))) (map step_id (steps (journeys g' ! i))))"
  by (auto simp: keepsNodes_def list_all2_conv_all_nth)

lemma keepsNodes_refl: "keepsNodes g g"
  by (simp add: keepsNodes_iff)

lemma keepsNodes_trans: "keepsNodes g g' \<Longrightarrow> keepsNodes g' g'' \<Longrightarrow> keepsNodes g g''"
  unfolding keepsNodes_iff
  by (metis (no_types, lifting) order_trans less_le_trans prefix_order.order_trans)

lemma nth_list_update_if:
  "i < length xs \<Longrightarrow> xs[k := v] ! i = (if i = k then v else xs ! i)"
  by (cases "i = k") simp_all

lemma map_update_same: "(map f xs)[i := f (xs ! i)] = map f xs"
proof (cases "i < length xs")
  case True
  then have "f (xs ! i) = map f xs ! i" by simp
  then show ?thesis by (simp only: list_update_id)
next
  case False
  then have "length (map f xs) \<le> i" by simp
  then show ?thesis by (rule list_update_beyond)
qed




lemma keepsNodes_pushStep: "keepsNodes defs (pushStep defs ji step)"
  by (auto simp: keepsNodes_iff pushStep_def nth_list_update_if)

lemma keepsNodes_ensureJourney: "keepsNodes defs (fst (ensureJourney defs jid))"
  by (auto simp: keepsNodes_iff ensureJourney_def nth_append split: option.splits)

lemma keepsNodes_addNewFile: "keepsNodes defs (fst (addNewFile byPath (defs, chs, rc) file))"
proof -
  have "keepsNodes defs (pushStep d1 ji step)" if "ensureJourney defs jid = (d1, k)"
    for jid ji step d1 k
    using keepsNodes_ensureJourney[of defs jid] keepsNodes_pushStep[of d1 ji step] keepsNodes_trans that
    by fastforce
  then show ?thesis
    by (auto simp: addNewFile_def Let_def keepsNodes_refl split: option.splits prod.splits)
qed






lemma keepsNodes_hasStep: "keepsNodes g g' \<Longrightarrow> hasStep g jid sid \<Longrightarrow> hasStep g' jid sid"
proof -
  assume k: "keepsNodes g g'" and h: "hasStep g jid sid"
  from h obtain j s where js: "j \<in> set (journeys g)" "journey_id j = jid" "s \<in> set (steps j)" "step_id s = sid"
    by (auto simp: hasStep_def list_ex_iff)
  then obtain i where i: "i < length (journeys g)" "journeys g ! i = j" by (auto simp: in_set_conv_nth)
  with k have len: "i < length (journeys g')" and jid: "journey_id (journeys g' ! i) = jid"
    and pre: "prefix (map step_id (steps j)) (map step_id (steps (journeys g' ! i)))"
    using js by (auto simp: keepsNodes_iff)
  from js have "sid \<in> set (map step_id (steps j))" by auto
  with pre have "sid \<in> set (map step_id (steps (journeys g' ! i)))"
    using set_mono_prefix by blast
  then show "hasStep g' jid sid" using jid
    using nth_mem[OF len] by (auto simp: hasStep_def list_ex_iff)
qed

lemma trimEdgeLabels_take: "trimEdgeLabels n labels = map_option (take n) labels"
  by (cases labels) (simp_all add: trimEdgeLabels_def)

lemma updateStep_nth:
  assumes "ji < length (journeys defs)" "si < length (steps (journeys defs ! ji))"
  shows "steps (journeys (updateStep defs ji si f) ! ji) ! si = f (steps (journeys defs ! ji) ! si)"
  using assms by (simp add: updateStep_def)

lemma updateStep_other:
  assumes "(i, k) \<noteq> (ji, si)"
  shows "steps (journeys (updateStep defs ji si f) ! i) ! k = steps (journeys defs ! i) ! k"
proof (cases "i = ji")
  case True
  with assms have k: "k \<noteq> si" by simp
  show ?thesis
  proof (cases "ji < length (journeys defs)")
    case True
    with \<open>i = ji\<close> k show ?thesis by (simp add: updateStep_def)
  next
    case False
    then have "length (journeys defs) \<le> ji" by simp
    then show ?thesis by (simp add: updateStep_def list_update_beyond)
  qed
next
  case False
  then show ?thesis by (simp add: updateStep_def)
qed



lemma edgeDefs_found: "findStepByFile edgeDefs (path edgeFile) = Some (0, 0)"
  by (simp add: findStepByFile_def edgeDefs_def edgeFile_def fixture_defs edgeStepA_def)

lemma edge_resolve_shrunk: "resolveNext edgeParsedShrunk edgeDefs = [''b'']"
  by (simp add: resolveNext_def edgeParsedShrunk_def edgeDefs_def fixture_defs edgeStepA_def
      edgeStepB_def edgeStepC_def)

lemma edge_resolve_same: "resolveNext edgeParsedSame edgeDefs = [''b'', ''c'']"
  by (simp add: resolveNext_def edgeParsedSame_def edgeDefs_def fixture_defs edgeStepA_def
      edgeStepB_def edgeStepC_def)

lemma edge_stored: "steps (journeys edgeDefs ! 0) ! 0 = edgeStepA"
  by (simp add: edgeDefs_def fixture_defs)

section \<open>Properties of the extractor\<close>

lemma matchSeq_shorter:
  "matchSeq rs prev s opened cap = Some (rest, p, c) \<Longrightarrow> length rest \<le> length s"
proof (induction rs prev s opened cap arbitrary: rest p c rule: matchSeq.induct)
  case (1 prev s opened cap)
  then show ?case by (simp add: matchSeq.simps(1))
next
  case (2 l rs prev s opened cap)
  from "2.prems" have pre: "prefix l s"
    by (simp only: matchSeq.simps(2) option.simps split: if_splits)
  with "2.prems" have "matchSeq rs (if l = [] then prev else Some (last l)) (drop (length l) s) opened cap
      = Some (rest, p, c)"
    by (simp only: matchSeq.simps(2) if_True)
  from "2.IH"[OF pre this] show ?case by simp
next
  case (3 rs prev s opened cap)
  from "3.prems" have b: "atBoundary prev s"
    by (simp only: matchSeq.simps(3) option.simps split: if_splits)
  with "3.prems" have "matchSeq rs prev s opened cap = Some (rest, p, c)"
    by (simp only: matchSeq.simps(3) if_True)
  from "3.IH"[OF b this] show ?case .
next
  case (4 greedy n cls rs prev s opened cap)
  define more where "more = (case s of [] \<Rightarrow> None
                  | c # cs \<Rightarrow> if cls c then matchSeq (Rep greedy (n - 1) cls # rs) (Some c) cs opened cap
                            else None)"
  define stop where "stop = (if n = 0 then matchSeq rs prev s opened cap else None)"
  have eq: "matchSeq (Rep greedy n cls # rs) prev s opened cap
      = (if greedy then (case more of Some r \<Rightarrow> Some r | None \<Rightarrow> stop)
         else (case stop of Some r \<Rightarrow> Some r | None \<Rightarrow> more))"
    by (subst matchSeq.simps(4)) (simp only: Let_def more_def stop_def)
  have m: "more = Some (rest, p, c) \<Longrightarrow> length rest \<le> length s"
  proof -
    assume a: "more = Some (rest, p, c)"
    then obtain x xs where s: "s = x # xs" by (cases s) (simp_all add: more_def)
    with a have cx: "cls x" by (simp add: more_def split: if_splits)
    with a s have "matchSeq (Rep greedy (n - 1) cls # rs) (Some x) xs opened cap = Some (rest, p, c)"
      by (simp add: more_def)
    from "4.IH"(1)[OF s cx this] s show ?thesis by simp
  qed
  have st: "stop = Some (rest, p, c) \<Longrightarrow> length rest \<le> length s"
  proof -
    assume a: "stop = Some (rest, p, c)"
    then have n: "n = 0" by (simp add: stop_def split: if_splits)
    with a have "matchSeq rs prev s opened cap = Some (rest, p, c)"
      by (simp add: stop_def)
    from "4.IH"(2)[OF refl n this] show ?thesis .
  qed
  from "4.prems" have "more = Some (rest, p, c) \<or> stop = Some (rest, p, c)"
    unfolding eq by (cases greedy; cases more; cases stop) simp_all
  with m st show ?case by blast
next
  case (5 rs prev s opened cap)
  then show ?case by (simp add: matchSeq.simps(5))
next
  case (6 l ls rs prev s opened cap)
  have eq: "matchSeq (OneOf (l # ls) # rs) prev s opened cap
     = (case matchSeq (Lit l # rs) prev s opened cap of
          Some r \<Rightarrow> Some r
        | None \<Rightarrow> matchSeq (OneOf ls # rs) prev s opened cap)"
    by (simp only: matchSeq.simps(6))
  show ?case
  proof (cases "matchSeq (Lit l # rs) prev s opened cap")
    case None
    with "6.prems" have "matchSeq (OneOf ls # rs) prev s opened cap = Some (rest, p, c)"
      unfolding eq by simp
    from "6.IH"(2)[OF None this] show ?thesis .
  next
    case (Some r)
    with "6.prems" have "matchSeq (Lit l # rs) prev s opened cap = Some (rest, p, c)"
      unfolding eq by simp
    from "6.IH"(1)[OF this] show ?thesis .
  qed
next
  case (7 rs prev s opened cap)
  from "7.prems" have "matchSeq rs prev s s cap = Some (rest, p, c)"
    by (simp only: matchSeq.simps(7))
  from "7.IH"[OF this] show ?case .
next
  case (8 rs prev s opened cap)
  from "8.prems" have "matchSeq rs prev s opened (take (length opened - length s) opened) = Some (rest, p, c)"
    by (simp only: matchSeq.simps(8))
  from "8.IH"[OF this] show ?case .
next
  case (9 rs prev s opened cap)
  from "9.prems" have e: "s = []"
    by (simp only: matchSeq.simps(9) option.simps split: if_splits)
  with "9.prems" have "matchSeq rs prev s opened cap = Some (rest, p, c)"
    by (simp add: matchSeq.simps(9))
  from "9.IH"[OF e this] show ?case .
qed

text \<open>A sequence that starts with literal text, after boundaries at most, consumes input.\<close>

lemma matchSeq_Lit_consumes:
  assumes "l \<noteq> []" "matchSeq (Lit l # rs) prev s opened cap = Some (rest, p, c)"
  shows "length rest < length s"
proof -
  from assms(2) have pre: "prefix l s"
    by (simp only: matchSeq.simps(2) option.simps split: if_splits)
  with assms have m: "matchSeq rs (Some (last l)) (drop (length l) s) opened cap = Some (rest, p, c)"
    by (simp only: matchSeq.simps(2) if_True if_False)
  from matchSeq_shorter[OF m] have "length rest \<le> length s - length l" by simp
  moreover from pre assms(1) have "0 < length l" "length l \<le> length s"
    by (simp_all add: prefix_length_le)
  ultimately show ?thesis by linarith
qed

lemma matchSeq_Boundary_Lit_consumes:
  assumes "l \<noteq> []" "matchSeq (Boundary # Lit l # rs) prev s opened cap = Some (rest, p, c)"
  shows "length rest < length s"
proof -
  from assms(2) have "matchSeq (Lit l # rs) prev s opened cap = Some (rest, p, c)"
    by (simp only: matchSeq.simps(3) option.simps split: if_splits)
  with assms(1) show ?thesis by (rule matchSeq_Lit_consumes)
qed

lemma consuming_single_Lit: "l \<noteq> [] \<Longrightarrow> consuming [Lit l # rs]"
  unfolding consuming_def
  by (auto split: option.splits dest: matchSeq_Lit_consumes)

lemma consuming_single_Boundary_Lit: "l \<noteq> [] \<Longrightarrow> consuming [Boundary # Lit l # rs]"
  unfolding consuming_def
  by (auto split: option.splits dest: matchSeq_Boundary_Lit_consumes)

lemma searchFrom_consuming:
  "consuming re \<Longrightarrow> searchFrom re prev s = Some (rest, p, c) \<Longrightarrow> length rest < length s"
proof (induction s arbitrary: prev)
  case Nil
  then have "matchHere re prev [] = Some (rest, p, c)" by simp
  with Nil.prems(1) have "length rest < length ([] :: string)" unfolding consuming_def by blast
  then show ?case by simp
next
  case (Cons a s)
  show ?case
  proof (cases "matchHere re prev (a # s)")
    case None
    with Cons.prems have "searchFrom re (Some a) s = Some (rest, p, c)" by simp
    from Cons.IH[OF Cons.prems(1) this] show ?thesis by simp
  next
    case (Some r)
    with Cons.prems have "matchHere re prev (a # s) = Some (rest, p, c)" by simp
    with Cons.prems(1) show ?thesis unfolding consuming_def by blast
  qed
qed

lemma execAll_returns: "consuming re \<Longrightarrow> \<exists>caps. execAll re prev s = Some caps"
proof (induction re prev s rule: execAll.induct)
  case (1 re prev s)
  show ?case
  proof (cases "searchFrom re prev s")
    case None
    then show ?thesis by (subst execAll.simps) simp
  next
    case (Some r)
    obtain rest p c where r: "r = (rest, p, c)" by (cases r) auto
    from searchFrom_consuming[OF "1.prems"] Some r have lt: "length rest < length s" by blast
    from "1.IH"[OF Some[unfolded r] refl refl lt "1.prems"]
    obtain caps where "execAll re p rest = Some caps" by blast
    with Some r lt show ?thesis by (subst execAll.simps) simp
  qed
qed

lemma NAV_PATTERNS_consuming: "\<forall>(re, m) \<in> set NAV_PATTERNS. consuming re"
  by (simp add: NAV_PATTERNS_def withArguments_def consuming_single_Lit consuming_single_Boundary_Lit)

lemma extractEdgesFrom_returns:
  "\<forall>(re, m) \<in> set patterns. consuming re \<Longrightarrow> \<exists>es. extractEdgesFrom patterns content' st = Some es"
proof (induction patterns arbitrary: st)
  case Nil
  then show ?case by simp
next
  case (Cons pm patterns)
  obtain re m where pm: "pm = (re, m)" by (cases pm) auto
  with Cons.prems have "consuming re" by simp
  then obtain caps where "execAll re None content' = Some caps"
    using execAll_returns by blast
  moreover from Cons.prems have "\<forall>(re, m) \<in> set patterns. consuming re" by simp
  ultimately show ?case using Cons.IH pm by simp
qed

lemma extractEdges_returns: "\<exists>es. extractEdges content' = Some es"
  unfolding extractEdges_def using extractEdgesFrom_returns[OF NAV_PATTERNS_consuming] by blast

lemma parseSwiftFile_returns: "\<exists>r. parseSwiftFile p content' = Returns r"
proof -
  obtain es where "extractEdges content' = Some es" using extractEdges_returns by blast
  then show ?thesis by (simp add: parseSwiftFile_def split: option.splits)
qed

section \<open>Properties of the placement of new nodes\<close>

lemma findIndex_append_last:
  "(\<forall>x \<in> set xs. \<not> P x) \<Longrightarrow> P y \<Longrightarrow> findIndex P (xs @ [y]) = Some (length xs)"
  by (induction xs) simp_all

lemma findIndex_cong_map:
  "map f xs = map f ys \<Longrightarrow> findIndex (\<lambda>x. Q (f x)) xs = findIndex (\<lambda>x. Q (f x)) ys"
proof (induction xs arbitrary: ys)
  case Nil
  then show ?case by simp
next
  case (Cons x xs)
  then obtain y ys' where ys: "ys = y # ys'" "f x = f y" "map f xs = map f ys'" by (cases ys) auto
  with Cons.IH[of ys'] show ?case by simp
qed

lemma hasJourney_iff: "hasJourney g jid \<longleftrightarrow> (\<exists>j \<in> set (journeys g). journey_id j = jid)"
  by (simp add: hasJourney_def list_ex_iff)

lemma ensureJourney_found:
  assumes "hasJourney defs jid"
  shows "\<exists>ji. ensureJourney defs jid = (defs, ji)
          \<and> findIndex (\<lambda>j. journey_id j = jid) (journeys defs) = Some ji
          \<and> ji < length (journeys defs)"
proof -
  from assms have "findIndex (\<lambda>j. journey_id j = jid) (journeys defs) \<noteq> None"
    by (simp add: findIndex_None hasJourney_iff)
  then obtain ji where ji: "findIndex (\<lambda>j. journey_id j = jid) (journeys defs) = Some ji" by blast
  with findIndex_Some[OF ji] show ?thesis by (simp add: ensureJourney_def)
qed

lemma ensureJourney_created:
  assumes "\<not> hasJourney defs jid"
  shows "ensureJourney defs jid
          = (defs\<lparr> journeys := journeys defs @ [newJourney jid] \<rparr>, length (journeys defs))"
proof -
  from assms have "findIndex (\<lambda>j. journey_id j = jid) (journeys defs) = None"
    by (simp add: findIndex_None hasJourney_iff)
  then show ?thesis by (simp add: ensureJourney_def)
qed

lemma pushStep_journeys:
  "ji < length (journeys defs) \<Longrightarrow>
   journeys (pushStep defs ji step)
     = (journeys defs)[ji := (journeys defs ! ji)\<lparr> steps := steps (journeys defs ! ji) @ [step] \<rparr>]"
  by (simp add: pushStep_def)

lemma map_journey_id_pushStep:
  "map journey_id (journeys (pushStep defs ji step)) = map journey_id (journeys defs)"
proof (cases "ji < length (journeys defs)")
  case True
  then show ?thesis
    by (simp add: pushStep_def map_update) (metis list_update_id length_map nth_map)
next
  case False
  then have "length (journeys defs) \<le> ji" by simp
  then show ?thesis by (simp add: pushStep_def list_update_beyond)
qed

lemma resolveNext_ensureJourney:
  "resolveNext parsed (fst (ensureJourney defs jid)) = resolveNext parsed defs"
  by (simp add: ensureJourney_def resolveNext_def newJourney_def split: option.splits)

lemma findIndex_pushStep:
  "findIndex (\<lambda>j. journey_id j = jid) (journeys (pushStep defs ji step))
     = findIndex (\<lambda>j. journey_id j = jid) (journeys defs)"
  using findIndex_cong_map[OF map_journey_id_pushStep, of "\<lambda>i. i = jid"] .

lemma addNewFile_places:
  "byPath (path f) = Some parsed \<and> findStepByFile defs (path f) = None \<longrightarrow>
        (\<exists>defs' r ji old.
           addNewFile byPath (defs, chs, rc) f = (defs', chs @ [r], Suc rc)
           \<and> action r = ''add''
           \<and> journeyId r = assignJourney (path f) (structName parsed) parsed defs
           \<and> findIndex (\<lambda>j. journey_id j = journeyId r) (journeys defs') = Some ji
           \<and> ji < length (journeys defs')
           \<and> steps (journeys defs' ! ji) = old @ [newStep parsed (path f) (resolveNext parsed defs)]
           \<and> (hasJourney defs (journeyId r) \<longrightarrow>
                 old = steps (journeys defs ! ji) \<and> length (journeys defs') = length (journeys defs))
           \<and> (\<not> hasJourney defs (journeyId r) \<longrightarrow>
                 old = [] \<and> ji = length (journeys defs)
                 \<and> length (journeys defs') = Suc (length (journeys defs))))"
proof -
  let ?jid = "assignJourney (path f) (structName parsed) parsed defs"
  show ?thesis
  proof
    assume h: "byPath (path f) = Some parsed \<and> findStepByFile defs (path f) = None"
    let ?r = "\<lparr> action = ''add'', journeyId = ?jid, stepId = slugify (structName parsed),
                detail = ''Added '' @ structName parsed @ '' from '' @ path f \<rparr>"
    show "\<exists>defs' r ji old.
           addNewFile byPath (defs, chs, rc) f = (defs', chs @ [r], Suc rc)
           \<and> action r = ''add''
           \<and> journeyId r = ?jid
           \<and> findIndex (\<lambda>j. journey_id j = journeyId r) (journeys defs') = Some ji
           \<and> ji < length (journeys defs')
           \<and> steps (journeys defs' ! ji) = old @ [newStep parsed (path f) (resolveNext parsed defs)]
           \<and> (hasJourney defs (journeyId r) \<longrightarrow>
                 old = steps (journeys defs ! ji) \<and> length (journeys defs') = length (journeys defs))
           \<and> (\<not> hasJourney defs (journeyId r) \<longrightarrow>
                 old = [] \<and> ji = length (journeys defs)
                 \<and> length (journeys defs') = Suc (length (journeys defs)))"
    proof (cases "hasJourney defs ?jid")
      case True
      from ensureJourney_found[OF True] obtain ji where
        ji: "ensureJourney defs ?jid = (defs, ji)"
            "findIndex (\<lambda>j. journey_id j = ?jid) (journeys defs) = Some ji"
            "ji < length (journeys defs)" by blast
      let ?step = "newStep parsed (path f) (resolveNext parsed defs)"
      let ?d = "pushStep defs ji ?step"
      have run: "addNewFile byPath (defs, chs, rc) f = (?d, chs @ [?r], Suc rc)"
        using h ji(1) by (simp add: addNewFile_def Let_def)
      have idx: "findIndex (\<lambda>j. journey_id j = ?jid) (journeys ?d) = Some ji"
        using ji(2) by (simp add: findIndex_pushStep)
      have len: "length (journeys ?d) = length (journeys defs)" by (simp add: pushStep_def)
      have st: "steps (journeys ?d ! ji) = steps (journeys defs ! ji) @ [?step]"
        using ji(3) by (simp add: pushStep_def)
      show ?thesis
        using run idx len st ji(3) True
        by (intro exI[of _ ?d] exI[of _ ?r] exI[of _ ji] exI[of _ "steps (journeys defs ! ji)"]) simp
    next
      case False
      let ?d1 = "defs\<lparr> journeys := journeys defs @ [newJourney ?jid] \<rparr>"
      let ?ji = "length (journeys defs)"
      have ens: "ensureJourney defs ?jid = (?d1, ?ji)" by (rule ensureJourney_created[OF False])
      have res: "resolveNext parsed ?d1 = resolveNext parsed defs"
        using resolveNext_ensureJourney[of parsed defs ?jid] ens by simp
      let ?step = "newStep parsed (path f) (resolveNext parsed defs)"
      let ?d = "pushStep ?d1 ?ji ?step"
      have run: "addNewFile byPath (defs, chs, rc) f = (?d, chs @ [?r], Suc rc)"
        using h ens res by (simp add: addNewFile_def Let_def)
      have none: "\<forall>j \<in> set (journeys defs). journey_id j \<noteq> ?jid"
        using False by (simp add: hasJourney_iff)
      have "findIndex (\<lambda>j. journey_id j = ?jid) (journeys ?d1) = Some ?ji"
        using findIndex_append_last[of "journeys defs" "\<lambda>j. journey_id j = ?jid" "newJourney ?jid"] none
        by (simp add: newJourney_def)
      then have idx: "findIndex (\<lambda>j. journey_id j = ?jid) (journeys ?d) = Some ?ji"
        by (simp add: findIndex_pushStep)
      have len: "length (journeys ?d) = Suc (length (journeys defs))" by (simp add: pushStep_def)
      have st: "steps (journeys ?d ! ?ji) = [] @ [?step]"
        by (simp add: pushStep_def newJourney_def)
      show ?thesis
        using run idx len st False
        by (intro exI[of _ ?d] exI[of _ ?r] exI[of _ ?ji] exI[of _ "[]"]) simp
    qed
  qed
qed

text \<open>
  What \<open>assignJourney\<close> and the loop body compute, branch by branch. For an added file
  with a descriptor whose path no step tracks, the journey id is: that of the three path
  rules; else that of the first journey with a step one of whose outgoing ids resolves,
  in that journey, to a step showing the view of the file; else that of the first
  journey with a step whose screen is a destination of the edges of the new view (the
  second loop of the source); else \<^verbatim>\<open>unassigned\<close>. The new step is appended to the first
  journey with the chosen id; when no journey has that id, a journey with that id and no
  steps is appended to the graph first. Exactly one record, of action \<^verbatim>\<open>add\<close>, is
  added and the review count grows by one.
\<close>

theorem assignJourney_order:
  "(prefix ''ExampleApp/Sources/UI/Onboarding/'' p \<longrightarrow>
      assignJourney p name parsed defs = ''first-launch'')
   \<and> (\<not> prefix ''ExampleApp/Sources/UI/Onboarding/'' p \<and> prefix ''ExampleAppShare/'' p \<longrightarrow>
      assignJourney p name parsed defs = ''capture-via-share'')
   \<and> (\<not> prefix ''ExampleApp/Sources/UI/Onboarding/'' p \<and> \<not> prefix ''ExampleAppShare/'' p
       \<and> prefix ''ExampleAppAction/'' p \<longrightarrow>
      assignJourney p name parsed defs = ''capture-via-action'')
   \<and> (\<not> matchesPathRule p \<and> find (presentsToView name) (journeys defs) = Some j \<longrightarrow>
      assignJourney p name parsed defs = journey_id j)
   \<and> (\<not> matchesPathRule p \<and> find (presentsToView name) (journeys defs) = None
       \<and> find (presentedByView parsed) (journeys defs) = Some j \<longrightarrow>
      assignJourney p name parsed defs = journey_id j)
   \<and> (\<not> matchesPathRule p \<and> find (presentsToView name) (journeys defs) = None
       \<and> find (presentedByView parsed) (journeys defs) = None \<longrightarrow>
      assignJourney p name parsed defs = ''unassigned'')
   \<and> (byPath (path f) = Some parsed \<and> findStepByFile defs (path f) = None \<longrightarrow>
        (\<exists>defs' r ji old.
           addNewFile byPath (defs, chs, rc) f = (defs', chs @ [r], Suc rc)
           \<and> action r = ''add''
           \<and> journeyId r = assignJourney (path f) (structName parsed) parsed defs
           \<and> findIndex (\<lambda>j. journey_id j = journeyId r) (journeys defs') = Some ji
           \<and> ji < length (journeys defs')
           \<and> steps (journeys defs' ! ji) = old @ [newStep parsed (path f) (resolveNext parsed defs)]
           \<and> (hasJourney defs (journeyId r) \<longrightarrow>
                 old = steps (journeys defs ! ji) \<and> length (journeys defs') = length (journeys defs))
           \<and> (\<not> hasJourney defs (journeyId r) \<longrightarrow>
                 old = [] \<and> ji = length (journeys defs)
                 \<and> length (journeys defs') = Suc (length (journeys defs)))))"
proof -
  let ?jid = "assignJourney (path f) (structName parsed) parsed defs"
  have rules: "(prefix ''ExampleApp/Sources/UI/Onboarding/'' p \<longrightarrow>
      assignJourney p name parsed defs = ''first-launch'')
   \<and> (\<not> prefix ''ExampleApp/Sources/UI/Onboarding/'' p \<and> prefix ''ExampleAppShare/'' p \<longrightarrow>
      assignJourney p name parsed defs = ''capture-via-share'')
   \<and> (\<not> prefix ''ExampleApp/Sources/UI/Onboarding/'' p \<and> \<not> prefix ''ExampleAppShare/'' p
       \<and> prefix ''ExampleAppAction/'' p \<longrightarrow>
      assignJourney p name parsed defs = ''capture-via-action'')"
    by (simp add: assignJourney_def)
  have b1: "\<not> matchesPathRule p \<and> find (presentsToView name) (journeys defs) = Some j \<longrightarrow>
      assignJourney p name parsed defs = journey_id j"
    by (simp add: assignJourney_def matchesPathRule_def)
  have b2: "\<not> matchesPathRule p \<and> find (presentsToView name) (journeys defs) = None
       \<and> find (presentedByView parsed) (journeys defs) = Some j \<longrightarrow>
      assignJourney p name parsed defs = journey_id j"
    by (simp add: assignJourney_def matchesPathRule_def)
  have c: "\<not> matchesPathRule p \<and> find (presentsToView name) (journeys defs) = None
       \<and> find (presentedByView parsed) (journeys defs) = None \<longrightarrow>
      assignJourney p name parsed defs = ''unassigned''"
    by (simp add: assignJourney_def matchesPathRule_def)
  note place = addNewFile_places [of byPath f parsed defs chs rc]
  show ?thesis using rules b1 b2 c place by blast
qed

text \<open>
  Claim C8 fails on the code. The added file \<open>DetailView\<close> is outside the path rules
  and no existing step has it as a resolved target of an outgoing id, so by the order of
  the claim (path rules, container of an existing step that presents the new view, else
  \<^verbatim>\<open>unassigned\<close>) it goes to \<^verbatim>\<open>unassigned\<close>; \<open>assignJourney\<close> returns \<open>main\<close>, the
  journey of the step \<open>home\<close>, because the new view presents the screen of that step.
  The second loop of \<^verbatim>\<open>assignJourney\<close> is commented \<^verbatim>\<open>Check if any parsed edge points
  here from an existing step\<close>, the direction of the claim, and tests the opposite
  direction: the edges of the new view against the screens of the existing steps.
  Merged, the new step is the second step of \<open>main\<close>.
\<close>

theorem assignJourney_skips_claimed_order:
  "\<not> matchesPathRule detailPath
   \<and> \<not> referenced homeDefs (structName detailView)
   \<and> claimedContainer detailPath (structName detailView) homeDefs = ''unassigned''
   \<and> assignJourney detailPath (structName detailView) detailView homeDefs = ''main''
   \<and> map (\<lambda>j. (journey_id j, map step_id (steps j)))
         (journeys (json (merge homeDefs (scanOf detailFile) [detailView])))
       = [(''main'', [''home'', ''detail-view''])]"
proof -
  have a: "\<not> matchesPathRule detailPath
   \<and> \<not> referenced homeDefs (structName detailView)
   \<and> claimedContainer detailPath (structName detailView) homeDefs = ''unassigned''
   \<and> assignJourney detailPath (structName detailView) detailView homeDefs = ''main''"
    by (simp add: matchesPathRule_def detailPath_def referenced_def homeDefs_def detailView_def
      claimedContainer_def assignJourney_def presentsToView_def presentedByView_def fixture_defs)
  have b: "map (\<lambda>j. (journey_id j, map step_id (steps j)))
         (journeys (json (merge homeDefs (scanOf detailFile) [detailView])))
       = [(''main'', [''home'', ''detail-view''])]"
    by code_simp
  show ?thesis using a b by (intro conjI) simp_all
qed

lemma detail_untracked: "findStepByFile homeDefs (path detailFile) = None"
  by (simp add: findStepByFile_def homeDefs_def detailFile_def detailPath_def fixture_defs)

lemma detail_parsed: "parsedByPath [detailView] (path detailFile) = Some detailView"
  by (simp add: parsedByPath_def detailView_def detailFile_def)

lemma welcome_untracked: "findStepByFile baseDefs (path welcomeDisplay) = None"
  by (simp add: findStepByFile_def baseDefs_def)

lemma welcome_parsed:
  "parsedByPath [welcomeView ''display''] (path welcomeDisplay) = Some (welcomeView ''display'')"
  by (simp add: parsedByPath_def welcomeView_def welcomeDisplay_def)

lemma detail_assigned:
  "assignJourney (path detailFile) (structName detailView) detailView homeDefs = ''main''"
  by (simp add: detailPath_def detailFile_def homeDefs_def detailView_def
      assignJourney_def presentsToView_def presentedByView_def fixture_defs)

lemma welcome_assigned:
  "assignJourney (path welcomeDisplay) (structName (welcomeView ''display'')) (welcomeView ''display'')
     baseDefs = ''unassigned''"
  by (simp add: welcomeDisplay_def welcomePath_def welcomeView_def baseDefs_def assignJourney_def)

text \<open>
  The rules one by one (the paths of the routing tests, a graph with a step that
  presents the view, a graph with a step that the view presents, the graph without
  journeys), and the placement in an existing and in a created journey.
\<close>

theorem assignJourney_order_witness:
  "assignJourney onboardingPath ''OnboardingStep1View'' detailView baseDefs = ''first-launch''
   \<and> assignJourney sharePath ''ShareExtView'' detailView baseDefs = ''capture-via-share''
   \<and> assignJourney actionPath ''ActionExtView'' detailView baseDefs = ''capture-via-action''
   \<and> \<not> matchesPathRule detailPath
   \<and> find (presentsToView ''DetailView'') (journeys linkedDefs) = Some (journeys linkedDefs ! 0)
   \<and> assignJourney detailPath ''DetailView'' detailView linkedDefs = ''browse''
   \<and> find (presentsToView ''DetailView'') (journeys homeDefs) = None
   \<and> find (presentedByView detailView) (journeys homeDefs) = Some (journeys homeDefs ! 0)
   \<and> assignJourney detailPath ''DetailView'' detailView homeDefs = ''main''
   \<and> find (presentedByView detailView) (journeys baseDefs) = None
   \<and> assignJourney detailPath ''DetailView'' detailView baseDefs = ''unassigned''
   \<and> hasJourney homeDefs ''main''
   \<and> (\<exists>defs' r.
         addNewFile (parsedByPath [detailView]) (homeDefs, [], 0) detailFile = (defs', [r], 1)
         \<and> action r = ''add'' \<and> journeyId r = ''main'' \<and> length (journeys defs') = 1
         \<and> steps (journeys defs' ! 0)
              = steps (journeys homeDefs ! 0) @ [newStep detailView detailPath [''home'']])
   \<and> \<not> hasJourney baseDefs ''unassigned''
   \<and> (\<exists>defs' r.
         addNewFile (parsedByPath [welcomeView ''display'']) (baseDefs, [], 0) welcomeDisplay
           = (defs', [r], 1)
         \<and> action r = ''add'' \<and> journeyId r = ''unassigned'' \<and> length (journeys defs') = 1
         \<and> steps (journeys defs' ! 0) = [newStep (welcomeView ''display'') welcomePath []])"
proof -
  have pa: "prefix ''ExampleApp/Sources/UI/Onboarding/'' onboardingPath"
    by (simp add: onboardingPath_def)
  have pb: "\<not> prefix ''ExampleApp/Sources/UI/Onboarding/'' sharePath \<and> prefix ''ExampleAppShare/'' sharePath"
    by (simp add: sharePath_def)
  have pc: "\<not> prefix ''ExampleApp/Sources/UI/Onboarding/'' actionPath
      \<and> \<not> prefix ''ExampleAppShare/'' actionPath \<and> prefix ''ExampleAppAction/'' actionPath"
    by (simp add: actionPath_def)
  have nr: "\<not> matchesPathRule detailPath" by (simp add: matchesPathRule_def detailPath_def)
  have f1: "find (presentsToView ''DetailView'') (journeys linkedDefs) = Some (journeys linkedDefs ! 0)"
    by (simp add: linkedDefs_def fixture_defs presentsToView_def nextIsScreen_def)
  have id1: "journey_id (journeys linkedDefs ! 0) = ''browse''" by (simp add: linkedDefs_def fixture_defs)
  have f2: "find (presentsToView ''DetailView'') (journeys homeDefs) = None"
    by (simp add: homeDefs_def fixture_defs presentsToView_def)
  have f3: "find (presentedByView detailView) (journeys homeDefs) = Some (journeys homeDefs ! 0)"
    by (simp add: homeDefs_def fixture_defs presentedByView_def detailView_def)
  have id3: "journey_id (journeys homeDefs ! 0) = ''main''" by (simp add: homeDefs_def fixture_defs)
  have f4: "find (presentsToView ''DetailView'') (journeys baseDefs) = None"
    "find (presentedByView detailView) (journeys baseDefs) = None"
    by (simp_all add: baseDefs_def)
  have hj: "hasJourney homeDefs ''main''" by (simp add: hasJourney_def homeDefs_def fixture_defs)
  have nj: "\<not> hasJourney baseDefs ''unassigned''" by (simp add: hasJourney_def baseDefs_def)
  have rn: "resolveNext detailView homeDefs = [''home'']"
    by (simp add: resolveNext_def detailView_def homeDefs_def fixture_defs)
  have rw: "resolveNext (welcomeView ''display'') baseDefs = []"
    by (simp add: resolveNext_def welcomeView_def)
  have paths: "path detailFile = detailPath" "path welcomeDisplay = welcomePath"
    by (simp_all add: detailFile_def welcomeDisplay_def)
  have len: "length (journeys homeDefs) = 1" "length (journeys baseDefs) = 0"
    by (simp_all add: homeDefs_def baseDefs_def fixture_defs)
  note t = assignJourney_order
  note r1 = t [THEN conjunct1, rule_format]
  note r2 = t [THEN conjunct2, THEN conjunct1, rule_format]
  note r3 = t [THEN conjunct2, THEN conjunct2, THEN conjunct1, rule_format]
  note r4 = t [THEN conjunct2, THEN conjunct2, THEN conjunct2, THEN conjunct1, rule_format]
  note r5 = t [THEN conjunct2, THEN conjunct2, THEN conjunct2, THEN conjunct2, THEN conjunct1,
               rule_format]
  note r6 = t [THEN conjunct2, THEN conjunct2, THEN conjunct2, THEN conjunct2, THEN conjunct2,
               THEN conjunct1, rule_format]
  note r7 = t [THEN conjunct2, THEN conjunct2, THEN conjunct2, THEN conjunct2, THEN conjunct2,
               THEN conjunct2, rule_format]
  have c1: "assignJourney onboardingPath ''OnboardingStep1View'' detailView baseDefs = ''first-launch''"
    using pa by (rule r1)
  have c2: "assignJourney sharePath ''ShareExtView'' detailView baseDefs = ''capture-via-share''"
    using pb by (rule r2)
  have c3: "assignJourney actionPath ''ActionExtView'' detailView baseDefs = ''capture-via-action''"
    using pc by (rule r3)
  have c4: "assignJourney detailPath ''DetailView'' detailView linkedDefs = ''browse''"
    using r4 [OF conjI [OF nr f1]] id1 by simp
  have c5: "assignJourney detailPath ''DetailView'' detailView homeDefs = ''main''"
    using r5 [OF conjI [OF nr conjI [OF f2 f3]]] id3 by simp
  have c6: "assignJourney detailPath ''DetailView'' detailView baseDefs = ''unassigned''"
    using r6 [OF conjI [OF nr conjI [OF f4(1) f4(2)]]] by simp
  have c7: "\<exists>defs' r.
         addNewFile (parsedByPath [detailView]) (homeDefs, [], 0) detailFile = (defs', [r], 1)
         \<and> action r = ''add'' \<and> journeyId r = ''main'' \<and> length (journeys defs') = 1
         \<and> steps (journeys defs' ! 0)
              = steps (journeys homeDefs ! 0) @ [newStep detailView detailPath [''home'']]"
  proof -
    from r7 [where byPath = "parsedByPath [detailView]" and f = detailFile and parsed = detailView
               and defs = homeDefs and chs = "[]" and rc = 0,
             OF conjI [OF detail_parsed detail_untracked]]
    obtain defs' r ji old where
      o: "addNewFile (parsedByPath [detailView]) (homeDefs, [], 0) detailFile = (defs', [] @ [r], Suc 0)
         \<and> action r = ''add''
         \<and> journeyId r = assignJourney (path detailFile) (structName detailView) detailView homeDefs
         \<and> findIndex (\<lambda>j. journey_id j = journeyId r) (journeys defs') = Some ji
         \<and> ji < length (journeys defs')
         \<and> steps (journeys defs' ! ji)
            = old @ [newStep detailView (path detailFile) (resolveNext detailView homeDefs)]
         \<and> (hasJourney homeDefs (journeyId r) \<longrightarrow>
            old = steps (journeys homeDefs ! ji) \<and> length (journeys defs') = length (journeys homeDefs))
         \<and> (\<not> hasJourney homeDefs (journeyId r) \<longrightarrow>
                 old = [] \<and> ji = length (journeys homeDefs)
                 \<and> length (journeys defs') = Suc (length (journeys homeDefs)))"
      by (elim exE)
    then have jr: "journeyId r = ''main''" by (simp add: detail_assigned)
    with o hj len have l1: "length (journeys defs') = 1" and old: "old = steps (journeys homeDefs ! ji)"
      by simp_all
    from o have "ji < length (journeys defs')" by simp
    with l1 have "ji = 0" by simp
    with o old jr l1 rn paths show ?thesis by simp
  qed
  have c8: "\<exists>defs' r.
         addNewFile (parsedByPath [welcomeView ''display'']) (baseDefs, [], 0) welcomeDisplay
           = (defs', [r], 1)
         \<and> action r = ''add'' \<and> journeyId r = ''unassigned'' \<and> length (journeys defs') = 1
         \<and> steps (journeys defs' ! 0) = [newStep (welcomeView ''display'') welcomePath []]"
  proof -
    from r7 [where byPath = "parsedByPath [welcomeView ''display'']" and f = welcomeDisplay
               and parsed = "welcomeView ''display''" and defs = baseDefs and chs = "[]" and rc = 0,
             OF conjI [OF welcome_parsed welcome_untracked]]
    obtain defs' r ji old where
      o: "addNewFile (parsedByPath [welcomeView ''display'']) (baseDefs, [], 0) welcomeDisplay
            = (defs', [] @ [r], Suc 0)
         \<and> action r = ''add''
         \<and> journeyId r = assignJourney (path welcomeDisplay) (structName (welcomeView ''display''))
                          (welcomeView ''display'') baseDefs
         \<and> findIndex (\<lambda>j. journey_id j = journeyId r) (journeys defs') = Some ji
         \<and> ji < length (journeys defs')
         \<and> steps (journeys defs' ! ji)
            = old @ [newStep (welcomeView ''display'') (path welcomeDisplay)
                       (resolveNext (welcomeView ''display'') baseDefs)]
         \<and> (hasJourney baseDefs (journeyId r) \<longrightarrow>
            old = steps (journeys baseDefs ! ji) \<and> length (journeys defs') = length (journeys baseDefs))
         \<and> (\<not> hasJourney baseDefs (journeyId r) \<longrightarrow>
            old = [] \<and> ji = length (journeys baseDefs)
            \<and> length (journeys defs') = Suc (length (journeys baseDefs)))"
      by (elim exE)
    then have jr: "journeyId r = ''unassigned''" by (simp add: welcome_assigned)
    with o nj len have "old = []" "ji = 0" "length (journeys defs') = 1" by simp_all
    with o jr rw paths show ?thesis by simp
  qed
  show ?thesis using c1 c2 c3 nr f1 c4 f2 f3 c5 f4(2) c6 hj c7 nj c8 by (intro conjI)
qed

lemma stepCount_pushStep:
  assumes "ji < length (journeys d)"
  shows "stepCount (pushStep d ji s) = Suc (stepCount d)"
proof -
  let ?ls = "map (\<lambda>j. length (steps j)) (journeys d)"
  have "map (\<lambda>j. length (steps j)) (journeys (pushStep d ji s)) = ?ls[ji := Suc (?ls ! ji)]"
    using assms by (simp add: pushStep_def map_update)
  moreover have "sum_list (?ls[ji := Suc (?ls ! ji)]) = Suc (sum_list ?ls)"
    using assms by (simp add: sum_list_update)
  ultimately show ?thesis by (simp add: stepCount_def)
qed

lemma stepCount_ensureJourney: "stepCount (fst (ensureJourney d jid)) = stepCount d"
  by (simp add: ensureJourney_def stepCount_def newJourney_def split: option.splits)

lemma ensureJourney_index: "snd (ensureJourney d jid) < length (journeys (fst (ensureJourney d jid)))"
  using findIndex_Some[of "\<lambda>j. journey_id j = jid" "journeys d"]
  by (auto simp: ensureJourney_def split: option.splits)

lemma stepCount_addNewFile:
  assumes "byPath (path f) = Some parsed" "findStepByFile defs (path f) = None"
  shows "stepCount (fst (addNewFile byPath (defs, chs, rc) f)) = Suc (stepCount defs)"
proof -
  let ?jid = "assignJourney (path f) (structName parsed) parsed defs"
  obtain d1 ji where e: "ensureJourney defs ?jid = (d1, ji)" by (cases "ensureJourney defs ?jid") auto
  with ensureJourney_index[of defs ?jid] stepCount_ensureJourney[of defs ?jid]
  have "ji < length (journeys d1)" "stepCount d1 = stepCount defs" by simp_all
  then show ?thesis using assms e by (simp add: addNewFile_def Let_def stepCount_pushStep)
qed

lemma inferType_noMarkers: "noMarkers c \<Longrightarrow> inferType c = ''display''"
  by (auto simp: noMarkers_def inferType_def)

lemma definesView_fields:
  assumes "definesViewWithoutEdges f name parsed"
  shows "filePath parsed = path f" "inferredType parsed = inferType (content f)"
    "structName parsed = name" "presentsTo parsed = []"
  using assms
  by (auto simp: definesViewWithoutEdges_def parseSwiftFile_def split: option.splits if_splits)

lemma find_None_iff': "find P xs = None \<longleftrightarrow> \<not> list_ex P xs"
  by (auto simp: find_None_iff list_ex_iff)

lemma slugify_WelcomeView: "slugify ''WelcomeView'' = ''welcome-view''"
  by code_simp

lemma merge_addsOnly:
  assumes "addsOnly scanResult f"
  shows "merge current scanResult pvs =
     (case addNewFile (parsedByPath pvs) (current, [], 0) f of
        (d, c, r) \<Rightarrow> \<lparr> json = d, changes = c, reviewCount = r \<rparr>)"
  using assms by (simp add: merge_def addsOnly_def Let_def)

text \<open>
  Claim C4, amended. If the scan holds exactly one added file, its content parses to the
  view \<open>WelcomeView\<close> without edges and holds none of the markers of the type
  inference, no existing step has an edge that resolves to a step showing that view, no
  existing step tracks the path of the file, and the path matches no path rule, then
  parsing gives that one view and the merge appends exactly one step to the journey
  \<^verbatim>\<open>unassigned\<close> (created when absent): type \<^verbatim>\<open>display\<close>, \<open>needsReview = Some True\<close>, no
  outgoing ids; the change log is one record of action \<^verbatim>\<open>add\<close>, the review count is
  one, and every earlier step is kept.
\<close>

theorem welcome_scenario_adds_display_node:
  assumes only: "addsOnly scanResult f"
    and view: "definesViewWithoutEdges f ''WelcomeView'' parsed"
    and plain: "noMarkers (content f)"
    and unref: "\<not> referenced current ''WelcomeView''"
    and norule: "\<not> matchesPathRule (path f)"
    and untracked: "findStepByFile current (path f) = None"
  shows
    "parseFiles (newFiles scanResult @ modifiedFiles scanResult) = Returns [parsed]
     \<and> changes (merge current scanResult [parsed])
         = [\<lparr> action = ''add'', journeyId = ''unassigned'', stepId = ''welcome-view'',
              detail = ''Added WelcomeView from '' @ path f \<rparr>]
     \<and> reviewCount (merge current scanResult [parsed]) = 1
     \<and> (\<exists>ji old.
           findIndex (\<lambda>j. journey_id j = ''unassigned'')
                     (journeys (json (merge current scanResult [parsed]))) = Some ji
           \<and> steps (journeys (json (merge current scanResult [parsed])) ! ji)
               = old @ [\<lparr> step_id = ''welcome-view'', label = ''TODO: WelcomeView'',
                           screen = ''WelcomeView'', swiftFile = Some (path f),
                           step_type = ''display'', phase = ''Unassigned'', step_next = [],
                           edgeLabels = None, deprecated = None, needsReview = Some True \<rparr>]
           \<and> (hasJourney current ''unassigned'' \<longrightarrow> old = steps (journeys current ! ji))
           \<and> (\<not> hasJourney current ''unassigned'' \<longrightarrow> old = []))
     \<and> stepCount (json (merge current scanResult [parsed])) = Suc (stepCount current)
     \<and> keepsNodes current (json (merge current scanResult [parsed]))"
proof -
  note flds = definesView_fields[OF view]
  let ?bp = "parsedByPath [parsed]"
  have bp: "?bp (path f) = Some parsed" by (simp add: parsedByPath_def flds(1))
  have ty: "inferredType parsed = ''display''" using flds(2) inferType_noMarkers[OF plain] by simp
  have n1: "find (presentsToView ''WelcomeView'') (journeys current) = None"
    using unref by (simp add: referenced_def find_None_iff')
  have n2: "find (presentedByView parsed) (journeys current) = None"
    by (simp add: find_None_iff presentedByView_def flds(4) list_ex_iff)
  have jid: "assignJourney (path f) (structName parsed) parsed current = ''unassigned''"
    using norule n1 n2 flds(3) by (simp add: assignJourney_def matchesPathRule_def)
  have rn: "resolveNext parsed current = []" by (simp add: resolveNext_def flds(4))
  have step: "newStep parsed (path f) (resolveNext parsed current)
      = \<lparr> step_id = ''welcome-view'', label = ''TODO: WelcomeView'',
                           screen = ''WelcomeView'', swiftFile = Some (path f),
                           step_type = ''display'', phase = ''Unassigned'', step_next = [],
                           edgeLabels = None, deprecated = None, needsReview = Some True \<rparr>"
    by (simp add: newStep_def flds(3) ty rn slugify_WelcomeView)
  from addNewFile_places[of ?bp f parsed current "[]" 0] bp untracked
  obtain defs' r ji old where
    o: "addNewFile ?bp (current, [], 0) f = (defs', [] @ [r], Suc 0)
         \<and> action r = ''add''
         \<and> journeyId r = assignJourney (path f) (structName parsed) parsed current
         \<and> findIndex (\<lambda>j. journey_id j = journeyId r) (journeys defs') = Some ji
         \<and> ji < length (journeys defs')
         \<and> steps (journeys defs' ! ji)
            = old @ [newStep parsed (path f) (resolveNext parsed current)]
         \<and> (hasJourney current (journeyId r) \<longrightarrow>
            old = steps (journeys current ! ji) \<and> length (journeys defs') = length (journeys current))
         \<and> (\<not> hasJourney current (journeyId r) \<longrightarrow>
            old = [] \<and> ji = length (journeys current)
            \<and> length (journeys defs') = Suc (length (journeys current)))"
    by blast
  have run: "addNewFile ?bp (current, [], 0) f
      = (defs', [\<lparr> action = ''add'', journeyId = ''unassigned'', stepId = ''welcome-view'',
                    detail = ''Added WelcomeView from '' @ path f \<rparr>], Suc 0)"
    using o bp untracked jid
    by (simp add: addNewFile_def Let_def flds(3) slugify_WelcomeView split: prod.splits)
  have m: "merge current scanResult [parsed]
      = \<lparr> json = defs', changes = [\<lparr> action = ''add'', journeyId = ''unassigned'',
                                       stepId = ''welcome-view'',
                                       detail = ''Added WelcomeView from '' @ path f \<rparr>],
          reviewCount = Suc 0 \<rparr>"
    unfolding merge_addsOnly[OF only] run by simp
  have p: "parseFiles (newFiles scanResult @ modifiedFiles scanResult) = Returns [parsed]"
    using only view by (simp add: addsOnly_def definesViewWithoutEdges_def)
  have cnt: "stepCount defs' = Suc (stepCount current)"
    using stepCount_addNewFile[of ?bp f parsed current "[]" 0] bp untracked run by simp
  have keep: "keepsNodes current defs'"
    using keepsNodes_addNewFile[of current ?bp "[]" 0 f] run by simp
  have jr: "journeyId r = assignJourney (path f) (structName parsed) parsed current" using o by simp
  have ex: "\<exists>ji old.
           findIndex (\<lambda>j. journey_id j = ''unassigned'') (journeys defs') = Some ji
           \<and> steps (journeys defs' ! ji)
               = old @ [\<lparr> step_id = ''welcome-view'', label = ''TODO: WelcomeView'',
                           screen = ''WelcomeView'', swiftFile = Some (path f),
                           step_type = ''display'', phase = ''Unassigned'', step_next = [],
                           edgeLabels = None, deprecated = None, needsReview = Some True \<rparr>]
           \<and> (hasJourney current ''unassigned'' \<longrightarrow> old = steps (journeys current ! ji))
           \<and> (\<not> hasJourney current ''unassigned'' \<longrightarrow> old = [])"
    using o[unfolded jid step] unfolding jr[unfolded jid]
    by (intro exI[of _ ji] exI[of _ old]) simp
  show ?thesis unfolding m using p ex cnt keep by simp
qed

lemma welcomeDisplay_view:
  "definesViewWithoutEdges welcomeDisplay ''WelcomeView'' (welcomeView ''display'')"
  by code_simp

lemma welcomeDisplay_plain: "noMarkers (content welcomeDisplay)"
  by code_simp

lemma welcome_scan: "addsOnly (scanOf f) f"
  by (simp add: addsOnly_def scanOf_def)

lemma base_unreferenced: "\<not> referenced baseDefs name"
  by (simp add: referenced_def baseDefs_def)

lemma welcome_norule: "\<not> matchesPathRule welcomePath"
  by (simp add: matchesPathRule_def welcomePath_def)

text \<open>The scenario on the graph without journeys, with a content like that of the test.\<close>

theorem welcome_scenario_adds_display_node_witness:
  "addsOnly (scanOf welcomeDisplay) welcomeDisplay
   \<and> definesViewWithoutEdges welcomeDisplay ''WelcomeView'' (welcomeView ''display'')
   \<and> noMarkers (content welcomeDisplay)
   \<and> \<not> referenced baseDefs ''WelcomeView''
   \<and> \<not> matchesPathRule (path welcomeDisplay)
   \<and> findStepByFile baseDefs (path welcomeDisplay) = None
   \<and> parseFiles (newFiles (scanOf welcomeDisplay) @ modifiedFiles (scanOf welcomeDisplay))
       = Returns [welcomeView ''display'']
   \<and> changes (merge baseDefs (scanOf welcomeDisplay) [welcomeView ''display''])
       = [\<lparr> action = ''add'', journeyId = ''unassigned'', stepId = ''welcome-view'',
            detail = ''Added WelcomeView from ExampleApp/Sources/UI/Views/WelcomeView.swift'' \<rparr>]
   \<and> reviewCount (merge baseDefs (scanOf welcomeDisplay) [welcomeView ''display'']) = 1
   \<and> stepCount (json (merge baseDefs (scanOf welcomeDisplay) [welcomeView ''display''])) = 1"
proof -
  have p: "path welcomeDisplay = welcomePath" by (simp add: welcomeDisplay_def)
  have nr: "\<not> matchesPathRule (path welcomeDisplay)" using welcome_norule p by simp
  have ut: "findStepByFile baseDefs (path welcomeDisplay) = None"
    by (simp add: findStepByFile_def baseDefs_def)
  have sc: "stepCount baseDefs = 0" by (simp add: stepCount_def baseDefs_def)
  show ?thesis
    using welcome_scenario_adds_display_node [OF welcome_scan welcomeDisplay_view
        welcomeDisplay_plain base_unreferenced nr ut]
      welcome_scan welcomeDisplay_view welcomeDisplay_plain base_unreferenced nr ut p sc
    by (simp add: welcomePath_def)
qed

lemma welcomeGone_unreferenced: "\<not> referenced welcomeGoneDefs ''WelcomeView''"
  by (simp add: referenced_def welcomeGoneDefs_def presentsToView_def fixture_defs)

lemma welcomeGone_tracked: "findStepByFile welcomeGoneDefs (path welcomeDisplay) = Some (0, 0)"
  by (simp add: findStepByFile_def welcomeGoneDefs_def welcomeDisplay_def fixture_defs)

text \<open>
  Claim C4 as stated fails when a step tracks the path already: the file of
  \<open>WelcomeView\<close> was removed in an earlier cycle, which left its step deprecated, and is
  added again. The content defines the view without edges and without markers, no step
  has an edge to the view, and the path matches no path rule; the merge adds no step and
  no record, and the step stays deprecated. The validator accepts the graph.
\<close>

theorem welcome_scenario_tracked_path:
  "addsOnly (scanOf welcomeDisplay) welcomeDisplay
   \<and> definesViewWithoutEdges welcomeDisplay ''WelcomeView'' (welcomeView ''display'')
   \<and> noMarkers (content welcomeDisplay)
   \<and> \<not> referenced welcomeGoneDefs ''WelcomeView''
   \<and> \<not> matchesPathRule (path welcomeDisplay)
   \<and> parseFiles (newFiles (scanOf welcomeDisplay) @ modifiedFiles (scanOf welcomeDisplay))
       = Returns [welcomeView ''display'']
   \<and> merge welcomeGoneDefs (scanOf welcomeDisplay) [welcomeView ''display'']
       = \<lparr> json = welcomeGoneDefs, changes = [], reviewCount = 0 \<rparr>
   \<and> stepCount welcomeGoneDefs = 1
   \<and> ok (validate welcomeGoneDefs welcomeGoneDefs)"
proof -
  have p: "path welcomeDisplay = welcomePath" by (simp add: welcomeDisplay_def)
  have nr: "\<not> matchesPathRule (path welcomeDisplay)" using welcome_norule p by simp
  have pf: "parseFiles (newFiles (scanOf welcomeDisplay) @ modifiedFiles (scanOf welcomeDisplay))
       = Returns [welcomeView ''display'']"
    using welcomeDisplay_view by (simp add: scanOf_def definesViewWithoutEdges_def)
  have bp: "parsedByPath [welcomeView ''display''] (path welcomeDisplay) = Some (welcomeView ''display'')"
    by (simp add: parsedByPath_def welcomeView_def welcomeDisplay_def)
  have m: "merge welcomeGoneDefs (scanOf welcomeDisplay) [welcomeView ''display'']
       = \<lparr> json = welcomeGoneDefs, changes = [], reviewCount = 0 \<rparr>"
    unfolding merge_addsOnly[OF welcome_scan]
    by (simp add: addNewFile_def bp welcomeGone_tracked)
  have sc: "stepCount welcomeGoneDefs = 1"
    by (simp add: stepCount_def welcomeGoneDefs_def fixture_defs)
  have v: "ok (validate welcomeGoneDefs welcomeGoneDefs)" by code_simp
  show ?thesis
    using welcome_scan welcomeDisplay_view welcomeDisplay_plain welcomeGone_unreferenced nr pf m sc v
    by (intro conjI)
qed

section \<open>Properties of the merger on a whole diff\<close>

subsection \<open>What the loops read of a graph\<close>

lemma firstOccurrences_snoc:
  "firstOccurrences (xs @ [x]) = (if x \<in> set xs then firstOccurrences xs else firstOccurrences xs @ [x])"
  by (simp add: firstOccurrences_def)

lemma set_firstOccurrences: "set (firstOccurrences xs) = set xs"
  by (simp add: firstOccurrences_def)

lemma stepFrame_weaken:
  assumes "stepFrame k g = stepFrame k g'" and "\<And>s. h s = h' (k s)"
  shows "stepFrame h g = stepFrame h g'"
proof -
  have "map (map h') (stepFrame k g) = map (map h') (stepFrame k g')" using assms(1) by simp
  moreover have "map (map h') (stepFrame k g) = stepFrame h g" for g
    by (simp add: stepFrame_def assms(2) comp_def)
  ultimately show ?thesis by simp
qed

lemma findStepIn_cong:
  "map (\<lambda>j. map swiftFile (steps j)) js = map (\<lambda>j. map swiftFile (steps j)) js' \<Longrightarrow>
   findStepIn js p = findStepIn js' p"
proof (induction js arbitrary: js')
  case Nil
  then show ?case by simp
next
  case (Cons j js)
  then obtain j' js2 where js': "js' = j' # js2" by (cases js') auto
  with Cons.prems have h: "map swiftFile (steps j) = map swiftFile (steps j')"
    and t: "map (\<lambda>j. map swiftFile (steps j)) js = map (\<lambda>j. map swiftFile (steps j)) js2"
    by simp_all
  have fi: "findIndex (\<lambda>step. swiftFile step = Some p) (steps j)
          = findIndex (\<lambda>step. swiftFile step = Some p) (steps j')"
    using findIndex_cong_map[OF h, of "\<lambda>f. f = Some p"] .
  show ?case using fi Cons.IH[OF t] js' by (auto split: option.splits)
qed

lemma findStepByFile_cong:
  "stepFrame swiftFile g = stepFrame swiftFile g' \<Longrightarrow> findStepByFile g p = findStepByFile g' p"
  unfolding findStepByFile_def stepFrame_def by (rule findStepIn_cong)

lemma resolve_steps_map:
  "foldl (\<lambda>ids step. if screen step = d \<and> step_id step \<notin> set ids then ids @ [step_id step] else ids) a xs
   = foldl (\<lambda>ids x. if fst x = d \<and> snd x \<notin> set ids then ids @ [snd x] else ids) a
       (map (\<lambda>s. (screen s, step_id s)) xs)"
  by (induction xs arbitrary: a) simp_all

lemma resolve_journeys_map:
  "foldl (\<lambda>acc journey.
            foldl (\<lambda>ids step. if screen step = d \<and> step_id step \<notin> set ids then ids @ [step_id step] else ids)
                  acc (steps journey)) a js
   = foldl (\<lambda>acc ss. foldl (\<lambda>ids x. if fst x = d \<and> snd x \<notin> set ids then ids @ [snd x] else ids) acc ss) a
       (map (\<lambda>j. map (\<lambda>s. (screen s, step_id s)) (steps j)) js)"
  by (induction js arbitrary: a) (simp_all add: resolve_steps_map)

lemma resolveNext_cong:
  assumes "stepFrame (\<lambda>s. (screen s, step_id s)) g = stepFrame (\<lambda>s. (screen s, step_id s)) g'"
  shows "resolveNext parsed g = resolveNext parsed g'"
  using assms unfolding resolveNext_def resolve_journeys_map stepFrame_def by simp

lemma stepFrame_updateStep:
  assumes "\<And>s. k (f s) = k s"
  shows "stepFrame k (updateStep defs ji si f) = stepFrame k defs"
proof -
  let ?js = "journeys defs"
  let ?J = "(?js ! ji)\<lparr> steps := (steps (?js ! ji))[si := f (steps (?js ! ji) ! si)] \<rparr>"
  let ?F = "\<lambda>j. map k (steps j)"
  have a: "map k ((steps (?js ! ji))[si := f (steps (?js ! ji) ! si)]) = map k (steps (?js ! ji))"
    by (simp add: map_update assms map_update_same)
  have b: "?F ?J = ?F (?js ! ji)" using a by simp
  have "map ?F (?js[ji := ?J]) = (map ?F ?js)[ji := ?F ?J]" by (rule map_update)
  also have "\<dots> = (map ?F ?js)[ji := ?F (?js ! ji)]" by (simp only: b)
  also have "\<dots> = map ?F ?js" by (rule map_update_same)
  finally show ?thesis by (simp add: stepFrame_def updateStep_def)
qed

lemma journey_ids_updateStep:
  "map journey_id (journeys (updateStep defs ji si f)) = map journey_id (journeys defs)"
proof -
  let ?js = "journeys defs"
  have "map journey_id (?js[ji := (?js ! ji)\<lparr> steps := (steps (?js ! ji))[si := f (steps (?js ! ji) ! si)] \<rparr>])
        = (map journey_id ?js)[ji := journey_id (?js ! ji)]"
    by (simp add: map_update)
  also have "\<dots> = map journey_id ?js" by (rule map_update_same)
  finally show ?thesis by (simp add: updateStep_def)
qed

lemma stepFrame_length:
  assumes "stepFrame k g = stepFrame k g0"
  shows "length (journeys g) = length (journeys g0)"
  using assms unfolding stepFrame_def by (rule map_eq_imp_length_eq)

lemma stepFrame_steps_length:
  assumes "stepFrame k g = stepFrame k g0" "ji < length (journeys g0)"
  shows "length (steps (journeys g ! ji)) = length (steps (journeys g0 ! ji))"
proof -
  have l: "ji < length (journeys g)" using stepFrame_length[OF assms(1)] assms(2) by simp
  have "stepFrame k g ! ji = stepFrame k g0 ! ji" using assms(1) by simp
  then have "map k (steps (journeys g ! ji)) = map k (steps (journeys g0 ! ji))"
    using l assms(2) by (simp add: stepFrame_def)
  then show ?thesis by (rule map_eq_imp_length_eq)
qed

lemma stepFrame_nth:
  assumes "stepFrame k g = stepFrame k g0" "ji < length (journeys g0)"
    "si < length (steps (journeys g0 ! ji))"
  shows "k (stepAt g ji si) = k (stepAt g0 ji si)"
proof -
  have l: "ji < length (journeys g)" using stepFrame_length[OF assms(1)] assms(2) by simp
  have l2: "si < length (steps (journeys g ! ji))"
    using stepFrame_steps_length[OF assms(1,2)] assms(3) by simp
  have "stepFrame k g ! ji = stepFrame k g0 ! ji" using assms(1) by simp
  then have "map k (steps (journeys g ! ji)) = map k (steps (journeys g0 ! ji))"
    using l assms(2) by (simp add: stepFrame_def)
  then have "map k (steps (journeys g ! ji)) ! si = map k (steps (journeys g0 ! ji)) ! si" by simp
  then show ?thesis using l2 assms(3) by (simp add: stepAt_def)
qed

lemma journey_ids_nth:
  assumes "map journey_id (journeys g) = map journey_id (journeys g0)" "ji < length (journeys g0)"
  shows "journey_id (journeys g ! ji) = journey_id (journeys g0 ! ji)"
proof -
  have l: "ji < length (journeys g)" using map_eq_imp_length_eq[OF assms(1)] assms(2) by simp
  have "map journey_id (journeys g) ! ji = map journey_id (journeys g0) ! ji" using assms(1) by simp
  then show ?thesis using l assms(2) by simp
qed

lemma tracker_unique:
  assumes "findStepByFile g p = Some (ji, si)" "findStepByFile g q = Some (ji, si)"
  shows "p = q"
  using findStepByFile_Some[OF assms(1)] findStepByFile_Some[OF assms(2)] by simp

subsection \<open>The loop over the removed files\<close>

lemma removalRecord_sel:
  "action (removalRecord g p ji si) = ''deprecate''"
  "detail (removalRecord g p ji si) = ''Marked deprecated (file removed: '' @ p @ '')''"
  by (simp_all add: removalRecord_def)

lemma removal_detail_inj:
  "(''Marked deprecated (file removed: '' @ p @ '')'' = ''Marked deprecated (file removed: '' @ q @ '')'')
     \<longleftrightarrow> p = q"
  by simp

lemma removalInv_find:
  assumes "removalInv g0 ps g new"
  shows "findStepByFile g p = findStepByFile g0 p"
proof -
  have "stepFrame (\<lambda>s. s\<lparr> deprecated := None \<rparr>) g = stepFrame (\<lambda>s. s\<lparr> deprecated := None \<rparr>) g0"
    using assms by (simp add: removalInv_def)
  then have "stepFrame swiftFile g = stepFrame swiftFile g0"
    by (rule stepFrame_weaken[where h' = swiftFile]) simp
  then show ?thesis by (rule findStepByFile_cong)
qed

lemma removeFile_inv:
  assumes inv: "removalInv g0 ps g new"
  shows "\<exists>g' new'. removeFile (g, chs0 @ new, rc) p = (g', chs0 @ new', rc)
                    \<and> removalInv g0 (ps @ [p]) g' new'"
proof (cases "findStepByFile g0 p")
  case None
  have fg: "findStepByFile g p = None" using removalInv_find[OF inv] None by simp
  have r: "removeFile (g, chs0 @ new, rc) p = (g, chs0 @ new, rc)"
    by (simp add: removeFile_def fg)
  have "removalInv g0 (ps @ [p]) g new"
    using inv None unfolding removalInv_def by auto
  with r show ?thesis by blast
next
  case (Some pos)
  obtain ji si where pos: "pos = (ji, si)" by (cases pos) auto
  have f0: "findStepByFile g0 p = Some (ji, si)" using Some pos by simp
  have fg: "findStepByFile g p = Some (ji, si)" using removalInv_find[OF inv] f0 by simp
  note v0 = findStepByFile_Some[OF f0]
  note vg = findStepByFile_Some[OF fg]
  have uniq: "\<And>q. findStepByFile g0 q = Some (ji, si) \<Longrightarrow> q = p"
    using tracker_unique[OF _ f0] by blast
  have other: "\<And>q i k. findStepByFile g0 q = Some (i, k) \<Longrightarrow> (i, k) \<noteq> (ji, si) \<Longrightarrow> q \<noteq> p"
    using f0 by auto
  have fr: "stepFrame (\<lambda>s. s\<lparr> deprecated := None \<rparr>) g = stepFrame (\<lambda>s. s\<lparr> deprecated := None \<rparr>) g0"
    and ids: "map journey_id (journeys g) = map journey_id (journeys g0)"
    and dep: "\<And>i k. deprecated (stepAt g i k) =
            (if (\<exists>q \<in> set ps. findStepByFile g0 q = Some (i, k))
                 \<and> \<not> truthy (deprecated (stepAt g0 i k))
             then Some True else deprecated (stepAt g0 i k))"
    and act: "\<forall>r \<in> set new. action r = ''deprecate''"
    and rec: "\<And>q i k. findStepByFile g0 q = Some (i, k) \<Longrightarrow>
            filter (\<lambda>r. detail r = ''Marked deprecated (file removed: '' @ q @ '')'') new =
              (if q \<in> set ps \<and> \<not> truthy (deprecated (stepAt g0 i k))
               then [removalRecord g0 q i k] else [])"
    and norec: "\<And>q. findStepByFile g0 q = None \<Longrightarrow>
            filter (\<lambda>r. detail r = ''Marked deprecated (file removed: '' @ q @ '')'') new = []"
    using inv unfolding removalInv_def by blast+
  have hit: "(\<exists>q \<in> set ps. findStepByFile g0 q = Some (ji, si)) \<longleftrightarrow> p \<in> set ps"
    using uniq f0 by blast
  have depg: "deprecated (stepAt g ji si) =
            (if p \<in> set ps \<and> \<not> truthy (deprecated (stepAt g0 ji si))
             then Some True else deprecated (stepAt g0 ji si))"
    using dep[of ji si] hit by simp
  show ?thesis
  proof (cases "truthy (deprecated (stepAt g ji si))")
    case True
    have r: "removeFile (g, chs0 @ new, rc) p = (g, chs0 @ new, rc)"
      using True by (simp add: removeFile_def fg Let_def stepAt_def)
    have live_in: "\<not> truthy (deprecated (stepAt g0 ji si)) \<Longrightarrow> p \<in> set ps"
      using True depg by (auto split: if_splits)
    have d': "\<And>i k. deprecated (stepAt g i k) =
            (if (\<exists>q \<in> set (ps @ [p]). findStepByFile g0 q = Some (i, k))
                 \<and> \<not> truthy (deprecated (stepAt g0 i k))
             then Some True else deprecated (stepAt g0 i k))"
    proof -
      fix i k
      show "deprecated (stepAt g i k) =
            (if (\<exists>q \<in> set (ps @ [p]). findStepByFile g0 q = Some (i, k))
                 \<and> \<not> truthy (deprecated (stepAt g0 i k))
             then Some True else deprecated (stepAt g0 i k))"
      proof (cases "(i, k) = (ji, si)")
        case True
        then show ?thesis using depg live_in f0 by auto
      next
        case False
        then have "(\<exists>q \<in> set (ps @ [p]). findStepByFile g0 q = Some (i, k))
                   \<longleftrightarrow> (\<exists>q \<in> set ps. findStepByFile g0 q = Some (i, k))"
          using f0 by auto
        then show ?thesis using dep[of i k] by simp
      qed
    qed
    have rec': "\<And>q i k. findStepByFile g0 q = Some (i, k) \<Longrightarrow>
            filter (\<lambda>r. detail r = ''Marked deprecated (file removed: '' @ q @ '')'') new =
              (if q \<in> set (ps @ [p]) \<and> \<not> truthy (deprecated (stepAt g0 i k))
               then [removalRecord g0 q i k] else [])"
    proof -
      fix q i k
      assume q: "findStepByFile g0 q = Some (i, k)"
      show "filter (\<lambda>r. detail r = ''Marked deprecated (file removed: '' @ q @ '')'') new =
              (if q \<in> set (ps @ [p]) \<and> \<not> truthy (deprecated (stepAt g0 i k))
               then [removalRecord g0 q i k] else [])"
      proof (cases "q = p")
        case True
        with q f0 have ik: "i = ji" "k = si" by simp_all
        show ?thesis using rec[OF q] live_in True ik by auto
      next
        case False
        then show ?thesis using rec[OF q] by simp
      qed
    qed
    have "removalInv g0 (ps @ [p]) g new"
      unfolding removalInv_def using fr ids d' act rec' norec by blast
    with r show ?thesis by blast
  next
    case False
    have notin: "p \<notin> set ps" using False depg by (auto simp: truthy_def split: if_splits)
    have live0: "\<not> truthy (deprecated (stepAt g0 ji si))"
      using False depg notin by simp
    let ?g' = "updateStep g ji si (\<lambda>s. s\<lparr> deprecated := Some True \<rparr>)"
    let ?r = "removalRecord g0 p ji si"
    have jid: "journey_id (journeys g ! ji) = journey_id (journeys g0 ! ji)"
      using journey_ids_nth[OF ids] v0 by simp
    have "(stepAt g ji si)\<lparr> deprecated := None \<rparr> = (stepAt g0 ji si)\<lparr> deprecated := None \<rparr>"
      using stepFrame_nth[OF fr] v0 by simp
    then have "step_id ((stepAt g ji si)\<lparr> deprecated := None \<rparr>)
             = step_id ((stepAt g0 ji si)\<lparr> deprecated := None \<rparr>)" by (rule arg_cong)
    then have sid: "step_id (steps (journeys g ! ji) ! si) = step_id (stepAt g0 ji si)"
      by (simp add: stepAt_def)
    have r: "removeFile (g, chs0 @ new, rc) p = (?g', chs0 @ (new @ [?r]), rc)"
      using False by (simp add: removeFile_def fg Let_def stepAt_def removalRecord_def jid sid)
    have fr': "stepFrame (\<lambda>s. s\<lparr> deprecated := None \<rparr>) ?g' = stepFrame (\<lambda>s. s\<lparr> deprecated := None \<rparr>) g0"
      using fr by (simp add: stepFrame_updateStep)
    have ids': "map journey_id (journeys ?g') = map journey_id (journeys g0)"
      using ids by (simp add: journey_ids_updateStep)
    have d': "\<And>i k. deprecated (stepAt ?g' i k) =
            (if (\<exists>q \<in> set (ps @ [p]). findStepByFile g0 q = Some (i, k))
                 \<and> \<not> truthy (deprecated (stepAt g0 i k))
             then Some True else deprecated (stepAt g0 i k))"
    proof -
      fix i k
      show "deprecated (stepAt ?g' i k) =
            (if (\<exists>q \<in> set (ps @ [p]). findStepByFile g0 q = Some (i, k))
                 \<and> \<not> truthy (deprecated (stepAt g0 i k))
             then Some True else deprecated (stepAt g0 i k))"
      proof (cases "(i, k) = (ji, si)")
        case True
        have "stepAt ?g' ji si = (stepAt g ji si)\<lparr> deprecated := Some True \<rparr>"
          unfolding stepAt_def using vg by (simp add: updateStep_nth)
        then show ?thesis using True live0 f0 by auto
      next
        case False
        have "stepAt ?g' i k = stepAt g i k"
          unfolding stepAt_def using False by (rule updateStep_other)
        moreover have "(\<exists>q \<in> set (ps @ [p]). findStepByFile g0 q = Some (i, k))
                   \<longleftrightarrow> (\<exists>q \<in> set ps. findStepByFile g0 q = Some (i, k))"
          using f0 False by auto
        ultimately show ?thesis using dep[of i k] by simp
      qed
    qed
    have act': "\<forall>r \<in> set (new @ [?r]). action r = ''deprecate''"
      using act by (simp add: removalRecord_sel)
    have rec': "\<And>q i k. findStepByFile g0 q = Some (i, k) \<Longrightarrow>
            filter (\<lambda>r. detail r = ''Marked deprecated (file removed: '' @ q @ '')'') (new @ [?r]) =
              (if q \<in> set (ps @ [p]) \<and> \<not> truthy (deprecated (stepAt g0 i k))
               then [removalRecord g0 q i k] else [])"
    proof -
      fix q i k
      assume q: "findStepByFile g0 q = Some (i, k)"
      show "filter (\<lambda>r. detail r = ''Marked deprecated (file removed: '' @ q @ '')'') (new @ [?r]) =
              (if q \<in> set (ps @ [p]) \<and> \<not> truthy (deprecated (stepAt g0 i k))
               then [removalRecord g0 q i k] else [])"
      proof (cases "q = p")
        case True
        with q f0 have ik: "i = ji" "k = si" by simp_all
        have "filter (\<lambda>r. detail r = ''Marked deprecated (file removed: '' @ p @ '')'') new = []"
          using rec[OF f0] notin by simp
        then show ?thesis using True ik live0 by (simp add: removalRecord_sel)
      next
        case False
        then show ?thesis using rec[OF q] by (simp add: removalRecord_sel)
      qed
    qed
    have norec': "\<And>q. findStepByFile g0 q = None \<Longrightarrow>
            filter (\<lambda>r. detail r = ''Marked deprecated (file removed: '' @ q @ '')'') (new @ [?r]) = []"
    proof -
      fix q
      assume q: "findStepByFile g0 q = None"
      then have "q \<noteq> p" using f0 by auto
      then show "filter (\<lambda>r. detail r = ''Marked deprecated (file removed: '' @ q @ '')'') (new @ [?r]) = []"
        using norec[OF q] by (simp add: removalRecord_sel)
    qed
    have "removalInv g0 (ps @ [p]) ?g' (new @ [?r])"
      unfolding removalInv_def using fr' ids' d' act' rec' norec' by blast
    with r show ?thesis by blast
  qed
qed

lemma removalInv_start: "removalInv g0 [] g0 []"
  by (simp add: removalInv_def)

lemma removeLoop:
  "\<exists>g new. foldl removeFile (g0, chs0, rc) ps = (g, chs0 @ new, rc) \<and> removalInv g0 ps g new"
proof (induction ps rule: rev_induct)
  case Nil
  show ?case using removalInv_start by simp
next
  case (snoc p ps)
  then obtain g new where st: "foldl removeFile (g0, chs0, rc) ps = (g, chs0 @ new, rc)"
    and inv: "removalInv g0 ps g new" by blast
  from removeFile_inv[OF inv, of chs0 rc p] st show ?case by simp
qed

subsection \<open>The loop over the modified files\<close>

lemma map_filter_snoc:
  "List.map_filter f (xs @ [x]) = List.map_filter f xs @ (case f x of None \<Rightarrow> [] | Some y \<Rightarrow> [y])"
  by (cases "f x") (simp_all add: List.map_filter_def)

lemma modifyInv_frames:
  assumes "modifyInv bp g0 ps g new"
  shows "findStepByFile g p = findStepByFile g0 p"
    and "resolveNext parsed g = resolveNext parsed g0"
proof -
  have fr: "stepFrame (\<lambda>s. s\<lparr> step_next := [], edgeLabels := None \<rparr>) g
        = stepFrame (\<lambda>s. s\<lparr> step_next := [], edgeLabels := None \<rparr>) g0"
    using assms by (simp add: modifyInv_def)
  have "stepFrame swiftFile g = stepFrame swiftFile g0"
    by (rule stepFrame_weaken[OF fr, where h' = swiftFile]) simp
  then show "findStepByFile g p = findStepByFile g0 p" by (rule findStepByFile_cong)
  have "stepFrame (\<lambda>s. (screen s, step_id s)) g = stepFrame (\<lambda>s. (screen s, step_id s)) g0"
    by (rule stepFrame_weaken[OF fr, where h' = "\<lambda>s. (screen s, step_id s)"]) simp
  then show "resolveNext parsed g = resolveNext parsed g0" by (rule resolveNext_cong)
qed

lemma modifyInv_skip:
  assumes inv: "modifyInv bp g0 ps g new"
    and skip: "bp p = None \<or> findStepByFile g0 p = None"
  shows "modifyInv bp g0 (ps @ [p]) g new"
proof -
  have eu: "edgeUpdate bp g0 p = None"
    using skip by (auto simp: edgeUpdate_def split: option.splits)
  have n: "new = List.map_filter (edgeUpdate bp g0) (firstOccurrences (ps @ [p]))"
    using inv eu by (simp add: modifyInv_def firstOccurrences_snoc map_filter_snoc)
  have a: "\<forall>q parsed ji si.
            q \<in> set (ps @ [p]) \<and> bp q = Some parsed \<and> findStepByFile g0 q = Some (ji, si) \<longrightarrow>
            step_next (stepAt g ji si) = resolveNext parsed g0
            \<and> edgeLabels (stepAt g ji si)
                = (if step_next (stepAt g0 ji si) = resolveNext parsed g0
                   then edgeLabels (stepAt g0 ji si)
                   else trimEdgeLabels (length (resolveNext parsed g0)) (edgeLabels (stepAt g0 ji si)))"
    using inv skip unfolding modifyInv_def by auto
  have b: "\<forall>ji si. (\<forall>q \<in> set (ps @ [p]). bp q = None \<or> findStepByFile g0 q \<noteq> Some (ji, si)) \<longrightarrow>
            step_next (stepAt g ji si) = step_next (stepAt g0 ji si)
            \<and> edgeLabels (stepAt g ji si) = edgeLabels (stepAt g0 ji si)"
    using inv unfolding modifyInv_def by auto
  show ?thesis unfolding modifyInv_def using inv a b n by (simp add: modifyInv_def)
qed

lemma modifyFile_inv:
  assumes inv: "modifyInv bp g0 ps g new"
  shows "\<exists>g' new'. modifyFile bp (g, chs0 @ new, rc) f = (g', chs0 @ new', rc)
                    \<and> modifyInv bp g0 (ps @ [path f]) g' new'"
proof (cases "bp (path f)")
  case None
  have r: "modifyFile bp (g, chs0 @ new, rc) f = (g, chs0 @ new, rc)"
    by (simp add: modifyFile_def None)
  from modifyInv_skip[OF inv, of "path f"] None r show ?thesis by blast
next
  case (Some parsed)
  note bpp = Some
  show ?thesis
  proof (cases "findStepByFile g0 (path f)")
    case None
    have fg: "findStepByFile g (path f) = None" using modifyInv_frames(1)[OF inv] None by simp
    have r: "modifyFile bp (g, chs0 @ new, rc) f = (g, chs0 @ new, rc)"
      by (simp add: modifyFile_def bpp fg)
    from modifyInv_skip[OF inv, of "path f"] None r show ?thesis by blast
  next
    case (Some pos)
    obtain ji si where pos: "pos = (ji, si)" by (cases pos) auto
    let ?p = "path f"
    let ?new = "resolveNext parsed g0"
    have f0: "findStepByFile g0 ?p = Some (ji, si)" using Some pos by simp
    have fg: "findStepByFile g ?p = Some (ji, si)" using modifyInv_frames(1)[OF inv] f0 by simp
    have res: "resolveNext parsed g = ?new" by (rule modifyInv_frames(2)[OF inv])
    note v0 = findStepByFile_Some[OF f0]
    note vg = findStepByFile_Some[OF fg]
    have fr: "stepFrame (\<lambda>s. s\<lparr> step_next := [], edgeLabels := None \<rparr>) g
        = stepFrame (\<lambda>s. s\<lparr> step_next := [], edgeLabels := None \<rparr>) g0"
      and ids: "map journey_id (journeys g) = map journey_id (journeys g0)"
      and hitI: "\<And>q pq i k. q \<in> set ps \<Longrightarrow> bp q = Some pq \<Longrightarrow> findStepByFile g0 q = Some (i, k) \<Longrightarrow>
            step_next (stepAt g i k) = resolveNext pq g0
            \<and> edgeLabels (stepAt g i k)
                = (if step_next (stepAt g0 i k) = resolveNext pq g0
                   then edgeLabels (stepAt g0 i k)
                   else trimEdgeLabels (length (resolveNext pq g0)) (edgeLabels (stepAt g0 i k)))"
      and missI: "\<And>i k. (\<forall>q \<in> set ps. bp q = None \<or> findStepByFile g0 q \<noteq> Some (i, k)) \<Longrightarrow>
            step_next (stepAt g i k) = step_next (stepAt g0 i k)
            \<and> edgeLabels (stepAt g i k) = edgeLabels (stepAt g0 i k)"
      and recs: "new = List.map_filter (edgeUpdate bp g0) (firstOccurrences ps)"
      using inv unfolding modifyInv_def by blast+
    have uniq: "\<And>q. findStepByFile g0 q = Some (ji, si) \<Longrightarrow> q = ?p"
      using tracker_unique[OF _ f0] by blast
    show ?thesis
    proof (cases "step_next (stepAt g ji si) = ?new")
      case True
      have r: "modifyFile bp (g, chs0 @ new, rc) f = (g, chs0 @ new, rc)"
        using True by (simp add: modifyFile_def bpp fg Let_def stepAt_def res)
      have same0: "?p \<notin> set ps \<Longrightarrow> step_next (stepAt g0 ji si) = ?new
                     \<and> edgeLabels (stepAt g ji si) = edgeLabels (stepAt g0 ji si)"
      proof -
        assume np: "?p \<notin> set ps"
        then have "\<forall>q \<in> set ps. bp q = None \<or> findStepByFile g0 q \<noteq> Some (ji, si)"
          using uniq by blast
        from missI[OF this] True show ?thesis by simp
      qed
      have eu: "?p \<notin> set ps \<Longrightarrow> edgeUpdate bp g0 ?p = None"
        using same0 by (simp add: edgeUpdate_def bpp f0)
      have n: "new = List.map_filter (edgeUpdate bp g0) (firstOccurrences (ps @ [?p]))"
        using recs eu by (simp add: firstOccurrences_snoc map_filter_snoc)
      have a: "\<forall>q pq i k.
            q \<in> set (ps @ [?p]) \<and> bp q = Some pq \<and> findStepByFile g0 q = Some (i, k) \<longrightarrow>
            step_next (stepAt g i k) = resolveNext pq g0
            \<and> edgeLabels (stepAt g i k)
                = (if step_next (stepAt g0 i k) = resolveNext pq g0
                   then edgeLabels (stepAt g0 i k)
                   else trimEdgeLabels (length (resolveNext pq g0)) (edgeLabels (stepAt g0 i k)))"
      proof (intro allI impI)
        fix q pq i k
        assume h: "q \<in> set (ps @ [?p]) \<and> bp q = Some pq \<and> findStepByFile g0 q = Some (i, k)"
        show "step_next (stepAt g i k) = resolveNext pq g0
            \<and> edgeLabels (stepAt g i k)
                = (if step_next (stepAt g0 i k) = resolveNext pq g0
                   then edgeLabels (stepAt g0 i k)
                   else trimEdgeLabels (length (resolveNext pq g0)) (edgeLabels (stepAt g0 i k)))"
        proof (cases "q \<in> set ps")
          case True
          then show ?thesis using hitI h by blast
        next
          case False
          with h have q: "q = ?p" by simp
          with h bpp f0 have e: "pq = parsed" "i = ji" "k = si" by simp_all
          show ?thesis using same0 False q e True by simp
        qed
      qed
      have b: "\<forall>i k. (\<forall>q \<in> set (ps @ [?p]). bp q = None \<or> findStepByFile g0 q \<noteq> Some (i, k)) \<longrightarrow>
            step_next (stepAt g i k) = step_next (stepAt g0 i k)
            \<and> edgeLabels (stepAt g i k) = edgeLabels (stepAt g0 i k)"
        using missI by simp
      have "modifyInv bp g0 (ps @ [?p]) g new"
        unfolding modifyInv_def using fr ids a b n by blast
      with r show ?thesis by blast
    next
      case False
      have np: "?p \<notin> set ps"
      proof
        assume "?p \<in> set ps"
        from hitI[OF this bpp f0] False show False by simp
      qed
      then have "\<forall>q \<in> set ps. bp q = None \<or> findStepByFile g0 q \<noteq> Some (ji, si)"
        using uniq by blast
      from missI[OF this] have old: "step_next (stepAt g ji si) = step_next (stepAt g0 ji si)"
        "edgeLabels (stepAt g ji si) = edgeLabels (stepAt g0 ji si)" by simp_all
      have ch0: "step_next (stepAt g0 ji si) \<noteq> ?new" using False old by simp
      let ?upd = "\<lambda>s. s\<lparr> step_next := ?new,
                         edgeLabels := trimEdgeLabels (length ?new) (edgeLabels s) \<rparr>"
      let ?g' = "updateStep g ji si ?upd"
      have jid: "journey_id (journeys g ! ji) = journey_id (journeys g0 ! ji)"
        using journey_ids_nth[OF ids] v0 by simp
      have "(stepAt g ji si)\<lparr> step_next := [], edgeLabels := None \<rparr>
              = (stepAt g0 ji si)\<lparr> step_next := [], edgeLabels := None \<rparr>"
        using stepFrame_nth[OF fr] v0 by simp
      then have "step_id ((stepAt g ji si)\<lparr> step_next := [], edgeLabels := None \<rparr>)
               = step_id ((stepAt g0 ji si)\<lparr> step_next := [], edgeLabels := None \<rparr>)"
        by (rule arg_cong)
      then have sid: "step_id (stepAt g ji si) = step_id (stepAt g0 ji si)" by simp
      obtain rcd where eu: "edgeUpdate bp g0 ?p = Some rcd"
        and rcd: "rcd = \<lparr> action = ''update-edges'', journeyId = journey_id (journeys g ! ji),
                         stepId = step_id (stepAt g ji si),
                         detail = ''Updated next[] from '' @ jsonStringArray (step_next (stepAt g ji si))
                                  @ '' to '' @ jsonStringArray ?new \<rparr>"
        using ch0 by (simp add: edgeUpdate_def bpp f0 jid sid old)
      have ne: "jsonStringArray (step_next (stepAt g ji si)) \<noteq> jsonStringArray ?new"
        using False by (simp add: jsonStringArray_inj)
      have r: "modifyFile bp (g, chs0 @ new, rc) f = (?g', chs0 @ (new @ [rcd]), rc)"
        using ne unfolding rcd stepAt_def by (simp add: modifyFile_def bpp fg Let_def res)
      have n: "new @ [rcd] = List.map_filter (edgeUpdate bp g0) (firstOccurrences (ps @ [?p]))"
        using recs eu np by (simp add: firstOccurrences_snoc map_filter_snoc)
      have fr': "stepFrame (\<lambda>s. s\<lparr> step_next := [], edgeLabels := None \<rparr>) ?g'
        = stepFrame (\<lambda>s. s\<lparr> step_next := [], edgeLabels := None \<rparr>) g0"
        using fr by (simp add: stepFrame_updateStep)
      have ids': "map journey_id (journeys ?g') = map journey_id (journeys g0)"
        using ids by (simp add: journey_ids_updateStep)
      have at: "stepAt ?g' ji si = ?upd (stepAt g ji si)"
        unfolding stepAt_def using vg by (simp add: updateStep_nth)
      have oth: "\<And>i k. (i, k) \<noteq> (ji, si) \<Longrightarrow> stepAt ?g' i k = stepAt g i k"
        unfolding stepAt_def by (rule updateStep_other)
      have a: "\<forall>q pq i k.
            q \<in> set (ps @ [?p]) \<and> bp q = Some pq \<and> findStepByFile g0 q = Some (i, k) \<longrightarrow>
            step_next (stepAt ?g' i k) = resolveNext pq g0
            \<and> edgeLabels (stepAt ?g' i k)
                = (if step_next (stepAt g0 i k) = resolveNext pq g0
                   then edgeLabels (stepAt g0 i k)
                   else trimEdgeLabels (length (resolveNext pq g0)) (edgeLabels (stepAt g0 i k)))"
      proof (intro allI impI)
        fix q pq i k
        assume h: "q \<in> set (ps @ [?p]) \<and> bp q = Some pq \<and> findStepByFile g0 q = Some (i, k)"
        show "step_next (stepAt ?g' i k) = resolveNext pq g0
            \<and> edgeLabels (stepAt ?g' i k)
                = (if step_next (stepAt g0 i k) = resolveNext pq g0
                   then edgeLabels (stepAt g0 i k)
                   else trimEdgeLabels (length (resolveNext pq g0)) (edgeLabels (stepAt g0 i k)))"
        proof (cases "q = ?p")
          case True
          with h bpp f0 have e: "pq = parsed" "i = ji" "k = si" by simp_all
          show ?thesis unfolding e at using ch0 old by simp
        next
          case False
          with h have qin: "q \<in> set ps" by simp
          have "(i, k) \<noteq> (ji, si)" using uniq h False by auto
          from oth[OF this] hitI[OF qin] h show ?thesis by simp
        qed
      qed
      have b: "\<forall>i k. (\<forall>q \<in> set (ps @ [?p]). bp q = None \<or> findStepByFile g0 q \<noteq> Some (i, k)) \<longrightarrow>
            step_next (stepAt ?g' i k) = step_next (stepAt g0 i k)
            \<and> edgeLabels (stepAt ?g' i k) = edgeLabels (stepAt g0 i k)"
      proof (intro allI impI)
        fix i k
        assume h: "\<forall>q \<in> set (ps @ [?p]). bp q = None \<or> findStepByFile g0 q \<noteq> Some (i, k)"
        then have "(i, k) \<noteq> (ji, si)" using bpp f0 by auto
        from oth[OF this] missI[of i k] h
        show "step_next (stepAt ?g' i k) = step_next (stepAt g0 i k)
            \<and> edgeLabels (stepAt ?g' i k) = edgeLabels (stepAt g0 i k)" by simp
      qed
      have "modifyInv bp g0 (ps @ [?p]) ?g' (new @ [rcd])"
        unfolding modifyInv_def using fr' ids' a b n by blast
      with r show ?thesis by blast
    qed
  qed
qed

lemma modifyInv_start: "modifyInv bp g0 [] g0 []"
  by (simp add: modifyInv_def firstOccurrences_def List.map_filter_def)

lemma modifyLoop:
  "\<exists>g new. foldl (modifyFile bp) (g0, chs0, rc) fs = (g, chs0 @ new, rc)
            \<and> modifyInv bp g0 (map path fs) g new"
proof (induction fs rule: rev_induct)
  case Nil
  show ?case using modifyInv_start by simp
next
  case (snoc f fs)
  then obtain g new where st: "foldl (modifyFile bp) (g0, chs0, rc) fs = (g, chs0 @ new, rc)"
    and inv: "modifyInv bp g0 (map path fs) g new" by blast
  from modifyFile_inv[OF inv, of chs0 rc f] st show ?case by simp
qed

subsection \<open>The loop over the added files, and the three loops in a row\<close>

lemma extendsGraph_refl: "extendsGraph g g"
  by (simp add: extendsGraph_def)

lemma extendsGraph_trans:
  assumes "extendsGraph g0 g1" "extendsGraph g1 g2"
  shows "extendsGraph g0 g2"
proof -
  have l: "length (journeys g0) \<le> length (journeys g2)"
    using assms by (simp add: extendsGraph_def)
  have n: "\<forall>ji < length (journeys g0).
            journey_id (journeys g2 ! ji) = journey_id (journeys g0 ! ji)
            \<and> prefix (steps (journeys g0 ! ji)) (steps (journeys g2 ! ji))"
  proof (intro allI impI)
    fix ji assume a: "ji < length (journeys g0)"
    then have b: "ji < length (journeys g1)" using assms(1) by (simp add: extendsGraph_def)
    from a assms(1) have c: "journey_id (journeys g1 ! ji) = journey_id (journeys g0 ! ji)"
      "prefix (steps (journeys g0 ! ji)) (steps (journeys g1 ! ji))"
      by (simp_all add: extendsGraph_def)
    from b assms(2) have d: "journey_id (journeys g2 ! ji) = journey_id (journeys g1 ! ji)"
      "prefix (steps (journeys g1 ! ji)) (steps (journeys g2 ! ji))"
      by (simp_all add: extendsGraph_def)
    show "journey_id (journeys g2 ! ji) = journey_id (journeys g0 ! ji)
            \<and> prefix (steps (journeys g0 ! ji)) (steps (journeys g2 ! ji))"
      using c d prefix_order.order_trans by auto
  qed
  have f: "\<forall>p. findStepByFile g0 p \<noteq> None \<longrightarrow> findStepByFile g2 p = findStepByFile g0 p"
    using assms by (simp add: extendsGraph_def)
  show ?thesis unfolding extendsGraph_def using l n f by blast
qed

lemma findIndex_snoc_not: "\<not> P x \<Longrightarrow> findIndex P (xs @ [x]) = findIndex P xs"
  by (induction xs) simp_all

lemma findStepIn_snoc:
  assumes "\<forall>s \<in> set (steps j). swiftFile s \<noteq> Some p"
  shows "findStepIn (js @ [j]) p = findStepIn js p"
proof (induction js)
  case Nil
  have "findIndex (\<lambda>step. swiftFile step = Some p) (steps j) = None"
    using assms by (simp add: findIndex_None)
  then show ?case by simp
next
  case (Cons a js)
  then show ?case by (simp split: option.splits)
qed

lemma findStepIn_push:
  assumes "swiftFile s \<noteq> Some p"
  shows "ji < length js \<Longrightarrow>
         findStepIn (js[ji := (js ! ji)\<lparr> steps := steps (js ! ji) @ [s] \<rparr>]) p = findStepIn js p"
proof (induction js arbitrary: ji)
  case Nil
  then show ?case by simp
next
  case (Cons a js)
  show ?case
  proof (cases ji)
    case 0
    then show ?thesis using assms by (simp add: findIndex_snoc_not)
  next
    case (Suc k)
    with Cons.prems have "k < length js" by simp
    from Cons.IH[OF this] Suc show ?thesis by (simp split: option.splits)
  qed
qed

lemma extendsGraph_ensureJourney: "extendsGraph defs (fst (ensureJourney defs jid))"
proof (cases "findIndex (\<lambda>j. journey_id j = jid) (journeys defs)")
  case None
  have f: "findStepByFile (defs\<lparr> journeys := journeys defs @ [newJourney jid] \<rparr>) p = findStepByFile defs p"
    for p
    by (simp add: findStepByFile_def findStepIn_snoc newJourney_def)
  show ?thesis
    by (simp add: ensureJourney_def None extendsGraph_def f nth_append)
next
  case (Some i)
  then show ?thesis by (simp add: ensureJourney_def extendsGraph_refl)
qed

lemma findStepByFile_ensureJourney:
  "findStepByFile (fst (ensureJourney defs jid)) p = findStepByFile defs p"
  by (cases "findIndex (\<lambda>j. journey_id j = jid) (journeys defs)")
     (simp_all add: ensureJourney_def findStepByFile_def findStepIn_snoc newJourney_def)

lemma extendsGraph_pushStep:
  assumes "ji < length (journeys d)" "swiftFile s = Some q" "findStepByFile d q = None"
  shows "extendsGraph d (pushStep d ji s)"
proof -
  have j: "journeys (pushStep d ji s)
     = (journeys d)[ji := (journeys d ! ji)\<lparr> steps := steps (journeys d ! ji) @ [s] \<rparr>]"
    by (simp add: pushStep_def)
  have f: "findStepByFile d p \<noteq> None \<longrightarrow> findStepByFile (pushStep d ji s) p = findStepByFile d p" for p
  proof
    assume "findStepByFile d p \<noteq> None"
    then have "p \<noteq> q" using assms(3) by auto
    then have "swiftFile s \<noteq> Some p" using assms(2) by simp
    from findStepIn_push[OF this assms(1)] show "findStepByFile (pushStep d ji s) p = findStepByFile d p"
      by (simp add: findStepByFile_def j)
  qed
  have n: "\<forall>i < length (journeys d).
            journey_id (journeys (pushStep d ji s) ! i) = journey_id (journeys d ! i)
            \<and> prefix (steps (journeys d ! i)) (steps (journeys (pushStep d ji s) ! i))"
    by (simp add: j nth_list_update_if)
  have l: "length (journeys d) \<le> length (journeys (pushStep d ji s))" by (simp add: j)
  show ?thesis unfolding extendsGraph_def using l n f by blast
qed

lemma addNewFile_extends:
  "\<exists>g new rc'. addNewFile bp (defs, chs, rc) f = (g, chs @ new, rc')
       \<and> extendsGraph defs g \<and> (\<forall>r \<in> set new. action r = ''add'')"
proof (cases "bp (path f)")
  case None
  then have "addNewFile bp (defs, chs, rc) f = (defs, chs @ [], rc)" by (simp add: addNewFile_def)
  then show ?thesis using extendsGraph_refl by fastforce
next
  case (Some parsed)
  note bpp = Some
  show ?thesis
  proof (cases "findStepByFile defs (path f)")
    case (Some pos)
    then have "addNewFile bp (defs, chs, rc) f = (defs, chs @ [], rc)"
      by (simp add: addNewFile_def bpp)
    then show ?thesis using extendsGraph_refl by fastforce
  next
    case None
    let ?jid = "assignJourney (path f) (structName parsed) parsed defs"
    obtain d1 ji where ej: "ensureJourney defs ?jid = (d1, ji)" by (cases "ensureJourney defs ?jid") auto
    let ?s = "newStep parsed (path f) (resolveNext parsed d1)"
    let ?r = "\<lparr> action = ''add'', journeyId = ?jid, stepId = slugify (structName parsed),
                 detail = ''Added '' @ structName parsed @ '' from '' @ path f \<rparr>"
    have r: "addNewFile bp (defs, chs, rc) f = (pushStep d1 ji ?s, chs @ [?r], Suc rc)"
      by (simp add: addNewFile_def bpp None ej Let_def)
    have e1: "extendsGraph defs d1" using extendsGraph_ensureJourney[of defs ?jid] ej by simp
    have ji: "ji < length (journeys d1)" using ensureJourney_index[of defs ?jid] ej by simp
    have n1: "findStepByFile d1 (path f) = None"
      using findStepByFile_ensureJourney[of defs ?jid "path f"] ej None by simp
    have sw: "swiftFile ?s = Some (path f)" by (simp add: newStep_def)
    have e2: "extendsGraph d1 (pushStep d1 ji ?s)"
      by (rule extendsGraph_pushStep[OF ji sw n1])
    have "extendsGraph defs (pushStep d1 ji ?s)" by (rule extendsGraph_trans[OF e1 e2])
    with r show ?thesis by fastforce
  qed
qed

lemma addLoop:
  "\<exists>g new rc'. foldl (addNewFile bp) (g0, chs0, rc) fs = (g, chs0 @ new, rc')
       \<and> extendsGraph g0 g \<and> (\<forall>r \<in> set new. action r = ''add'')"
proof (induction fs rule: rev_induct)
  case Nil
  show ?case using extendsGraph_refl by simp
next
  case (snoc f fs)
  then obtain g new rc' where st: "foldl (addNewFile bp) (g0, chs0, rc) fs = (g, chs0 @ new, rc')"
    and ex: "extendsGraph g0 g" and ac: "\<forall>r \<in> set new. action r = ''add''" by blast
  from addNewFile_extends[of bp g "chs0 @ new" rc' f]
  obtain g' new' rc'' where st': "addNewFile bp (g, chs0 @ new, rc') f = (g', (chs0 @ new) @ new', rc'')"
    and ex': "extendsGraph g g'" and ac': "\<forall>r \<in> set new'. action r = ''add''" by blast
  have "foldl (addNewFile bp) (g0, chs0, rc) (fs @ [f]) = (g', chs0 @ (new @ new'), rc'')"
    using st st' by simp
  moreover have "extendsGraph g0 g'" by (rule extendsGraph_trans[OF ex ex'])
  moreover have "\<forall>r \<in> set (new @ new'). action r = ''add''" using ac ac' by auto
  ultimately show ?case by blast
qed

lemma extendsGraph_tracker:
  assumes "extendsGraph g0 g" "findStepByFile g0 p = Some (ji, si)"
  shows "findStepByFile g p = Some (ji, si)"
    and "stepAt g ji si = stepAt g0 ji si"
    and "journey_id (journeys g ! ji) = journey_id (journeys g0 ! ji)"
proof -
  note v = findStepByFile_Some[OF assms(2)]
  show "findStepByFile g p = Some (ji, si)" using assms by (simp add: extendsGraph_def)
  have pr: "prefix (steps (journeys g0 ! ji)) (steps (journeys g ! ji))"
    and "journey_id (journeys g ! ji) = journey_id (journeys g0 ! ji)"
    using assms(1) v by (simp_all add: extendsGraph_def)
  then show "journey_id (journeys g ! ji) = journey_id (journeys g0 ! ji)" by simp
  from pr obtain zs where "steps (journeys g ! ji) = steps (journeys g0 ! ji) @ zs"
    by (auto simp: prefix_def)
  then show "stepAt g ji si = stepAt g0 ji si" using v by (simp add: stepAt_def nth_append)
qed

lemma extendsGraph_position:
  assumes ex: "extendsGraph g0 g" and f: "findStepByFile g p = Some (ji, si)"
    and v: "ji < length (journeys g0)" "si < length (steps (journeys g0 ! ji))"
  shows "findStepByFile g0 p = Some (ji, si)"
proof (cases "findStepByFile g0 p")
  case None
  from ex v have pr: "prefix (steps (journeys g0 ! ji)) (steps (journeys g ! ji))"
    by (simp add: extendsGraph_def)
  then obtain zs where "steps (journeys g ! ji) = steps (journeys g0 ! ji) @ zs"
    by (auto simp: prefix_def)
  then have "steps (journeys g0 ! ji) ! si = steps (journeys g ! ji) ! si"
    using v by (simp add: nth_append)
  then have "swiftFile (steps (journeys g0 ! ji) ! si) = Some p"
    using findStepByFile_Some[OF f] by simp
  moreover have "steps (journeys g0 ! ji) ! si \<in> set (steps (journeys g0 ! ji))"
    "journeys g0 ! ji \<in> set (journeys g0)" using v by simp_all
  ultimately show ?thesis using None by (auto simp: findStepByFile_None)
next
  case (Some pos)
  then have "findStepByFile g p = Some pos" using ex by (simp add: extendsGraph_def)
  with f Some show ?thesis by simp
qed

lemma merge_phases:
  "\<exists>g1 chs1 rc1 g2 newR g3 newM.
      foldl (addNewFile (parsedByPath pvs)) (current, [], 0) (newFiles sc) = (g1, chs1, rc1)
      \<and> extendsGraph current g1 \<and> (\<forall>r \<in> set chs1. action r = ''add'')
      \<and> removalInv g1 (removedFiles sc) g2 newR
      \<and> modifyInv (parsedByPath pvs) g2 (map path (modifiedFiles sc)) g3 newM
      \<and> merge current sc pvs = \<lparr> json = g3, changes = chs1 @ newR @ newM, reviewCount = rc1 \<rparr>
      \<and> afterAdditions current sc pvs = g1"
proof -
  let ?bp = "parsedByPath pvs"
  from addLoop[of ?bp current "[]" 0 "newFiles sc"]
  obtain g1 chs1 rc1 where a: "foldl (addNewFile ?bp) (current, [], 0) (newFiles sc) = (g1, chs1, rc1)"
    and ex: "extendsGraph current g1" and ac: "\<forall>r \<in> set chs1. action r = ''add''" by auto
  from removeLoop[of g1 chs1 rc1 "removedFiles sc"]
  obtain g2 newR where b: "foldl removeFile (g1, chs1, rc1) (removedFiles sc) = (g2, chs1 @ newR, rc1)"
    and ri: "removalInv g1 (removedFiles sc) g2 newR" by blast
  from modifyLoop[of ?bp g2 "chs1 @ newR" rc1 "modifiedFiles sc"]
  obtain g3 newM where c: "foldl (modifyFile ?bp) (g2, chs1 @ newR, rc1) (modifiedFiles sc)
                             = (g3, (chs1 @ newR) @ newM, rc1)"
    and mi: "modifyInv ?bp g2 (map path (modifiedFiles sc)) g3 newM" by blast
  have m: "merge current sc pvs = \<lparr> json = g3, changes = chs1 @ newR @ newM, reviewCount = rc1 \<rparr>"
    by (simp add: merge_def Let_def a b c)
  have aa: "afterAdditions current sc pvs = g1"
    by (simp add: afterAdditions_def additionsOf_def merge_def Let_def a)
  show ?thesis using a ex ac ri mi m aa by blast
qed

subsection \<open>Removed files\<close>

lemma step_eq_by_dep:
  fixes a b :: Step
  assumes "a\<lparr> deprecated := None \<rparr> = b\<lparr> deprecated := None \<rparr>"
  shows "a = b\<lparr> deprecated := deprecated a \<rparr>"
proof -
  have "a = (a\<lparr> deprecated := None \<rparr>)\<lparr> deprecated := deprecated a \<rparr>" by simp
  also have "\<dots> = (b\<lparr> deprecated := None \<rparr>)\<lparr> deprecated := deprecated a \<rparr>" using assms by simp
  finally show ?thesis by simp
qed

lemma step_eq_by_edges:
  fixes a b :: Step
  assumes "a\<lparr> step_next := [], edgeLabels := None \<rparr> = b\<lparr> step_next := [], edgeLabels := None \<rparr>"
  shows "a = b\<lparr> step_next := step_next a, edgeLabels := edgeLabels a \<rparr>"
proof -
  have "a = (a\<lparr> step_next := [], edgeLabels := None \<rparr>)\<lparr> step_next := step_next a, edgeLabels := edgeLabels a \<rparr>"
    by simp
  also have "\<dots> = (b\<lparr> step_next := [], edgeLabels := None \<rparr>)\<lparr> step_next := step_next a, edgeLabels := edgeLabels a \<rparr>"
    using assms by simp
  finally show ?thesis by simp
qed

lemma extendsGraph_valid:
  assumes "extendsGraph g0 g" "ji < length (journeys g0)" "si < length (steps (journeys g0 ! ji))"
  shows "ji < length (journeys g)" and "si < length (steps (journeys g ! ji))"
    and "stepAt g ji si = stepAt g0 ji si"
proof -
  show a: "ji < length (journeys g)" using assms by (simp add: extendsGraph_def)
  have "prefix (steps (journeys g0 ! ji)) (steps (journeys g ! ji))"
    using assms by (simp add: extendsGraph_def)
  then obtain zs where z: "steps (journeys g ! ji) = steps (journeys g0 ! ji) @ zs"
    by (auto simp: prefix_def)
  show "si < length (steps (journeys g ! ji))" using z assms(3) by simp
  show "stepAt g ji si = stepAt g0 ji si" using z assms(3) by (simp add: stepAt_def nth_append)
qed

lemma removalInv_step:
  assumes "removalInv g1 ps g2 new" "ji < length (journeys g1)" "si < length (steps (journeys g1 ! ji))"
  shows "ji < length (journeys g2)" and "si < length (steps (journeys g2 ! ji))"
    and "stepAt g2 ji si = (stepAt g1 ji si)\<lparr> deprecated := deprecated (stepAt g2 ji si) \<rparr>"
    and "journey_id (journeys g2 ! ji) = journey_id (journeys g1 ! ji)"
proof -
  have fr: "stepFrame (\<lambda>s. s\<lparr> deprecated := None \<rparr>) g2 = stepFrame (\<lambda>s. s\<lparr> deprecated := None \<rparr>) g1"
    and ids: "map journey_id (journeys g2) = map journey_id (journeys g1)"
    using assms(1) by (simp_all add: removalInv_def)
  show "ji < length (journeys g2)" using stepFrame_length[OF fr] assms(2) by simp
  show "si < length (steps (journeys g2 ! ji))"
    using stepFrame_steps_length[OF fr assms(2)] assms(3) by simp
  show "stepAt g2 ji si = (stepAt g1 ji si)\<lparr> deprecated := deprecated (stepAt g2 ji si) \<rparr>"
    by (rule step_eq_by_dep) (rule stepFrame_nth[OF fr assms(2,3)])
  show "journey_id (journeys g2 ! ji) = journey_id (journeys g1 ! ji)"
    by (rule journey_ids_nth[OF ids assms(2)])
qed

lemma modifyInv_step:
  assumes "modifyInv bp g2 ps g3 new" "ji < length (journeys g2)" "si < length (steps (journeys g2 ! ji))"
  shows "stepAt g3 ji si = (stepAt g2 ji si)\<lparr> step_next := step_next (stepAt g3 ji si),
                                               edgeLabels := edgeLabels (stepAt g3 ji si) \<rparr>"
proof -
  have fr: "stepFrame (\<lambda>s. s\<lparr> step_next := [], edgeLabels := None \<rparr>) g3
          = stepFrame (\<lambda>s. s\<lparr> step_next := [], edgeLabels := None \<rparr>) g2"
    using assms(1) by (simp add: modifyInv_def)
  show ?thesis by (rule step_eq_by_edges) (rule stepFrame_nth[OF fr assms(2,3)])
qed

lemma removalInv_resolve:
  assumes "removalInv g1 ps g2 new"
  shows "resolveNext parsed g2 = resolveNext parsed g1"
proof -
  have fr: "stepFrame (\<lambda>s. s\<lparr> deprecated := None \<rparr>) g2 = stepFrame (\<lambda>s. s\<lparr> deprecated := None \<rparr>) g1"
    using assms by (simp add: removalInv_def)
  have "stepFrame (\<lambda>s. (screen s, step_id s)) g2 = stepFrame (\<lambda>s. (screen s, step_id s)) g1"
    by (rule stepFrame_weaken[OF fr, where h' = "\<lambda>s. (screen s, step_id s)"]) simp
  then show ?thesis by (rule resolveNext_cong)
qed

lemma removalInv_edgeUpdate:
  assumes inv: "removalInv g1 ps g2 new"
  shows "edgeUpdate bp g2 q = edgeUpdate bp g1 q"
proof (cases "bp q")
  case None
  then show ?thesis by (simp add: edgeUpdate_def)
next
  case (Some parsed)
  note bq = Some
  show ?thesis
  proof (cases "findStepByFile g1 q")
    case None
    then have "findStepByFile g2 q = None" using removalInv_find[OF inv] by simp
    with None show ?thesis by (simp add: edgeUpdate_def bq)
  next
    case (Some pos)
    obtain ji si where pos: "pos = (ji, si)" by (cases pos) auto
    have f1: "findStepByFile g1 q = Some (ji, si)" using Some pos by simp
    have f2: "findStepByFile g2 q = Some (ji, si)" using removalInv_find[OF inv] f1 by simp
    have v: "ji < length (journeys g1)" "si < length (steps (journeys g1 ! ji))"
      using findStepByFile_Some[OF f1] by simp_all
    have st: "stepAt g2 ji si = (stepAt g1 ji si)\<lparr> deprecated := deprecated (stepAt g2 ji si) \<rparr>"
      by (rule removalInv_step(3)[OF inv v])
    have jid: "journey_id (journeys g2 ! ji) = journey_id (journeys g1 ! ji)"
      by (rule removalInv_step(4)[OF inv v])
    have sn: "step_next (stepAt g2 ji si) = step_next (stepAt g1 ji si)"
      and sid: "step_id (stepAt g2 ji si) = step_id (stepAt g1 ji si)"
      by (subst st, simp)+
    show ?thesis
      by (simp add: edgeUpdate_def bq f1 f2 sn sid jid removalInv_resolve[OF inv])
  qed
qed

lemma edgeUpdate_action:
  assumes "r \<in> set (List.map_filter (edgeUpdate bp g) xs)"
  shows "action r = ''update-edges''"
proof -
  from assms obtain x where "edgeUpdate bp g x = Some r"
    by (auto simp: List.map_filter_def)
  then show ?thesis by (auto simp: edgeUpdate_def split: option.splits if_splits)
qed

lemma filter_none: "(\<forall>x \<in> set xs. \<not> P x) \<Longrightarrow> filter P xs = []"
  by (induction xs) simp_all

lemma filter_all: "(\<forall>x \<in> set xs. P x) \<Longrightarrow> filter P xs = xs"
  by (induction xs) simp_all







subsection \<open>Modified files\<close>

text \<open>
  Claim C5, amended. For every modified file of the diff that has a descriptor and whose
  path a step of the current graph tracks, the first such step in graph order has in the
  merged graph the outgoing ids that \<open>resolveNext\<close> computes for the descriptor on the
  merged graph; when they differ from the stored ones its edge labels are cut to their
  number, and when they are the stored ones its edge labels are the stored ones; its
  other fields but \<open>deprecated\<close> are unchanged, and \<open>deprecated\<close> too unless the path is
  also removed. A step of the current graph that is the first tracker of no modified
  file with a descriptor keeps its outgoing ids and edge labels. The records of action
  \<^verbatim>\<open>update-edges\<close> in the change log are, in the order of the diff, one for each path of
  a modified file (at its first occurrence) that has a descriptor and a tracking step
  whose stored ids differ from the recomputed ones in the graph after the additions, and
  no other; the steps of the current graph and their trackers are the same in the graph
  after the additions, which is the current graph when no file is added, and the
  recomputed ids are the same on it and on the merged graph.
\<close>

theorem merge_updates_edges:
  "(f \<in> set (modifiedFiles sc) \<and> parsedByPath pvs (path f) = Some parsed
      \<and> findStepByFile current (path f) = Some (ji, si) \<longrightarrow>
      stepAt (json (merge current sc pvs)) ji si
        = (stepAt current ji si)
            \<lparr> step_next := resolveNext parsed (json (merge current sc pvs)),
              edgeLabels :=
                (if step_next (stepAt current ji si) = resolveNext parsed (json (merge current sc pvs))
                 then edgeLabels (stepAt current ji si)
                 else map_option (take (length (resolveNext parsed (json (merge current sc pvs)))))
                        (edgeLabels (stepAt current ji si))),
              deprecated := deprecated (stepAt (json (merge current sc pvs)) ji si) \<rparr>
      \<and> (path f \<notin> set (removedFiles sc) \<longrightarrow>
           deprecated (stepAt (json (merge current sc pvs)) ji si) = deprecated (stepAt current ji si)))
   \<and> (ki < length (journeys current) \<and> ks < length (steps (journeys current ! ki))
        \<and> (\<forall>f \<in> set (modifiedFiles sc).
              parsedByPath pvs (path f) = None \<or> findStepByFile current (path f) \<noteq> Some (ki, ks)) \<longrightarrow>
        step_next (stepAt (json (merge current sc pvs)) ki ks) = step_next (stepAt current ki ks)
        \<and> edgeLabels (stepAt (json (merge current sc pvs)) ki ks) = edgeLabels (stepAt current ki ks))
   \<and> filter (\<lambda>r. action r = ''update-edges'') (changes (merge current sc pvs))
       = List.map_filter (edgeUpdate (parsedByPath pvs) (afterAdditions current sc pvs))
           (firstOccurrences (map path (modifiedFiles sc)))
   \<and> (findStepByFile current q = Some (qi, qs) \<longrightarrow>
        findStepByFile (afterAdditions current sc pvs) q = Some (qi, qs)
        \<and> stepAt (afterAdditions current sc pvs) qi qs = stepAt current qi qs
        \<and> journey_id (journeys (afterAdditions current sc pvs) ! qi) = journey_id (journeys current ! qi))
   \<and> (newFiles sc = [] \<longrightarrow> afterAdditions current sc pvs = current)
   \<and> resolveNext pv (afterAdditions current sc pvs) = resolveNext pv (json (merge current sc pvs))"
proof -
  let ?bp = "parsedByPath pvs"
  from merge_phases[of pvs current sc]
  obtain g1 chs1 rc1 g2 newR g3 newM where
    ex: "extendsGraph current g1" and ac: "\<forall>r \<in> set chs1. action r = ''add''"
    and ri: "removalInv g1 (removedFiles sc) g2 newR"
    and mi: "modifyInv ?bp g2 (map path (modifiedFiles sc)) g3 newM"
    and m: "merge current sc pvs = \<lparr> json = g3, changes = chs1 @ newR @ newM, reviewCount = rc1 \<rparr>"
    and aa: "afterAdditions current sc pvs = g1"
    by blast
  have gj: "json (merge current sc pvs) = g3" and gc: "changes (merge current sc pvs) = chs1 @ newR @ newM"
    using m by simp_all
  have depI: "\<And>i k. deprecated (stepAt g2 i k) =
            (if (\<exists>q \<in> set (removedFiles sc). findStepByFile g1 q = Some (i, k))
                 \<and> \<not> truthy (deprecated (stepAt g1 i k))
             then Some True else deprecated (stepAt g1 i k))"
    and actR: "\<forall>r \<in> set newR. action r = ''deprecate''"
    using ri unfolding removalInv_def by blast+
  have hitI: "\<And>q pq i k. q \<in> set (map path (modifiedFiles sc)) \<Longrightarrow> ?bp q = Some pq \<Longrightarrow>
            findStepByFile g2 q = Some (i, k) \<Longrightarrow>
            step_next (stepAt g3 i k) = resolveNext pq g2
            \<and> edgeLabels (stepAt g3 i k)
                = (if step_next (stepAt g2 i k) = resolveNext pq g2
                   then edgeLabels (stepAt g2 i k)
                   else trimEdgeLabels (length (resolveNext pq g2)) (edgeLabels (stepAt g2 i k)))"
    and missI: "\<And>i k. (\<forall>q \<in> set (map path (modifiedFiles sc)).
                          ?bp q = None \<or> findStepByFile g2 q \<noteq> Some (i, k)) \<Longrightarrow>
            step_next (stepAt g3 i k) = step_next (stepAt g2 i k)
            \<and> edgeLabels (stepAt g3 i k) = edgeLabels (stepAt g2 i k)"
    and recsM: "newM = List.map_filter (edgeUpdate ?bp g2) (firstOccurrences (map path (modifiedFiles sc)))"
    using mi unfolding modifyInv_def by blast+
  have actM: "\<forall>r \<in> set newM. action r = ''update-edges''"
    using edgeUpdate_action recsM by blast
  have r32: "\<And>pq. resolveNext pq g3 = resolveNext pq g2" by (rule modifyInv_frames(2)[OF mi])
  have r21: "\<And>pq. resolveNext pq g2 = resolveNext pq g1" by (rule removalInv_resolve[OF ri])
  have shape: "\<exists>D2 N3 E3. stepAt g2 i k = (stepAt g1 i k)\<lparr> deprecated := D2 \<rparr>
                 \<and> stepAt g3 i k = (stepAt g1 i k)\<lparr> deprecated := D2, step_next := N3, edgeLabels := E3 \<rparr>"
    if v: "i < length (journeys g1)" "k < length (steps (journeys g1 ! i))" for i k
  proof -
    define D2 where "D2 = deprecated (stepAt g2 i k)"
    define N3 where "N3 = step_next (stepAt g3 i k)"
    define E3 where "E3 = edgeLabels (stepAt g3 i k)"
    have a: "stepAt g2 i k = (stepAt g1 i k)\<lparr> deprecated := D2 \<rparr>"
      unfolding D2_def by (rule removalInv_step(3)[OF ri v])
    have "stepAt g3 i k = (stepAt g2 i k)\<lparr> step_next := N3, edgeLabels := E3 \<rparr>"
      unfolding N3_def E3_def by (rule modifyInv_step[OF mi removalInv_step(1,2)[OF ri v]])
    then have "stepAt g3 i k = (stepAt g1 i k)\<lparr> deprecated := D2, step_next := N3, edgeLabels := E3 \<rparr>"
      by (simp add: a)
    with a show ?thesis by blast
  qed
  have first: "f \<in> set (modifiedFiles sc) \<and> ?bp (path f) = Some parsed
      \<and> findStepByFile current (path f) = Some (ji, si) \<longrightarrow>
      stepAt g3 ji si
        = (stepAt current ji si)
            \<lparr> step_next := resolveNext parsed g3,
              edgeLabels :=
                (if step_next (stepAt current ji si) = resolveNext parsed g3
                 then edgeLabels (stepAt current ji si)
                 else map_option (take (length (resolveNext parsed g3)))
                        (edgeLabels (stepAt current ji si))),
              deprecated := deprecated (stepAt g3 ji si) \<rparr>
      \<and> (path f \<notin> set (removedFiles sc) \<longrightarrow>
           deprecated (stepAt g3 ji si) = deprecated (stepAt current ji si))"
  proof
    assume h: "f \<in> set (modifiedFiles sc) \<and> ?bp (path f) = Some parsed
      \<and> findStepByFile current (path f) = Some (ji, si)"
    then have fin: "path f \<in> set (map path (modifiedFiles sc))" and bpp: "?bp (path f) = Some parsed"
      and f0: "findStepByFile current (path f) = Some (ji, si)" by simp_all
    have f1: "findStepByFile g1 (path f) = Some (ji, si)"
      and s1: "stepAt g1 ji si = stepAt current ji si"
      using extendsGraph_tracker[OF ex f0] by simp_all
    have v: "ji < length (journeys g1)" "si < length (steps (journeys g1 ! ji))"
      using findStepByFile_Some[OF f1] by simp_all
    have f2: "findStepByFile g2 (path f) = Some (ji, si)" using removalInv_find[OF ri] f1 by simp
    from shape[OF v] obtain D2 N3 E3 where
      e2: "stepAt g2 ji si = (stepAt current ji si)\<lparr> deprecated := D2 \<rparr>"
      and e3: "stepAt g3 ji si = (stepAt current ji si)\<lparr> deprecated := D2, step_next := N3, edgeLabels := E3 \<rparr>"
      using s1 by auto
    from hitI[OF fin bpp f2] have
      n3: "N3 = resolveNext parsed g3"
      and l3: "E3 = (if step_next (stepAt current ji si) = resolveNext parsed g3
                    then edgeLabels (stepAt current ji si)
                    else map_option (take (length (resolveNext parsed g3)))
                           (edgeLabels (stepAt current ji si)))"
      by (simp_all add: e2 e3 r32 trimEdgeLabels_take)
    have whole: "stepAt g3 ji si
        = (stepAt current ji si)
            \<lparr> step_next := resolveNext parsed g3,
              edgeLabels :=
                (if step_next (stepAt current ji si) = resolveNext parsed g3
                 then edgeLabels (stepAt current ji si)
                 else map_option (take (length (resolveNext parsed g3)))
                        (edgeLabels (stepAt current ji si))),
              deprecated := deprecated (stepAt g3 ji si) \<rparr>"
    proof -
      have "stepAt g3 ji si
        = (stepAt current ji si)
            \<lparr> deprecated := D2, step_next := resolveNext parsed g3,
              edgeLabels :=
                (if step_next (stepAt current ji si) = resolveNext parsed g3
                 then edgeLabels (stepAt current ji si)
                 else map_option (take (length (resolveNext parsed g3)))
                        (edgeLabels (stepAt current ji si))) \<rparr>"
        unfolding e3 n3 l3 ..
      then show ?thesis by simp
    qed
    have dep: "deprecated (stepAt g3 ji si) = deprecated (stepAt current ji si)"
      if nr: "path f \<notin> set (removedFiles sc)"
    proof -
      have "\<not> (\<exists>q \<in> set (removedFiles sc). findStepByFile g1 q = Some (ji, si))"
        using tracker_unique[OF f1] nr by blast
      then have "deprecated (stepAt g2 ji si) = deprecated (stepAt g1 ji si)"
        using depI[of ji si] by simp
      then have "D2 = deprecated (stepAt current ji si)" using e2 s1 by simp
      then show ?thesis by (simp add: e3)
    qed
    show "stepAt g3 ji si
        = (stepAt current ji si)
            \<lparr> step_next := resolveNext parsed g3,
              edgeLabels :=
                (if step_next (stepAt current ji si) = resolveNext parsed g3
                 then edgeLabels (stepAt current ji si)
                 else map_option (take (length (resolveNext parsed g3)))
                        (edgeLabels (stepAt current ji si))),
              deprecated := deprecated (stepAt g3 ji si) \<rparr>
      \<and> (path f \<notin> set (removedFiles sc) \<longrightarrow>
           deprecated (stepAt g3 ji si) = deprecated (stepAt current ji si))"
      using whole dep by blast
  qed
  have second: "ki < length (journeys current) \<and> ks < length (steps (journeys current ! ki))
        \<and> (\<forall>f \<in> set (modifiedFiles sc).
              ?bp (path f) = None \<or> findStepByFile current (path f) \<noteq> Some (ki, ks)) \<longrightarrow>
        step_next (stepAt g3 ki ks) = step_next (stepAt current ki ks)
        \<and> edgeLabels (stepAt g3 ki ks) = edgeLabels (stepAt current ki ks)"
  proof
    assume h: "ki < length (journeys current) \<and> ks < length (steps (journeys current ! ki))
        \<and> (\<forall>f \<in> set (modifiedFiles sc).
              ?bp (path f) = None \<or> findStepByFile current (path f) \<noteq> Some (ki, ks))"
    then have v0: "ki < length (journeys current)" "ks < length (steps (journeys current ! ki))"
      and nt: "\<forall>f \<in> set (modifiedFiles sc).
              ?bp (path f) = None \<or> findStepByFile current (path f) \<noteq> Some (ki, ks)" by simp_all
    note v1 = extendsGraph_valid[OF ex v0]
    have "\<forall>q \<in> set (map path (modifiedFiles sc)). ?bp q = None \<or> findStepByFile g2 q \<noteq> Some (ki, ks)"
    proof
      fix q assume "q \<in> set (map path (modifiedFiles sc))"
      then obtain f' where f': "f' \<in> set (modifiedFiles sc)" "q = path f'" by auto
      show "?bp q = None \<or> findStepByFile g2 q \<noteq> Some (ki, ks)"
      proof (cases "?bp q")
        case None
        then show ?thesis by simp
      next
        case (Some pq)
        with nt f' have "findStepByFile current q \<noteq> Some (ki, ks)" by auto
        then have "findStepByFile g1 q \<noteq> Some (ki, ks)"
          using extendsGraph_position[OF ex _ v0] by blast
        then show ?thesis using removalInv_find[OF ri] by simp
      qed
    qed
    from missI[OF this] have e: "step_next (stepAt g3 ki ks) = step_next (stepAt g2 ki ks)"
      "edgeLabels (stepAt g3 ki ks) = edgeLabels (stepAt g2 ki ks)" by simp_all
    from shape[OF v1(1,2)] obtain D2 where "stepAt g2 ki ks = (stepAt g1 ki ks)\<lparr> deprecated := D2 \<rparr>"
      by blast
    then have "step_next (stepAt g2 ki ks) = step_next (stepAt g1 ki ks)"
      "edgeLabels (stepAt g2 ki ks) = edgeLabels (stepAt g1 ki ks)" by simp_all
    then show "step_next (stepAt g3 ki ks) = step_next (stepAt current ki ks)
        \<and> edgeLabels (stepAt g3 ki ks) = edgeLabels (stepAt current ki ks)"
      using e v1(3) by simp
  qed
  have fa: "filter (\<lambda>r. action r = ''update-edges'') chs1 = []"
    using ac by (intro filter_none) auto
  have fr: "filter (\<lambda>r. action r = ''update-edges'') newR = []"
    using actR by (intro filter_none) auto
  have fm: "filter (\<lambda>r. action r = ''update-edges'') newM = newM"
    using actM by (intro filter_all) auto
  have eu: "edgeUpdate ?bp g2 = edgeUpdate ?bp g1"
    using removalInv_edgeUpdate[OF ri] by (intro ext)
  have third: "filter (\<lambda>r. action r = ''update-edges'') (chs1 @ newR @ newM)
       = List.map_filter (edgeUpdate ?bp g1) (firstOccurrences (map path (modifiedFiles sc)))"
    unfolding filter_append fa fr fm using recsM eu by simp
  have fourth: "findStepByFile current q = Some (qi, qs) \<longrightarrow>
        findStepByFile g1 q = Some (qi, qs)
        \<and> stepAt g1 qi qs = stepAt current qi qs
        \<and> journey_id (journeys g1 ! qi) = journey_id (journeys current ! qi)"
    using extendsGraph_tracker[OF ex] by blast
  have fifth: "newFiles sc = [] \<longrightarrow> g1 = current"
    using aa by (auto simp: afterAdditions_def additionsOf_def merge_def Let_def)
  have sixth: "resolveNext pv g1 = resolveNext pv g3" using r32 r21 by simp
  show ?thesis unfolding gj gc aa using first second third fourth fifth sixth
    by (intro conjI)
qed

lemma edgeTwinDefs_found: "findStepByFile edgeTwinDefs (path edgeFile) = Some (0, 0)"
  by (simp add: findStepByFile_def edgeTwinDefs_def edgeFile_def edgeStepA_def fixture_defs)

lemma edgeShrunk_byPath: "parsedByPath [edgeParsedShrunk] (path edgeFile) = Some edgeParsedShrunk"
  by (simp add: parsedByPath_def edgeParsedShrunk_def edgeFile_def)

lemma edgeSame_byPath: "parsedByPath [edgeParsedSame] (path edgeFile) = Some edgeParsedSame"
  by (simp add: parsedByPath_def edgeParsedSame_def edgeFile_def)

lemma edgeTwin_resolve: "resolveNext edgeParsedShrunk edgeTwinDefs = [''b'']"
  by code_simp

lemma edgeFile_no_view:
  "parseFiles (newFiles edgeScan @ modifiedFiles edgeScan) = Returns []"
  "extractEdges (content edgeFile) = Some []"
  by code_simp+

text \<open>
  Claim C5 as stated fails for a second step that tracks the modified path, and for a
  modified file without a descriptor. In the first graph two steps track \<^verbatim>\<open>a.swift\<close>
  with the stored ids \<open>b\<close> and \<open>c\<close>, the descriptor presents \<open>BView\<close> only, and after the
  merge the first step has the ids \<open>b\<close>, the second the stored ones still, and the change
  log holds one record. In the second the modified file holds no view and no edge, the
  parser gives no descriptor, and the merge leaves the stored ids \<open>b\<close> and \<open>c\<close> of the
  step that tracks the file, without a record. The validator accepts the first graph,
  and the merged graph after it.
\<close>

theorem merge_keeps_stale_edges:
  "swiftFile (stepAt edgeTwinDefs 0 1) = Some (path edgeFile)
   \<and> step_next (stepAt edgeTwinDefs 0 1) = [''b'', ''c'']
   \<and> edgeFile \<in> set (modifiedFiles edgeScan)
   \<and> parsedByPath [edgeParsedShrunk] (path edgeFile) = Some edgeParsedShrunk
   \<and> resolveNext edgeParsedShrunk (json (merge edgeTwinDefs edgeScan [edgeParsedShrunk])) = [''b'']
   \<and> step_next (stepAt (json (merge edgeTwinDefs edgeScan [edgeParsedShrunk])) 0 0) = [''b'']
   \<and> step_next (stepAt (json (merge edgeTwinDefs edgeScan [edgeParsedShrunk])) 0 1) = [''b'', ''c'']
   \<and> edgeLabels (stepAt (json (merge edgeTwinDefs edgeScan [edgeParsedShrunk])) 0 1)
       = Some [''Yes'', ''No'']
   \<and> map stepId (changes (merge edgeTwinDefs edgeScan [edgeParsedShrunk])) = [''a'']
   \<and> parseFiles (newFiles edgeScan @ modifiedFiles edgeScan) = Returns []
   \<and> extractEdges (content edgeFile) = Some []
   \<and> swiftFile (stepAt edgeDefs 0 0) = Some (path edgeFile)
   \<and> step_next (stepAt edgeDefs 0 0) = [''b'', ''c'']
   \<and> merge edgeDefs edgeScan [] = \<lparr> json = edgeDefs, changes = [], reviewCount = 0 \<rparr>
   \<and> ok (validate edgeTwinDefs edgeTwinDefs)
   \<and> ok (validate edgeTwinDefs (json (merge edgeTwinDefs edgeScan [edgeParsedShrunk])))"
proof -
  have a: "swiftFile (stepAt edgeTwinDefs 0 1) = Some (path edgeFile)"
    "step_next (stepAt edgeTwinDefs 0 1) = [''b'', ''c'']"
    "step_next (steps (journeys edgeTwinDefs ! 0) ! 0) = [''b'', ''c'']"
    by (simp_all add: stepAt_def edgeTwinDefs_def edgeFile_def edgeStepA_def fixture_defs)
  have b: "edgeFile \<in> set (modifiedFiles edgeScan)" by (simp add: edgeScan_def)
  have ne: "jsonStringArray [''b'', ''c''] \<noteq> jsonStringArray [''b'']"
    by (simp add: jsonStringArray_inj)
  have m: "\<exists>d. merge edgeTwinDefs edgeScan [edgeParsedShrunk]
     = \<lparr> json = updateStep edgeTwinDefs 0 0
                  (\<lambda>s. s\<lparr> step_next := [''b''],
                           edgeLabels := trimEdgeLabels (length [''b'']) (edgeLabels s) \<rparr>),
         changes = [\<lparr> action = ''update-edges'', journeyId = journey_id (journeys edgeTwinDefs ! 0),
                      stepId = step_id (steps (journeys edgeTwinDefs ! 0) ! 0), detail = d \<rparr>],
         reviewCount = 0 \<rparr>"
    using ne
    by (simp add: merge_def edgeScan_def Let_def modifyFile_def edgeShrunk_byPath
        edgeTwinDefs_found edgeTwin_resolve a(3))
  then obtain d where m': "merge edgeTwinDefs edgeScan [edgeParsedShrunk]
     = \<lparr> json = updateStep edgeTwinDefs 0 0
                  (\<lambda>s. s\<lparr> step_next := [''b''],
                           edgeLabels := trimEdgeLabels (length [''b'']) (edgeLabels s) \<rparr>),
         changes = [\<lparr> action = ''update-edges'', journeyId = journey_id (journeys edgeTwinDefs ! 0),
                      stepId = step_id (steps (journeys edgeTwinDefs ! 0) ! 0), detail = d \<rparr>],
         reviewCount = 0 \<rparr>" by blast
  have c: "step_next (stepAt (json (merge edgeTwinDefs edgeScan [edgeParsedShrunk])) 0 0) = [''b'']"
    "step_next (stepAt (json (merge edgeTwinDefs edgeScan [edgeParsedShrunk])) 0 1) = [''b'', ''c'']"
    "edgeLabels (stepAt (json (merge edgeTwinDefs edgeScan [edgeParsedShrunk])) 0 1)
       = Some [''Yes'', ''No'']"
    "map stepId (changes (merge edgeTwinDefs edgeScan [edgeParsedShrunk])) = [''a'']"
    unfolding m'
    by (simp_all add: stepAt_def updateStep_def edgeTwinDefs_def edgeStepA_def fixture_defs)
  have r: "resolveNext edgeParsedShrunk (json (merge edgeTwinDefs edgeScan [edgeParsedShrunk])) = [''b'']"
    unfolding m' by code_simp
  have e: "swiftFile (stepAt edgeDefs 0 0) = Some (path edgeFile)"
    "step_next (stepAt edgeDefs 0 0) = [''b'', ''c'']"
    by (simp_all add: stepAt_def edge_stored edgeStepA_def edgeFile_def fixture_defs)
  have n: "merge edgeDefs edgeScan [] = \<lparr> json = edgeDefs, changes = [], reviewCount = 0 \<rparr>"
    by (simp add: merge_def edgeScan_def Let_def modifyFile_def parsedByPath_def)
  have v: "ok (validate edgeTwinDefs edgeTwinDefs)"
    "ok (validate edgeTwinDefs (json (merge edgeTwinDefs edgeScan [edgeParsedShrunk])))"
    by code_simp+
  show ?thesis using a(1,2) b edgeShrunk_byPath r c edgeFile_no_view e n v by (intro conjI)
qed

text \<open>
  The merge test \<^verbatim>\<open>preserves edgeLabels on update (trims if next shrinks)\<close>, the scenario
  of the claim: the ids shrink from \<open>b\<close>, \<open>c\<close> to \<open>b\<close> and the labels from \<open>Yes\<close>, \<open>No\<close>
  to \<open>Yes\<close>, with one record; the same file with a descriptor that presents both views,
  which changes nothing; and the step \<open>b\<close>, which no modified file tracks.
\<close>

theorem merge_updates_edges_witness:
  "edgeFile \<in> set (modifiedFiles edgeScan)
   \<and> parsedByPath [edgeParsedShrunk] (path edgeFile) = Some edgeParsedShrunk
   \<and> findStepByFile edgeDefs (path edgeFile) = Some (0, 0)
   \<and> path edgeFile \<notin> set (removedFiles edgeScan)
   \<and> newFiles edgeScan = []
   \<and> afterAdditions edgeDefs edgeScan [edgeParsedShrunk] = edgeDefs
   \<and> step_next (stepAt edgeDefs 0 0) = [''b'', ''c'']
   \<and> edgeLabels (stepAt edgeDefs 0 0) = Some [''Yes'', ''No'']
   \<and> resolveNext edgeParsedShrunk (json (merge edgeDefs edgeScan [edgeParsedShrunk])) = [''b'']
   \<and> stepAt (json (merge edgeDefs edgeScan [edgeParsedShrunk])) 0 0
       = (stepAt edgeDefs 0 0)\<lparr> step_next := [''b''], edgeLabels := Some [''Yes''] \<rparr>
   \<and> filter (\<lambda>r. action r = ''update-edges'') (changes (merge edgeDefs edgeScan [edgeParsedShrunk]))
       = [\<lparr> action = ''update-edges'', journeyId = ''j'', stepId = ''a'',
            detail = ''Updated next[] from '' @ jsonStringArray [''b'', ''c'']
                     @ '' to '' @ jsonStringArray [''b''] \<rparr>]
   \<and> parsedByPath [edgeParsedSame] (path edgeFile) = Some edgeParsedSame
   \<and> resolveNext edgeParsedSame (json (merge edgeDefs edgeScan [edgeParsedSame])) = [''b'', ''c'']
   \<and> stepAt (json (merge edgeDefs edgeScan [edgeParsedSame])) 0 0 = stepAt edgeDefs 0 0
   \<and> filter (\<lambda>r. action r = ''update-edges'') (changes (merge edgeDefs edgeScan [edgeParsedSame])) = []
   \<and> 0 < length (journeys edgeDefs) \<and> 1 < length (steps (journeys edgeDefs ! 0))
   \<and> list_all (\<lambda>f. parsedByPath [edgeParsedShrunk] (path f) = None
                    \<or> findStepByFile edgeDefs (path f) \<noteq> Some (0, 1)) (modifiedFiles edgeScan)
   \<and> step_next (stepAt (json (merge edgeDefs edgeScan [edgeParsedShrunk])) 0 1)
       = step_next (stepAt edgeDefs 0 1)
   \<and> edgeLabels (stepAt (json (merge edgeDefs edgeScan [edgeParsedShrunk])) 0 1)
       = edgeLabels (stepAt edgeDefs 0 1)
   \<and> findStepByFile (afterAdditions edgeDefs edgeScan [edgeParsedShrunk]) (path edgeFile) = Some (0, 0)"
proof -
  note shr = merge_updates_edges [where current = edgeDefs and sc = edgeScan
      and pvs = "[edgeParsedShrunk]" and f = edgeFile and parsed = edgeParsedShrunk
      and ji = 0 and si = 0 and ki = 0 and ks = 1 and q = "path edgeFile" and qi = 0 and qs = 0
      and pv = edgeParsedShrunk]
  note sam = merge_updates_edges [where current = edgeDefs and sc = edgeScan
      and pvs = "[edgeParsedSame]" and f = edgeFile and parsed = edgeParsedSame
      and ji = 0 and si = 0 and ki = 0 and ks = 1 and q = "path edgeFile" and qi = 0 and qs = 0
      and pv = edgeParsedSame]
  have fin: "edgeFile \<in> set (modifiedFiles edgeScan)" by (simp add: edgeScan_def)
  have nr: "path edgeFile \<notin> set (removedFiles edgeScan)" by (simp add: edgeScan_def)
  have nn: "newFiles edgeScan = []" by (simp add: edgeScan_def)
  have st: "stepAt edgeDefs 0 0 = edgeStepA" by (simp add: stepAt_def edge_stored)
  have sn: "step_next (stepAt edgeDefs 0 0) = [''b'', ''c'']"
    and el: "edgeLabels (stepAt edgeDefs 0 0) = Some [''Yes'', ''No'']"
    and dp: "deprecated (stepAt edgeDefs 0 0) = None"
    by (simp_all add: st edgeStepA_def fixture_defs)
  have ids: "journey_id (journeys edgeDefs ! 0) = ''j''" "step_id (stepAt edgeDefs 0 0) = ''a''"
    by (simp_all add: st edgeStepA_def) (simp_all add: edgeDefs_def fixture_defs)
  note a5 = shr [THEN conjunct2, THEN conjunct2, THEN conjunct2, THEN conjunct2, THEN conjunct1,
                 rule_format, OF nn]
  note b5 = sam [THEN conjunct2, THEN conjunct2, THEN conjunct2, THEN conjunct2, THEN conjunct1,
                 rule_format, OF nn]
  note a6 = shr [THEN conjunct2, THEN conjunct2, THEN conjunct2, THEN conjunct2, THEN conjunct2]
  note b6 = sam [THEN conjunct2, THEN conjunct2, THEN conjunct2, THEN conjunct2, THEN conjunct2]
  have r1: "resolveNext edgeParsedShrunk (json (merge edgeDefs edgeScan [edgeParsedShrunk])) = [''b'']"
    using a6 a5 edge_resolve_shrunk by simp
  have r2: "resolveNext edgeParsedSame (json (merge edgeDefs edgeScan [edgeParsedSame])) = [''b'', ''c'']"
    using b6 b5 edge_resolve_same by simp
  note a1 = shr [THEN conjunct1, rule_format, OF conjI [OF fin conjI [OF edgeShrunk_byPath edgeDefs_found]]]
  note b1 = sam [THEN conjunct1, rule_format, OF conjI [OF fin conjI [OF edgeSame_byPath edgeDefs_found]]]
  have ad: "deprecated (stepAt (json (merge edgeDefs edgeScan [edgeParsedShrunk])) 0 0) = None"
    using a1 [THEN conjunct2, rule_format, OF nr] dp by simp
  have bd: "deprecated (stepAt (json (merge edgeDefs edgeScan [edgeParsedSame])) 0 0) = None"
    using b1 [THEN conjunct2, rule_format, OF nr] dp by simp
  have s1: "stepAt (json (merge edgeDefs edgeScan [edgeParsedShrunk])) 0 0
       = (stepAt edgeDefs 0 0)\<lparr> step_next := [''b''], edgeLabels := Some [''Yes''] \<rparr>"
    using a1 [THEN conjunct1] by (simp add: r1 ad sn el) (simp add: st edgeStepA_def fixture_defs)
  have s2: "stepAt (json (merge edgeDefs edgeScan [edgeParsedSame])) 0 0 = stepAt edgeDefs 0 0"
    using b1 [THEN conjunct1] by (simp add: r2 bd sn el) (simp add: st edgeStepA_def fixture_defs)
  note a3 = shr [THEN conjunct2, THEN conjunct2, THEN conjunct1]
  note b3 = sam [THEN conjunct2, THEN conjunct2, THEN conjunct1]
  have c1: "filter (\<lambda>r. action r = ''update-edges'') (changes (merge edgeDefs edgeScan [edgeParsedShrunk]))
       = [\<lparr> action = ''update-edges'', journeyId = ''j'', stepId = ''a'',
            detail = ''Updated next[] from '' @ jsonStringArray [''b'', ''c'']
                     @ '' to '' @ jsonStringArray [''b''] \<rparr>]"
    unfolding a3 a5
    by (simp add: edgeScan_def firstOccurrences_def List.map_filter_def edgeUpdate_def
        edgeShrunk_byPath[unfolded edgeFile_def, simplified] edgeDefs_found[unfolded edgeFile_def, simplified]
        edge_resolve_shrunk sn ids edgeFile_def)
  have c2: "filter (\<lambda>r. action r = ''update-edges'') (changes (merge edgeDefs edgeScan [edgeParsedSame])) = []"
    unfolding b3 b5
    by (simp add: edgeScan_def firstOccurrences_def List.map_filter_def edgeUpdate_def
        edgeSame_byPath[unfolded edgeFile_def, simplified] edgeDefs_found[unfolded edgeFile_def, simplified]
        edge_resolve_same sn edgeFile_def)
  have v: "0 < length (journeys edgeDefs)" "1 < length (steps (journeys edgeDefs ! 0))"
    by (simp_all add: edgeDefs_def fixture_defs)
  have nt: "\<forall>f \<in> set (modifiedFiles edgeScan).
              parsedByPath [edgeParsedShrunk] (path f) = None
              \<or> findStepByFile edgeDefs (path f) \<noteq> Some (0, 1)"
    using edgeDefs_found by (simp add: edgeScan_def)
  have nt': "list_all (\<lambda>f. parsedByPath [edgeParsedShrunk] (path f) = None
                    \<or> findStepByFile edgeDefs (path f) \<noteq> Some (0, 1)) (modifiedFiles edgeScan)"
    using nt by (simp add: list_all_iff)
  note a2 = shr [THEN conjunct2, THEN conjunct1, rule_format, OF conjI [OF v(1) conjI [OF v(2) nt]]]
  note a4 = shr [THEN conjunct2, THEN conjunct2, THEN conjunct2, THEN conjunct1, rule_format,
                 OF edgeDefs_found]
  show ?thesis
    using fin edgeShrunk_byPath edgeDefs_found nr nn a5 sn el r1 s1 c1 edgeSame_byPath r2 s2 c2 v nt'
      a2 [THEN conjunct1] a2 [THEN conjunct2] a4 [THEN conjunct1]
    by (intro conjI)
qed

section \<open>Properties of the scanner\<close>

lemma splitOn_nonempty: "splitOn c s \<noteq> []"
  by (induction s) (auto split: list.splits)

lemma joinWith_splitOn: "joinWith [c] (splitOn c s) = s"
proof (induction s)
  case Nil
  then show ?case by simp
next
  case (Cons x xs)
  obtain w ws where sp: "splitOn c xs = w # ws" using splitOn_nonempty[of c xs] by (cases "splitOn c xs") auto
  show ?case
  proof (cases "x = c")
    case True
    with Cons.IH sp show ?thesis by simp
  next
    case False
    with Cons.IH sp show ?thesis by (cases ws) simp_all
  qed
qed

lemma splitOn_first:
  "c \<notin> set w \<Longrightarrow> splitOn c (w @ c # rest) = w # splitOn c rest"
proof (induction w)
  case Nil
  then show ?case by simp
next
  case (Cons x w)
  then show ?case by auto
qed

lemma line_parts:
  assumes "CHR 0x09 \<notin> set statusCode"
  shows "hd (splitOn (CHR 0x09) (statusCode @ CHR 0x09 # p)) = statusCode"
    and "joinWith [CHR 0x09] (tl (splitOn (CHR 0x09) (statusCode @ CHR 0x09 # p))) = p"
  using splitOn_first[OF assms, of p] joinWith_splitOn[of "CHR 0x09" p] by simp_all

text \<open>The effect of one line of the diff, by the kind of the line.\<close>

lemma scanLine_unwatched:
  assumes "CHR 0x09 \<notin> set sc" "p = [] \<or> \<not> isWatched p"
  shows "scanLine git l st (sc @ CHR 0x09 # p) = st"
  using assms(2) by (simp add: scanLine_def line_parts[OF assms(1)])

lemma scanLine_removed:
  assumes "CHR 0x09 \<notin> set sc" "p \<noteq> []" "isWatched p" "take 1 sc = ''D''"
  shows "scanLine git l st (sc @ CHR 0x09 # p) = st\<lparr> removedAcc := removedAcc st @ [p] \<rparr>"
  using assms(2-) by (simp add: scanLine_def line_parts[OF assms(1)])















section \<open>Properties of the scheduler\<close>

lemma parseFiles_returns: "\<exists>pvs. parseFiles fs = Returns pvs"
proof (induction fs)
  case Nil
  then show ?case by simp
next
  case (Cons f fs)
  obtain r where "parseSwiftFile (path f) (content f) = Returns r"
    using parseSwiftFile_returns by blast
  moreover obtain pvs where "parseFiles fs = Returns pvs" using Cons.IH by blast
  ultimately show ?case by simp
qed

lemma countError_fields [simp]:
  "lastCommitFile (countError w) = lastCommitFile w"
  "workflowsFile (countError w) = workflowsFile w"
  "lastCommit (daemon (countError w)) = lastCommit (daemon w)"
  "consecutiveErrors (daemon (countError w)) = Suc (consecutiveErrors (daemon w))"
  by (simp_all add: countError_def)

lemma checkErrorThreshold_fields [simp]:
  "lastCommitFile (checkErrorThreshold w) = lastCommitFile w"
  "workflowsFile (checkErrorThreshold w) = workflowsFile w"
  "lastCommit (daemon (checkErrorThreshold w)) = lastCommit (daemon w)"
  "consecutiveErrors (daemon (checkErrorThreshold w)) = consecutiveErrors (daemon w)"
  by (simp_all add: checkErrorThreshold_def)

text \<open>The conditions under which the effects of the commit succeed up to the cursor.\<close>

lemma commitCycle_cursor:
  "lastCommitFile (snd (commitCycle env w r m))
     = (if \<not> (baselineFails env \<and> logFails env BaselineFailed) \<and> \<not> writeFails env
           \<and> \<not> (exportFails env \<and> logFails env ExportFailed) \<and> \<not> saveFails env
        then Some (currentSHA r) else lastCommitFile w)"
  by (simp add: commitCycle_def Let_def)

lemma commitCycle_thrown:
  "fst (commitCycle env w r m) = Some e \<Longrightarrow> e \<noteq> LogError MergeApplied \<Longrightarrow>
     lastCommitFile (snd (commitCycle env w r m)) = lastCommitFile w"
  by (auto simp: commitCycle_def Let_def split: if_splits)

lemma commitCycle_written:
  "lastCommitFile (snd (commitCycle env w r m)) \<noteq> lastCommitFile w \<Longrightarrow>
     workflowsFile (snd (commitCycle env w r m))
       = Stored ((json m)\<lparr> generatedAt := Some (writeTime env) \<rparr>)
     \<and> lastCommit (daemon (snd (commitCycle env w r m))) = Some (currentSHA r)"
  by (auto simp: commitCycle_def Let_def split: if_splits)

lemma zeroChanges_iff:
  "zeroChanges r \<longleftrightarrow>
     length (newFiles r) + length (removedFiles r) + length (modifiedFiles r) = 0"
  by (simp add: zeroChanges_def)

lemma tryBlock_returns: "\<exists>e w'. tryBlock env w = Returns (e, w')"
proof (cases "scan (cycleRepo env) (lastCommit (daemon w))")
  case (Inl cmd)
  then show ?thesis by (simp add: tryBlock_def)
next
  case (Inr r)
  obtain pvs where p: "parseFiles (newFiles r @ modifiedFiles r) = Returns pvs"
    using parseFiles_returns by blast
  show ?thesis
  proof (cases "loadDefs env (workflowsFile w)")
    case None
    with Inr p show ?thesis by (simp add: tryBlock_def Let_def)
  next
    case (Some cur)
    obtain e w' where "commitCycle env w r (merge cur r pvs) = (e, w')"
      by (cases "commitCycle env w r (merge cur r pvs)") auto
    with Inr p Some show ?thesis by (simp add: tryBlock_def Let_def)
  qed
qed

lemma tryBlock_zero:
  assumes "scan (cycleRepo env) (lastCommit (daemon w)) = Inr r" "zeroChanges r"
  shows "tryBlock env w =
     (if logFails env UpdateSkipped then Returns (Some (LogError UpdateSkipped), w)
      else if saveFails env
      then Returns (Some SaveError, w\<lparr> daemon := (daemon w)\<lparr> lastCommit := Some (currentSHA r) \<rparr> \<rparr>)
      else Returns (None, w\<lparr> daemon := (daemon w)\<lparr> lastCommit := Some (currentSHA r),
                                                 consecutiveErrors := 0 \<rparr>,
                              lastCommitFile := Some (currentSHA r) \<rparr>))"
  using assms by (simp add: tryBlock_def Let_def zeroChanges_def)

lemma tryBlock_changed:
  assumes "scan (cycleRepo env) (lastCommit (daemon w)) = Inr r" "\<not> zeroChanges r"
    "parseFiles (newFiles r @ modifiedFiles r) = Returns pvs"
  shows "tryBlock env w =
     (if logFails env CommitDetected then Returns (Some (LogError CommitDetected), w)
      else (case loadDefs env (workflowsFile w) of
              None \<Rightarrow> Returns (Some ReadError, w)
            | Some cur \<Rightarrow>
                if logFails env ScanComplete then Returns (Some (LogError ScanComplete), w)
                else if \<not> ok (validate cur (json (merge cur r pvs)))
                then (if logFails env ValidationFailed
                      then Returns (Some (LogError ValidationFailed), w)
                      else Returns (None, checkErrorThreshold (countError w)))
                else Returns (commitCycle env w r (merge cur r pvs))))"
proof -
  have nz: "(length (newFiles r) + length (removedFiles r) + length (modifiedFiles r) = 0) = False"
    using assms(2) by (simp add: zeroChanges_def)
  show ?thesis
    unfolding tryBlock_def Let_def assms(1) sum.case nz if_False assms(3) outcome.case
    by (simp split: option.splits)
qed

lemma tryBlock_cursor:
  assumes "tryBlock env w = Returns (e, w')" "\<not> logFails env PollTick"
  shows "lastCommitFile w' = (case cursorWrite env w of None \<Rightarrow> lastCommitFile w | Some sha \<Rightarrow> Some sha)"
proof (cases "scan (cycleRepo env) (lastCommit (daemon w))")
  case (Inl cmd)
  with assms show ?thesis by (simp add: tryBlock_def cursorWrite_def)
next
  case (Inr r)
  show ?thesis
  proof (cases "zeroChanges r")
    case True
    from assms(1) show ?thesis
      unfolding tryBlock_zero[OF Inr True] using Inr True assms(2)
      by (auto simp: cursorWrite_def split: if_splits)
  next
    case False
    obtain pvs where p: "parseFiles (newFiles r @ modifiedFiles r) = Returns pvs"
      using parseFiles_returns by blast
    note tb = tryBlock_changed[OF Inr False p]
    show ?thesis
    proof (cases "loadDefs env (workflowsFile w)")
      case None
      from assms(1) show ?thesis
        unfolding tb using Inr False p None
        by (auto simp: cursorWrite_def split: if_splits)
    next
      case (Some cur)
      show ?thesis
      proof (cases "logFails env CommitDetected \<or> logFails env ScanComplete
                    \<or> \<not> ok (validate cur (json (merge cur r pvs)))")
        case True
        from assms(1) show ?thesis
          unfolding tb using Inr False p Some True
          by (auto simp: cursorWrite_def split: if_splits)
      next
        case ok: False
        from assms(1) have "(e, w') = commitCycle env w r (merge cur r pvs)"
          unfolding tb using Some ok by simp
        then have "w' = snd (commitCycle env w r (merge cur r pvs))" by (metis snd_conv)
        with Inr False p Some ok assms(2) show ?thesis
          by (simp add: cursorWrite_def commitCycle_cursor)
      qed
    qed
  qed
qed

lemma stampCheck_fields [simp]:
  "lastCommitFile (stampCheck env w) = lastCommitFile w"
  "workflowsFile (stampCheck env w) = workflowsFile w"
  "lastCommit (daemon (stampCheck env w)) = lastCommit (daemon w)"
  by (simp_all add: stampCheck_def)

lemma cursorWrite_stampCheck [simp]: "cursorWrite env' (stampCheck env w) = cursorWrite env' w"
  by (simp add: cursorWrite_def split: sum.splits)

lemma cursorWrite_PollTick: "logFails env PollTick \<Longrightarrow> cursorWrite env w = None"
  by (simp add: cursorWrite_def split: sum.splits)

lemma pollCycle_returns: "\<exists>s w'. pollCycle env w = Returns (s, w')"
proof -
  obtain e w1 where "tryBlock env (stampCheck env w) = Returns (e, w1)"
    using tryBlock_returns by blast
  then show ?thesis by (cases e) (simp_all add: pollCycle_def Let_def)
qed

lemma pollCycle_cursor:
  assumes "pollCycle env w = Returns (s, w')"
  shows "lastCommitFile w' = (case cursorWrite env w of None \<Rightarrow> lastCommitFile w | Some sha \<Rightarrow> Some sha)"
proof (cases "logFails env PollTick")
  case True
  with assms show ?thesis by (auto simp: pollCycle_def Let_def cursorWrite_PollTick)
next
  case False
  obtain e w1 where tb: "tryBlock env (stampCheck env w) = Returns (e, w1)"
    using tryBlock_returns by blast
  from tryBlock_cursor[OF tb False]
  have c: "lastCommitFile w1 = (case cursorWrite env w of None \<Rightarrow> lastCommitFile w | Some sha \<Rightarrow> Some sha)"
    by (simp split: option.splits)
  from assms tb False have "lastCommitFile w' = lastCommitFile w1"
    by (cases e) (auto simp: pollCycle_def Let_def split: if_splits)
  with c show ?thesis by simp
qed

lemma cursorFileAfter_eq:
  "cursorFileAfter env w = (case cursorWrite env w of None \<Rightarrow> lastCommitFile w | Some sha \<Rightarrow> Some sha)"
proof -
  obtain s w' where p: "pollCycle env w = Returns (s, w')" using pollCycle_returns by blast
  from pollCycle_cursor[OF p] p show ?thesis by (simp add: cursorFileAfter_def)
qed

lemma tryBlock_thrown:
  assumes "tryBlock env w = Returns (Some e, w')" "e \<noteq> LogError MergeApplied"
  shows "lastCommitFile w' = lastCommitFile w"
proof (cases "scan (cycleRepo env) (lastCommit (daemon w))")
  case (Inl cmd)
  with assms show ?thesis by (simp add: tryBlock_def)
next
  case (Inr r)
  show ?thesis
  proof (cases "zeroChanges r")
    case True
    from assms(1) show ?thesis
      unfolding tryBlock_zero[OF Inr True] by (auto split: if_splits)
  next
    case False
    obtain pvs where p: "parseFiles (newFiles r @ modifiedFiles r) = Returns pvs"
      using parseFiles_returns by blast
    note tb = tryBlock_changed[OF Inr False p]
    show ?thesis
    proof (cases "loadDefs env (workflowsFile w)")
      case None
      from assms(1) show ?thesis unfolding tb using None by (auto split: if_splits)
    next
      case (Some cur)
      show ?thesis
      proof (cases "logFails env CommitDetected \<or> logFails env ScanComplete
                    \<or> \<not> ok (validate cur (json (merge cur r pvs)))")
        case True
        from assms(1) show ?thesis unfolding tb using Some True by (auto split: if_splits)
      next
        case ok: False
        from assms(1) have eq: "commitCycle env w r (merge cur r pvs) = (Some e, w')"
          unfolding tb using Some ok by simp
        from commitCycle_thrown[of env w r "merge cur r pvs" e] eq assms(2)
        show ?thesis by simp
      qed
    qed
  qed
qed

lemma thrown_keeps_cursor:
  assumes "thrownBy env w = Some e" "e \<noteq> LogError MergeApplied"
  shows "cursorFileAfter env w = lastCommitFile w"
proof -
  obtain t w1 where tb: "tryBlock env (stampCheck env w) = Returns (t, w1)"
    using tryBlock_returns by blast
  with assms(1) have t: "t = Some e" by (simp add: thrownBy_def)
  from tryBlock_thrown[OF tb[unfolded t] assms(2)] have c: "lastCommitFile w1 = lastCommitFile w" by simp
  show ?thesis
    using tb t c by (auto simp: cursorFileAfter_def pollCycle_def Let_def)
qed

lemma invalid_keeps_all:
  assumes sc: "scan (cycleRepo env) (lastCommit (daemon w)) = Inr r"
    and nz: "\<not> zeroChanges r"
    and pf: "parseFiles (newFiles r @ modifiedFiles r) = Returns pvs"
    and ld: "loadDefs env (workflowsFile w) = Some cur"
    and bad: "\<not> ok (validate cur (json (merge cur r pvs)))"
    and pc: "pollCycle env w = Returns (s, w')"
  shows "lastCommitFile w' = lastCommitFile w \<and> workflowsFile w' = workflowsFile w
         \<and> lastCommit (daemon w') = lastCommit (daemon w)"
proof -
  have sc': "scan (cycleRepo env) (lastCommit (daemon (stampCheck env w))) = Inr r" using sc by simp
  note tb = tryBlock_changed[OF sc' nz pf]
  show ?thesis
    using pc ld bad unfolding pollCycle_def Let_def tb
    by (auto split: if_splits)
qed

lemma cursorWrite_Some:
  assumes "cursorWrite env w = Some sha"
  shows "\<exists>r. scan (cycleRepo env) (lastCommit (daemon w)) = Inr r \<and> sha = currentSHA r
           \<and> (zeroChanges r
               \<or> (\<exists>pvs cur. parseFiles (newFiles r @ modifiedFiles r) = Returns pvs
                     \<and> loadDefs env (workflowsFile w) = Some cur
                     \<and> ok (validate cur (json (merge cur r pvs)))))"
  using assms
  by (auto simp: cursorWrite_def split: sum.splits if_splits outcome.splits option.splits)

lemma committed_graph:
  assumes sc: "scan (cycleRepo env) (lastCommit (daemon w)) = Inr r"
    and nz: "\<not> zeroChanges r"
    and pf: "parseFiles (newFiles r @ modifiedFiles r) = Returns pvs"
    and ld: "loadDefs env (workflowsFile w) = Some cur"
    and cw: "cursorWrite env w = Some sha"
    and pc: "pollCycle env w = Returns (s, w')"
  shows "workflowsFile w' = Stored ((json (merge cur r pvs))\<lparr> generatedAt := Some (writeTime env) \<rparr>)
         \<and> lastCommit (daemon w') = Some sha"
proof -
  have sc': "scan (cycleRepo env) (lastCommit (daemon (stampCheck env w))) = Inr r" using sc by simp
  note tb = tryBlock_changed[OF sc' nz pf]
  from cw sc nz pf ld have c: "ok (validate cur (json (merge cur r pvs)))"
    "\<not> logFails env CommitDetected" "\<not> logFails env ScanComplete" "\<not> logFails env PollTick"
    "\<not> (baselineFails env \<and> logFails env BaselineFailed)" "\<not> writeFails env"
    "\<not> (exportFails env \<and> logFails env ExportFailed)" "\<not> saveFails env" "sha = currentSHA r"
    by (auto simp: cursorWrite_def split: if_splits)
  show ?thesis
    using pc ld c unfolding pollCycle_def Let_def tb
    by (auto simp: commitCycle_def Let_def split: if_splits)
qed

lemma dispatch_returns: "\<exists>w'. dispatch ev w = Returns w'"
proof (cases ev)
  case (Tick env)
  obtain s w' where "pollCycle env w = Returns (s, w')" using pollCycle_returns by blast
  with Tick show ?thesis by (cases s) (simp_all add: dispatch_def)
next
  case CooldownElapsed
  then show ?thesis by (simp add: dispatch_def)
qed

lemma dispatch_cursor:
  assumes "dispatch ev w = Returns w'"
  shows "lastCommitFile w' = (case eventWrite ev w of None \<Rightarrow> lastCommitFile w | Some sha \<Rightarrow> Some sha)"
proof (cases ev)
  case (Tick env)
  show ?thesis
  proof (cases "polling w \<and> daemon_status (daemon w) = ''running''")
    case True
    obtain s w1 where p: "pollCycle env w = Returns (s, w1)" using pollCycle_returns by blast
    from assms Tick True p have "lastCommitFile w' = lastCommitFile w1"
      by (cases s) (auto simp: dispatch_def)
    with pollCycle_cursor[OF p] Tick True show ?thesis by (simp add: eventWrite_def)
  next
    case False
    with assms Tick show ?thesis by (auto simp: dispatch_def eventWrite_def)
  qed
next
  case CooldownElapsed
  with assms show ?thesis by (auto simp: dispatch_def eventWrite_def split: if_splits)
qed

lemma run_cursor:
  "\<exists>w'. run evs w = Returns w'
     \<and> lastCommitFile w' = (case lastWrite evs w of None \<Rightarrow> lastCommitFile w | Some sha \<Rightarrow> Some sha)"
proof (induction evs arbitrary: w)
  case Nil
  then show ?case by simp
next
  case (Cons ev evs)
  obtain w1 where s: "dispatch ev w = Returns w1" using dispatch_returns by blast
  from Cons.IH[of w1] obtain w' where
    r: "run evs w1 = Returns w'"
       "lastCommitFile w' = (case lastWrite evs w1 of None \<Rightarrow> lastCommitFile w1 | Some sha \<Rightarrow> Some sha)"
    by blast
  from dispatch_cursor[OF s] r s show ?case by (auto split: option.splits)
qed

lemma calm_scan: "scan readableRepo (Some ''abc'') = Inr contentScan"
  by code_simp

lemma calm_parse: "parseFiles [contentFile] = Returns [contentView]"
  by code_simp

lemma calm_valid: "ok (validate startDefs (json (merge startDefs contentScan [contentView])))"
  by code_simp

lemma intro_scan: "scan introRepo (Some ''abc'') = Inr introScan"
  by code_simp

lemma intro_parse: "parseFiles [introFile] = Returns [introView]"
  by code_simp

lemma intro_invalid: "\<not> ok (validate homeDefs (json (merge homeDefs introScan [introView])))"
  by code_simp

lemma content_changed: "\<not> zeroChanges contentScan"
  by (simp add: zeroChanges_def contentScan_def)

lemma intro_changed: "\<not> zeroChanges introScan"
  by (simp add: zeroChanges_def introScan_def)

lemma calm_tryBlock:
  assumes "cycleRepo env = readableRepo" "defaultTime env = ''t2''"
    "\<not> logFails env CommitDetected" "\<not> logFails env ScanComplete"
  shows "tryBlock env (stampCheck env freshWorld)
           = Returns (commitCycle env (stampCheck env freshWorld) contentScan
                        (merge startDefs contentScan [contentView]))"
proof -
  have sc: "scan (cycleRepo env) (lastCommit (daemon (stampCheck env freshWorld))) = Inr contentScan"
    using calm_scan assms(1) by (simp add: freshWorld_def freshDaemon_def)
  have pf: "parseFiles (newFiles contentScan @ modifiedFiles contentScan) = Returns [contentView]"
    using calm_parse by (simp add: contentScan_def)
  have ld: "loadDefs env (workflowsFile (stampCheck env freshWorld)) = Some startDefs"
    using assms(2) by (simp add: loadDefs_def freshWorld_def startDefs_def)
  show ?thesis
    using tryBlock_changed [OF sc content_changed pf] ld assms(3,4) calm_valid by simp
qed

lemma calm_cursorWrite: "cursorWrite calmEnv freshWorld = Some ''def''"
proof -
  have sc: "scan (cycleRepo calmEnv) (lastCommit (daemon freshWorld)) = Inr contentScan"
    using calm_scan by (simp add: calmEnv_def freshWorld_def freshDaemon_def)
  have pf: "parseFiles (newFiles contentScan @ modifiedFiles contentScan) = Returns [contentView]"
    using calm_parse by (simp add: contentScan_def)
  have ld: "loadDefs calmEnv (workflowsFile freshWorld) = Some startDefs"
    by (simp add: loadDefs_def freshWorld_def startDefs_def calmEnv_def)
  have sha: "currentSHA contentScan = ''def''" by (simp add: contentScan_def)
  show ?thesis
    unfolding cursorWrite_def sc sum.case pf ld
    using content_changed calm_valid sha by (simp add: calmEnv_def)
qed

lemma calm_lastWrite: "lastWrite [Tick calmEnv, CooldownElapsed] freshWorld = Some ''def''"
proof -
  obtain w1 where d1: "dispatch (Tick calmEnv) freshWorld = Returns w1"
    using dispatch_returns by blast
  obtain w2 where d2: "dispatch CooldownElapsed w1 = Returns w2"
    using dispatch_returns by blast
  have ew: "eventWrite (Tick calmEnv) freshWorld = Some ''def''"
    using calm_cursorWrite by (simp add: eventWrite_def freshWorld_def freshDaemon_def)
  have ec: "eventWrite CooldownElapsed w1 = None" by (simp add: eventWrite_def)
  show ?thesis
    by (simp add: d1 d2 ew ec)
qed

lemma intro_pipeline:
  "scan (cycleRepo introEnv) (lastCommit (daemon homeWorld)) = Inr introScan
   \<and> \<not> zeroChanges introScan
   \<and> parseFiles (newFiles introScan @ modifiedFiles introScan) = Returns [introView]
   \<and> loadDefs introEnv (workflowsFile homeWorld) = Some homeDefs
   \<and> \<not> ok (validate homeDefs (json (merge homeDefs introScan [introView])))"
proof -
  have a: "scan (cycleRepo introEnv) (lastCommit (daemon homeWorld)) = Inr introScan"
    using intro_scan by (simp add: introEnv_def calmEnv_def homeWorld_def freshWorld_def freshDaemon_def)
  have b: "parseFiles (newFiles introScan @ modifiedFiles introScan) = Returns [introView]"
    using intro_parse by (simp add: introScan_def)
  have c: "loadDefs introEnv (workflowsFile homeWorld) = Some homeDefs"
    by (simp add: loadDefs_def homeWorld_def)
  show ?thesis using a intro_changed b c intro_invalid by (intro conjI)
qed

lemma writeFail_thrown: "thrownBy writeFailEnv freshWorld = Some WriteError"
proof -
  have "tryBlock writeFailEnv (stampCheck writeFailEnv freshWorld)
          = Returns (commitCycle writeFailEnv (stampCheck writeFailEnv freshWorld) contentScan
                       (merge startDefs contentScan [contentView]))"
    by (rule calm_tryBlock) (simp_all add: writeFailEnv_def calmEnv_def)
  then show ?thesis
    by (simp add: thrownBy_def commitCycle_def writeFailEnv_def calmEnv_def)
qed

lemma rewound_scan:
  "scan rewoundRepo (Some ''def'')
     = Inr \<lparr> currentSHA = ''abc'', newFiles = [], removedFiles = [], modifiedFiles = [] \<rparr>"
  by code_simp

lemma cursorAfterRun_eq:
  "cursorAfterRun evs w
     = (case lastWrite evs w of None \<Rightarrow> lastCommitFile w | Some sha \<Rightarrow> Some sha)"
proof -
  obtain w' where r: "run evs w = Returns w'"
    "lastCommitFile w' = (case lastWrite evs w of None \<Rightarrow> lastCommitFile w | Some sha \<Rightarrow> Some sha)"
    using run_cursor by blast
  then show ?thesis by (simp add: cursorAfterRun_def)
qed

lemma calm_world:
  "\<exists>w1. dispatch (Tick calmEnv) freshWorld = Returns w1 \<and> polling w1
        \<and> daemon_status (daemon w1) = ''running'' \<and> lastCommit (daemon w1) = Some ''def''"
proof -
  have tb: "tryBlock calmEnv (stampCheck calmEnv freshWorld)
          = Returns (commitCycle calmEnv (stampCheck calmEnv freshWorld) contentScan
                       (merge startDefs contentScan [contentView]))"
    by (rule calm_tryBlock) (simp_all add: calmEnv_def)
  have cc: "\<exists>w1. commitCycle calmEnv (stampCheck calmEnv freshWorld) contentScan
                  (merge startDefs contentScan [contentView]) = (None, w1)
              \<and> polling w1 \<and> daemon_status (daemon w1) = ''running''
              \<and> lastCommit (daemon w1) = Some ''def''"
    by (simp add: commitCycle_def Let_def calmEnv_def contentScan_def stampCheck_def
        freshWorld_def freshDaemon_def)
  then obtain w1 where w1: "commitCycle calmEnv (stampCheck calmEnv freshWorld) contentScan
                  (merge startDefs contentScan [contentView]) = (None, w1)"
      "polling w1" "daemon_status (daemon w1) = ''running''" "lastCommit (daemon w1) = Some ''def''"
    by blast
  have nl: "\<not> logFails calmEnv PollTick" by (simp add: calmEnv_def)
  have pr: "polling freshWorld \<and> daemon_status (daemon freshWorld) = ''running''"
    by (simp add: freshWorld_def freshDaemon_def)
  have "dispatch (Tick calmEnv) freshWorld = Returns w1"
    by (simp add: dispatch_def pollCycle_def Let_def nl tb w1(1) pr)
  then show ?thesis using w1 by blast
qed

lemma rewound_lastWrite: "lastWrite [Tick calmEnv, Tick rewoundEnv] freshWorld = Some ''abc''"
proof -
  from calm_world obtain w1 where
    d1: "dispatch (Tick calmEnv) freshWorld = Returns w1" and
    w1: "polling w1" "daemon_status (daemon w1) = ''running''" "lastCommit (daemon w1) = Some ''def''"
    by blast
  obtain w2 where d2: "dispatch (Tick rewoundEnv) w1 = Returns w2"
    using dispatch_returns by blast
  have sc: "scan (cycleRepo rewoundEnv) (lastCommit (daemon w1))
     = Inr \<lparr> currentSHA = ''abc'', newFiles = [], removedFiles = [], modifiedFiles = [] \<rparr>"
    using rewound_scan w1(3) by (simp add: rewoundEnv_def)
  have cw: "cursorWrite rewoundEnv w1 = Some ''abc''"
    unfolding cursorWrite_def sc sum.case
    by (simp add: zeroChanges_def rewoundEnv_def calmEnv_def)
  have ew: "eventWrite (Tick rewoundEnv) w1 = Some ''abc''"
    using cw w1 by (simp add: eventWrite_def)
  show ?thesis by (simp add: d1 d2 ew)
qed

lemma calm_run: "lastWrite [Tick calmEnv] freshWorld = Some ''def''"
proof -
  obtain w1 where d1: "dispatch (Tick calmEnv) freshWorld = Returns w1"
    using dispatch_returns by blast
  have ew: "eventWrite (Tick calmEnv) freshWorld = Some ''def''"
    using calm_cursorWrite by (simp add: eventWrite_def freshWorld_def freshDaemon_def)
  show ?thesis by (simp add: d1 ew)
qed

lemma calm_cycle_holds:
  "(\<forall>p. \<not> logFails calmEnv p) \<and> \<not> writeFails calmEnv \<and> \<not> saveFails calmEnv
   \<and> scan (cycleRepo calmEnv) (lastCommit (daemon freshWorld)) = Inr contentScan
   \<and> (zeroChanges contentScan
       \<or> parseFiles (newFiles contentScan @ modifiedFiles contentScan) = Returns [contentView]
         \<and> loadDefs calmEnv (workflowsFile freshWorld) = Some startDefs
         \<and> ok (validate startDefs (json (merge startDefs contentScan [contentView]))))"
proof -
  have sc: "scan (cycleRepo calmEnv) (lastCommit (daemon freshWorld)) = Inr contentScan"
    using calm_scan by (simp add: calmEnv_def freshWorld_def freshDaemon_def)
  have pf: "parseFiles (newFiles contentScan @ modifiedFiles contentScan) = Returns [contentView]"
    using calm_parse by (simp add: contentScan_def)
  have ld: "loadDefs calmEnv (workflowsFile freshWorld) = Some startDefs"
    by (simp add: loadDefs_def freshWorld_def startDefs_def calmEnv_def)
  have e: "(\<forall>p. \<not> logFails calmEnv p) \<and> \<not> writeFails calmEnv \<and> \<not> saveFails calmEnv"
    by (simp add: calmEnv_def)
  show ?thesis using e sc pf ld calm_valid by blast
qed

text \<open>
  Claim C2, amended. Every run of the poll loop returns, and the persisted cursor after
  it is the revision of the last cycle of the run that reached its write of the cursor,
  or the cursor of the start when there is none. Every cycle returns. A cycle reaches
  the write of the cursor exactly in the cases of \<open>cursorWrite\<close>, and writes the head that
  its scan read: the scan succeeded, and either it observed no change, or the candidate
  graph is valid, the graph file holds it and the revision in memory is the written one;
  and no effect before the write failed. A cycle whose candidate fails validation leaves
  the cursor, the graph file and the revision in memory as they were. A cycle whose
  \<^verbatim>\<open>try\<close> block throws anything but the failure of the last log call leaves the cursor
  as it was. In a cycle in which no log call, no write of the graph file and no save of
  the cursor fails, whose scan succeeds and observes no change or whose candidate is
  valid, the cursor is written and is the head that the scan read.
\<close>

theorem cursor_follows_committed_cycles:
  "(\<exists>w'. run evs w = Returns w'
         \<and> lastCommitFile w'
             = (case lastWrite evs w of None \<Rightarrow> lastCommitFile w | Some sha \<Rightarrow> Some sha))
   \<and> (\<exists>s w'. pollCycle env w = Returns (s, w'))
   \<and> cursorFileAfter env w
       = (case cursorWrite env w of None \<Rightarrow> lastCommitFile w | Some sha \<Rightarrow> Some sha)
   \<and> (cursorWrite env w = Some sha \<longrightarrow>
        (\<exists>r. scan (cycleRepo env) (lastCommit (daemon w)) = Inr r \<and> sha = currentSHA r
           \<and> (zeroChanges r
               \<or> (\<exists>pvs cur. parseFiles (newFiles r @ modifiedFiles r) = Returns pvs
                     \<and> loadDefs env (workflowsFile w) = Some cur
                     \<and> ok (validate cur (json (merge cur r pvs)))
                     \<and> (\<forall>s w'. pollCycle env w = Returns (s, w') \<longrightarrow>
                           workflowsFile w'
                             = Stored ((json (merge cur r pvs))\<lparr> generatedAt := Some (writeTime env) \<rparr>)
                           \<and> lastCommit (daemon w') = Some sha)))))
   \<and> (scan (cycleRepo env) (lastCommit (daemon w)) = Inr r \<and> \<not> zeroChanges r
        \<and> parseFiles (newFiles r @ modifiedFiles r) = Returns pvs
        \<and> loadDefs env (workflowsFile w) = Some cur
        \<and> \<not> ok (validate cur (json (merge cur r pvs))) \<longrightarrow>
        cursorFileAfter env w = lastCommitFile w
        \<and> (\<forall>s w'. pollCycle env w = Returns (s, w') \<longrightarrow>
              workflowsFile w' = workflowsFile w \<and> lastCommit (daemon w') = lastCommit (daemon w)))
   \<and> (thrownBy env w = Some e \<and> e \<noteq> LogError MergeApplied \<longrightarrow>
        cursorFileAfter env w = lastCommitFile w)
   \<and> ((\<forall>p. \<not> logFails env p) \<and> \<not> writeFails env \<and> \<not> saveFails env
        \<and> scan (cycleRepo env) (lastCommit (daemon w)) = Inr r
        \<and> (zeroChanges r
            \<or> parseFiles (newFiles r @ modifiedFiles r) = Returns pvs
              \<and> loadDefs env (workflowsFile w) = Some cur
              \<and> ok (validate cur (json (merge cur r pvs)))) \<longrightarrow>
        cursorWrite env w = Some (currentSHA r)
        \<and> cursorFileAfter env w = Some (currentSHA r))"
proof -
  have a: "cursorWrite env w = Some sha \<longrightarrow>
        (\<exists>r. scan (cycleRepo env) (lastCommit (daemon w)) = Inr r \<and> sha = currentSHA r
           \<and> (zeroChanges r
               \<or> (\<exists>pvs cur. parseFiles (newFiles r @ modifiedFiles r) = Returns pvs
                     \<and> loadDefs env (workflowsFile w) = Some cur
                     \<and> ok (validate cur (json (merge cur r pvs)))
                     \<and> (\<forall>s w'. pollCycle env w = Returns (s, w') \<longrightarrow>
                           workflowsFile w'
                             = Stored ((json (merge cur r pvs))\<lparr> generatedAt := Some (writeTime env) \<rparr>)
                           \<and> lastCommit (daemon w') = Some sha))))"
  proof
    assume cw: "cursorWrite env w = Some sha"
    from cursorWrite_Some[OF cw] obtain r0 where
      r0: "scan (cycleRepo env) (lastCommit (daemon w)) = Inr r0" "sha = currentSHA r0"
          "zeroChanges r0
           \<or> (\<exists>pvs cur. parseFiles (newFiles r0 @ modifiedFiles r0) = Returns pvs
                 \<and> loadDefs env (workflowsFile w) = Some cur
                 \<and> ok (validate cur (json (merge cur r0 pvs))))"
      by blast
    show "\<exists>r. scan (cycleRepo env) (lastCommit (daemon w)) = Inr r \<and> sha = currentSHA r
           \<and> (zeroChanges r
               \<or> (\<exists>pvs cur. parseFiles (newFiles r @ modifiedFiles r) = Returns pvs
                     \<and> loadDefs env (workflowsFile w) = Some cur
                     \<and> ok (validate cur (json (merge cur r pvs)))
                     \<and> (\<forall>s w'. pollCycle env w = Returns (s, w') \<longrightarrow>
                           workflowsFile w'
                             = Stored ((json (merge cur r pvs))\<lparr> generatedAt := Some (writeTime env) \<rparr>)
                           \<and> lastCommit (daemon w') = Some sha)))"
    proof (cases "zeroChanges r0")
      case True
      with r0 show ?thesis by blast
    next
      case False
      with r0(3) obtain pvs0 cur0 where
        pc: "parseFiles (newFiles r0 @ modifiedFiles r0) = Returns pvs0"
            "loadDefs env (workflowsFile w) = Some cur0"
            "ok (validate cur0 (json (merge cur0 r0 pvs0)))" by blast
      have "\<forall>s w'. pollCycle env w = Returns (s, w') \<longrightarrow>
                           workflowsFile w'
                             = Stored ((json (merge cur0 r0 pvs0))\<lparr> generatedAt := Some (writeTime env) \<rparr>)
                           \<and> lastCommit (daemon w') = Some sha"
        using committed_graph[OF r0(1) False pc(1) pc(2) cw] by blast
      with r0 pc show ?thesis by blast
    qed
  qed
  have b: "scan (cycleRepo env) (lastCommit (daemon w)) = Inr r \<and> \<not> zeroChanges r
        \<and> parseFiles (newFiles r @ modifiedFiles r) = Returns pvs
        \<and> loadDefs env (workflowsFile w) = Some cur
        \<and> \<not> ok (validate cur (json (merge cur r pvs))) \<longrightarrow>
        cursorFileAfter env w = lastCommitFile w
        \<and> (\<forall>s w'. pollCycle env w = Returns (s, w') \<longrightarrow>
              workflowsFile w' = workflowsFile w \<and> lastCommit (daemon w') = lastCommit (daemon w))"
  proof
    assume h: "scan (cycleRepo env) (lastCommit (daemon w)) = Inr r \<and> \<not> zeroChanges r
        \<and> parseFiles (newFiles r @ modifiedFiles r) = Returns pvs
        \<and> loadDefs env (workflowsFile w) = Some cur
        \<and> \<not> ok (validate cur (json (merge cur r pvs)))"
    then have keep: "\<And>s w'. pollCycle env w = Returns (s, w') \<Longrightarrow>
        lastCommitFile w' = lastCommitFile w \<and> workflowsFile w' = workflowsFile w
        \<and> lastCommit (daemon w') = lastCommit (daemon w)"
      using invalid_keeps_all[of env w r pvs cur] by blast
    obtain s w' where p: "pollCycle env w = Returns (s, w')" using pollCycle_returns by blast
    from keep[OF p] p have "cursorFileAfter env w = lastCommitFile w"
      by (simp add: cursorFileAfter_def)
    with keep show "cursorFileAfter env w = lastCommitFile w
        \<and> (\<forall>s w'. pollCycle env w = Returns (s, w') \<longrightarrow>
              workflowsFile w' = workflowsFile w \<and> lastCommit (daemon w') = lastCommit (daemon w))"
      by blast
  qed
  have c: "thrownBy env w = Some e \<and> e \<noteq> LogError MergeApplied \<longrightarrow>
        cursorFileAfter env w = lastCommitFile w"
    using thrown_keeps_cursor by blast
  have d: "(\<forall>p. \<not> logFails env p) \<and> \<not> writeFails env \<and> \<not> saveFails env
        \<and> scan (cycleRepo env) (lastCommit (daemon w)) = Inr r
        \<and> (zeroChanges r
            \<or> parseFiles (newFiles r @ modifiedFiles r) = Returns pvs
              \<and> loadDefs env (workflowsFile w) = Some cur
              \<and> ok (validate cur (json (merge cur r pvs)))) \<longrightarrow>
        cursorWrite env w = Some (currentSHA r)
        \<and> cursorFileAfter env w = Some (currentSHA r)"
  proof
    assume h: "(\<forall>p. \<not> logFails env p) \<and> \<not> writeFails env \<and> \<not> saveFails env
        \<and> scan (cycleRepo env) (lastCommit (daemon w)) = Inr r
        \<and> (zeroChanges r
            \<or> parseFiles (newFiles r @ modifiedFiles r) = Returns pvs
              \<and> loadDefs env (workflowsFile w) = Some cur
              \<and> ok (validate cur (json (merge cur r pvs))))"
    then have lf: "\<And>p. logFails env p = False" by simp
    from h have "cursorWrite env w = Some (currentSHA r)"
      by (auto simp: cursorWrite_def lf)
    then show "cursorWrite env w = Some (currentSHA r)
        \<and> cursorFileAfter env w = Some (currentSHA r)"
      by (simp add: cursorFileAfter_eq)
  qed
  show ?thesis
    using run_cursor[of evs w] pollCycle_returns[of env w] cursorFileAfter_eq[of env w] a b c d
    by (intro conjI)
qed



text \<open>
  Claim C2 as stated fails in three ways. A cycle that throws can move the cursor: when
  the call that logs \<^verbatim>\<open>MERGE_APPLIED\<close> fails, the cycle throws after the cursor was
  saved, and the cursor has moved from \<open>abc\<close> to \<open>def\<close>. The cursor can go back: after a
  cycle that moved it from \<open>abc\<close> to \<open>def\<close>, a cycle on a repository whose head is \<open>abc\<close>
  again and that observes no change writes \<open>abc\<close>. The cursor can stay behind a
  validated revision: when the save of the cursor fails, the candidate of revision
  \<open>def\<close> is valid and the graph file holds it, and the cursor is still \<open>abc\<close>.
\<close>

theorem cursor_moves_back_and_on_throw:
  "thrownBy lateLogEnv freshWorld = Some (LogError MergeApplied)
   \<and> lastCommitFile freshWorld = Some ''abc''
   \<and> cursorFileAfter lateLogEnv freshWorld = Some ''def''
   \<and> cursorAfterRun [] freshWorld = Some ''abc''
   \<and> cursorAfterRun [Tick calmEnv] freshWorld = Some ''def''
   \<and> cursorAfterRun [Tick calmEnv, Tick rewoundEnv] freshWorld = Some ''abc''
   \<and> thrownBy saveFailEnv freshWorld = Some SaveError
   \<and> ok (validate startDefs (json (merge startDefs contentScan [contentView])))
   \<and> currentSHA contentScan = ''def''
   \<and> graphFileAfter saveFailEnv freshWorld
       = Stored ((json (merge startDefs contentScan [contentView]))\<lparr> generatedAt := Some ''t3'' \<rparr>)
   \<and> cursorFileAfter saveFailEnv freshWorld = Some ''abc''"
proof -
  have tb: "tryBlock lateLogEnv (stampCheck lateLogEnv freshWorld)
          = Returns (commitCycle lateLogEnv (stampCheck lateLogEnv freshWorld) contentScan
                       (merge startDefs contentScan [contentView]))"
    by (rule calm_tryBlock) (simp_all add: lateLogEnv_def calmEnv_def)
  have cc: "\<exists>w'. commitCycle lateLogEnv (stampCheck lateLogEnv freshWorld) contentScan
                  (merge startDefs contentScan [contentView])
               = (Some (LogError MergeApplied), w') \<and> lastCommitFile w' = Some ''def''"
    by (simp add: commitCycle_def Let_def lateLogEnv_def calmEnv_def contentScan_def)
  then obtain w' where w': "commitCycle lateLogEnv (stampCheck lateLogEnv freshWorld) contentScan
                  (merge startDefs contentScan [contentView])
               = (Some (LogError MergeApplied), w')" "lastCommitFile w' = Some ''def''"
    by blast
  have a: "thrownBy lateLogEnv freshWorld = Some (LogError MergeApplied)"
    by (simp add: thrownBy_def tb w')
  have b: "lastCommitFile freshWorld = Some ''abc''" by (simp add: freshWorld_def)
  have nl: "\<not> logFails lateLogEnv PollTick" "\<not> logFails lateLogEnv CycleError"
    by (simp_all add: lateLogEnv_def calmEnv_def)
  have c: "cursorFileAfter lateLogEnv freshWorld = Some ''def''"
    by (simp add: cursorFileAfter_def pollCycle_def Let_def nl tb w')
  have r0: "cursorAfterRun [] freshWorld = Some ''abc''"
    by (simp add: cursorAfterRun_def freshWorld_def)
  have r1: "cursorAfterRun [Tick calmEnv] freshWorld = Some ''def''"
    unfolding cursorAfterRun_eq calm_run by simp
  have r2: "cursorAfterRun [Tick calmEnv, Tick rewoundEnv] freshWorld = Some ''abc''"
    unfolding cursorAfterRun_eq rewound_lastWrite by simp
  have tbs: "tryBlock saveFailEnv (stampCheck saveFailEnv freshWorld)
          = Returns (commitCycle saveFailEnv (stampCheck saveFailEnv freshWorld) contentScan
                       (merge startDefs contentScan [contentView]))"
    by (rule calm_tryBlock) (simp_all add: saveFailEnv_def calmEnv_def)
  have ccs: "\<exists>w'. commitCycle saveFailEnv (stampCheck saveFailEnv freshWorld) contentScan
                  (merge startDefs contentScan [contentView]) = (Some SaveError, w')
               \<and> lastCommitFile w' = Some ''abc''
               \<and> workflowsFile w'
                   = Stored ((json (merge startDefs contentScan [contentView]))
                               \<lparr> generatedAt := Some ''t3'' \<rparr>)"
    by (simp add: commitCycle_def Let_def saveFailEnv_def calmEnv_def freshWorld_def stampCheck_def)
  then obtain ws where ws: "commitCycle saveFailEnv (stampCheck saveFailEnv freshWorld) contentScan
                  (merge startDefs contentScan [contentView]) = (Some SaveError, ws)"
      "lastCommitFile ws = Some ''abc''"
      "workflowsFile ws = Stored ((json (merge startDefs contentScan [contentView]))
                               \<lparr> generatedAt := Some ''t3'' \<rparr>)"
    by blast
  have s1: "thrownBy saveFailEnv freshWorld = Some SaveError"
    by (simp add: thrownBy_def tbs ws)
  have nls: "\<not> logFails saveFailEnv PollTick" "\<not> logFails saveFailEnv CycleError"
    by (simp_all add: saveFailEnv_def calmEnv_def)
  have s2: "graphFileAfter saveFailEnv freshWorld
       = Stored ((json (merge startDefs contentScan [contentView]))\<lparr> generatedAt := Some ''t3'' \<rparr>)"
    by (simp add: graphFileAfter_def pollCycle_def Let_def nls tbs ws)
  have s3: "cursorFileAfter saveFailEnv freshWorld = Some ''abc''"
    by (simp add: cursorFileAfter_def pollCycle_def Let_def nls tbs ws)
  have sha: "currentSHA contentScan = ''def''" by (simp add: contentScan_def)
  show ?thesis using a b c r0 r1 r2 s1 calm_valid sha s2 s3 by (intro conjI)
qed

text \<open>
  A run of one calm cycle and a cooldown that writes \<open>def\<close>; the cycle on the graph with
  the home step, whose candidate is invalid; a cycle in which the write of the graph
  file fails; and the calm cycle, in which no effect fails and the candidate is valid.
\<close>

theorem cursor_follows_committed_cycles_witness:
  "lastWrite [Tick calmEnv, CooldownElapsed] freshWorld = Some ''def''
   \<and> (\<exists>w'. run [Tick calmEnv, CooldownElapsed] freshWorld = Returns w'
          \<and> lastCommitFile w' = Some ''def'')
   \<and> cursorWrite calmEnv freshWorld = Some ''def''
   \<and> cursorFileAfter calmEnv freshWorld = Some ''def''
   \<and> (\<exists>r. scan (cycleRepo calmEnv) (lastCommit (daemon freshWorld)) = Inr r \<and> currentSHA r = ''def'')
   \<and> scan (cycleRepo introEnv) (lastCommit (daemon homeWorld)) = Inr introScan
   \<and> \<not> zeroChanges introScan
   \<and> parseFiles (newFiles introScan @ modifiedFiles introScan) = Returns [introView]
   \<and> loadDefs introEnv (workflowsFile homeWorld) = Some homeDefs
   \<and> \<not> ok (validate homeDefs (json (merge homeDefs introScan [introView])))
   \<and> cursorFileAfter introEnv homeWorld = Some ''abc''
   \<and> thrownBy writeFailEnv freshWorld = Some WriteError
   \<and> cursorFileAfter writeFailEnv freshWorld = Some ''abc''
   \<and> (\<forall>p. \<not> logFails calmEnv p) \<and> \<not> writeFails calmEnv \<and> \<not> saveFails calmEnv
   \<and> scan (cycleRepo calmEnv) (lastCommit (daemon freshWorld)) = Inr contentScan
   \<and> ok (validate startDefs (json (merge startDefs contentScan [contentView])))
   \<and> cursorFileAfter calmEnv freshWorld = Some (currentSHA contentScan)"
proof -
  note t = cursor_follows_committed_cycles
  note t1 = t [THEN conjunct1]
  note t3 = t [THEN conjunct2, THEN conjunct2, THEN conjunct1]
  note t4 = t [THEN conjunct2, THEN conjunct2, THEN conjunct2, THEN conjunct1, rule_format]
  note t5 = t [THEN conjunct2, THEN conjunct2, THEN conjunct2, THEN conjunct2, THEN conjunct1,
               rule_format]
  note t6 = t [THEN conjunct2, THEN conjunct2, THEN conjunct2, THEN conjunct2, THEN conjunct2,
               THEN conjunct1, rule_format]
  note t7 = t [THEN conjunct2, THEN conjunct2, THEN conjunct2, THEN conjunct2, THEN conjunct2,
               THEN conjunct2, rule_format]
  have c0: "lastCommitFile freshWorld = Some ''abc''" "lastCommitFile homeWorld = Some ''abc''"
    by (simp_all add: freshWorld_def homeWorld_def)
  have c1: "\<exists>w'. run [Tick calmEnv, CooldownElapsed] freshWorld = Returns w'
          \<and> lastCommitFile w' = Some ''def''"
    using t1 [of "[Tick calmEnv, CooldownElapsed]" freshWorld] calm_lastWrite by simp
  have c2: "cursorFileAfter calmEnv freshWorld = Some ''def''"
    using t3 [of calmEnv freshWorld] calm_cursorWrite by simp
  have c3: "\<exists>r. scan (cycleRepo calmEnv) (lastCommit (daemon freshWorld)) = Inr r \<and> currentSHA r = ''def''"
    using t4 [of calmEnv freshWorld "''def''", OF calm_cursorWrite] by auto
  have c4: "cursorFileAfter introEnv homeWorld = Some ''abc''"
    using t5 [of introEnv homeWorld introScan "[introView]" homeDefs, OF intro_pipeline] c0 by simp
  have ne: "WriteError \<noteq> LogError MergeApplied" by simp
  have c5: "cursorFileAfter writeFailEnv freshWorld = Some ''abc''"
    using t6 [of writeFailEnv freshWorld WriteError, OF conjI [OF writeFail_thrown ne]] c0 by simp
  note ch = calm_cycle_holds
  have c6: "cursorFileAfter calmEnv freshWorld = Some (currentSHA contentScan)"
    using t7 [of calmEnv freshWorld contentScan "[contentView]" startDefs, OF ch, THEN conjunct2] .
  note ip = intro_pipeline
  show ?thesis
    using calm_lastWrite c1 calm_cursorWrite c2 c3
      ip [THEN conjunct1] ip [THEN conjunct2, THEN conjunct1]
      ip [THEN conjunct2, THEN conjunct2, THEN conjunct1]
      ip [THEN conjunct2, THEN conjunct2, THEN conjunct2, THEN conjunct1]
      ip [THEN conjunct2, THEN conjunct2, THEN conjunct2, THEN conjunct2]
      c4 writeFail_thrown c5
      ch [THEN conjunct1] ch [THEN conjunct2, THEN conjunct1]
      ch [THEN conjunct2, THEN conjunct2, THEN conjunct1]
      ch [THEN conjunct2, THEN conjunct2, THEN conjunct2, THEN conjunct1]
      calm_valid c6
    by (intro conjI)
qed


section \<open>Properties of the resolution of edge targets\<close>

lemma resolve_inner_set:
  "set (foldl (\<lambda>ids step. if screen step = d \<and> step_id step \<notin> set ids
                             then ids @ [step_id step] else ids) acc ss)
     = set acc \<union> step_id ` {s \<in> set ss. screen s = d}"
  by (induction ss arbitrary: acc) auto

lemma resolve_inner_distinct:
  "distinct acc \<Longrightarrow>
   distinct (foldl (\<lambda>ids step. if screen step = d \<and> step_id step \<notin> set ids
                             then ids @ [step_id step] else ids) acc ss)"
  by (induction ss arbitrary: acc) auto

lemma resolve_mid_set:
  "set (foldl (\<lambda>nextIds' journey.
                 foldl (\<lambda>ids step. if screen step = d \<and> step_id step \<notin> set ids
                                     then ids @ [step_id step] else ids)
                       nextIds' (steps journey)) acc js)
     = set acc \<union> step_id ` {s \<in> set (concat (map steps js)). screen s = d}"
proof (induction js arbitrary: acc)
  case Nil
  then show ?case by simp
next
  case (Cons j js)
  show ?case unfolding foldl_Cons Cons.IH resolve_inner_set by auto
qed

lemma resolve_mid_distinct:
  "distinct acc \<Longrightarrow>
   distinct (foldl (\<lambda>nextIds' journey.
                 foldl (\<lambda>ids step. if screen step = d \<and> step_id step \<notin> set ids
                                     then ids @ [step_id step] else ids)
                       nextIds' (steps journey)) acc js)"
  by (induction js arbitrary: acc) (simp_all add: resolve_inner_distinct)

lemma resolve_outer_set:
  "set (foldl (\<lambda>nextIds edge.
              foldl (\<lambda>nextIds' journey.
                       foldl (\<lambda>ids step.
                                if screen step = destination edge \<and> step_id step \<notin> set ids
                                then ids @ [step_id step] else ids)
                             nextIds' (steps journey))
                    nextIds js) acc es)
     = set acc \<union> step_id ` {s \<in> set (concat (map steps js)). screen s \<in> destination ` set es}"
proof (induction es arbitrary: acc)
  case Nil
  then show ?case by simp
next
  case (Cons e es)
  show ?case unfolding foldl_Cons Cons.IH resolve_mid_set by auto
qed

lemma resolve_outer_distinct:
  "distinct acc \<Longrightarrow>
   distinct (foldl (\<lambda>nextIds edge.
              foldl (\<lambda>nextIds' journey.
                       foldl (\<lambda>ids step.
                                if screen step = destination edge \<and> step_id step \<notin> set ids
                                then ids @ [step_id step] else ids)
                             nextIds' (steps journey))
                    nextIds js) acc es)"
  by (induction es arbitrary: acc) (simp_all add: resolve_mid_distinct)

lemma set_resolveNext:
  "set (resolveNext pv g)
     = step_id ` {s \<in> set (concat (map steps (journeys g))).
                    screen s \<in> destination ` set (presentsTo pv)}"
  unfolding resolveNext_def resolve_outer_set by simp

lemma distinct_resolveNext: "distinct (resolveNext pv g)"
  unfolding resolveNext_def by (rule resolve_outer_distinct) simp

lemma validateStep_reference:
  assumes "n \<in> set (step_next s)" "n \<notin> set ids"
  shows "(if step_id s = [] then StepMissingId jid else NextRefNotFound jid (step_id s) n)
           \<in> set (fst (validateStep jid ids st s))"
  using assms by (simp add: validateStep_def Let_def checkNextRefs_def)

lemma foldl_validateStep_reference:
  assumes "s \<in> set ss" "n \<in> set (step_next s)" "n \<notin> set ids"
  shows "(if step_id s = [] then StepMissingId jid else NextRefNotFound jid (step_id s) n)
           \<in> set (fst (foldl (validateStep jid ids) st ss))"
  using assms(1)
proof (induction ss arbitrary: st)
  case Nil
  then show ?case by simp
next
  case (Cons a ss)
  show ?case
  proof (cases "s = a")
    case True
    obtain zs where "fst (foldl (validateStep jid ids) (validateStep jid ids st a) ss)
       = fst (validateStep jid ids st a) @ zs"
      using foldl_validateStep_grows by blast
    then show ?thesis
      using validateStep_reference[OF assms(2,3), of jid st] True by simp
  next
    case False
    then show ?thesis using Cons by simp
  qed
qed

lemma validateJourney_reference:
  assumes "s \<in> set (steps j)" "n \<in> set (step_next s)" "n \<notin> set (map step_id (steps j))"
  shows "(if step_id s = [] then StepMissingId (journey_id j)
          else NextRefNotFound (journey_id j) (step_id s) n)
           \<in> set (fst (validateJourney cur st j))"
  using foldl_validateStep_reference[OF assms]
  by (simp add: validateJourney_def Let_def)

lemma foldl_validateJourney_reference:
  assumes "j \<in> set js" "s \<in> set (steps j)" "n \<in> set (step_next s)"
    "n \<notin> set (map step_id (steps j))"
  shows "(if step_id s = [] then StepMissingId (journey_id j)
          else NextRefNotFound (journey_id j) (step_id s) n)
           \<in> set (fst (foldl (validateJourney cur) st js))"
  using assms(1)
proof (induction js arbitrary: st)
  case Nil
  then show ?case by simp
next
  case (Cons a js)
  show ?case
  proof (cases "j = a")
    case True
    obtain zs where "fst (foldl (validateJourney cur) (validateJourney cur st a) js)
       = fst (validateJourney cur st a) @ zs"
      using foldl_validateJourney_grows by blast
    then show ?thesis
      using validateJourney_reference[OF assms(2,3,4), of cur st] True by simp
  next
    case False
    then show ?thesis using Cons by simp
  qed
qed

lemma validate_reference:
  assumes "j \<in> set (journeys cand)" "s \<in> set (steps j)" "n \<in> set (step_next s)"
    "n \<notin> set (map step_id (steps j))"
  shows "(if step_id s = [] then StepMissingId (journey_id j)
          else NextRefNotFound (journey_id j) (step_id s) n)
           \<in> set (errors (validate prev cand))"
  using foldl_validateJourney_reference[OF assms]
  by (simp add: validate_def Let_def)

lemma hasCrossReference_iff:
  "hasCrossReference g
     = (\<exists>j \<in> set (journeys g). \<exists>s \<in> set (steps j). \<exists>n \<in> set (step_next s).
          n \<notin> set (map step_id (steps j)))"
  by (simp add: hasCrossReference_def list_ex_iff)

lemma validate_rejects_reference:
  assumes "hasCrossReference cand"
  shows "\<not> ok (validate prev cand)"
proof -
  from assms obtain j s n where
    h: "j \<in> set (journeys cand)" "s \<in> set (steps j)" "n \<in> set (step_next s)"
       "n \<notin> set (map step_id (steps j))"
    unfolding hasCrossReference_iff by blast
  have "errors (validate prev cand) \<noteq> []"
    using validate_reference[OF h, of prev] by auto
  then show ?thesis by (simp add: validate_def Let_def)
qed

lemma intro_merged:
  "journeys (json (merge homeDefs introScan [introView]))
     = journeys homeDefs
       @ [(newJourney ''first-launch'')\<lparr> steps := [newStep introView introPath [''home'']] \<rparr>]"
  by code_simp

lemma intro_errors:
  "errors (validate homeDefs (json (merge homeDefs introScan [introView])))
     = [NextRefNotFound ''first-launch'' ''intro-view'' ''home'']"
  by code_simp

lemma intro_untracked:
  "parsedByPath [introView] (path introFile) = Some introView
   \<and> findStepByFile homeDefs (path introFile) = None"
  by code_simp

lemma intro_assigned:
  "assignJourney (path introFile) (structName introView) introView homeDefs = ''first-launch''"
  by code_simp

lemma intro_resolved: "resolveNext introView homeDefs = [''home'']"
  by code_simp

lemma intro_crosses: "hasCrossReference (json (merge homeDefs introScan [introView]))"
  by code_simp

text \<open>
  Claim C10, amended. Merging the added onboarding view into the graph with the home
  step creates the journey \<open>first-launch\<close> with a new node whose \<^verbatim>\<open>next\<close> is \<open>home\<close>, the
  id of a step of the journey \<open>main\<close> only. In general the node that \<open>merge\<close> adds for a
  new file gets as \<^verbatim>\<open>next\<close> the list \<open>resolveNext\<close> of its descriptor on the whole
  graph, and that list holds, once each, the ids of all steps of all journeys whose
  screen is a destination of the descriptor. For every entry of a \<^verbatim>\<open>next\<close> list that is
  no step id of the same journey the validator reports an error, the missing id of the
  step when the step has none and the missing reference otherwise; so a candidate with
  such an entry is never valid, and a cycle that builds one returns with the graph file
  and the cursor as they were.
\<close>

theorem cross_container_edge_rejected:
  "journeys (json (merge homeDefs introScan [introView]))
     = journeys homeDefs
       @ [(newJourney ''first-launch'')\<lparr> steps := [newStep introView introPath [''home'']] \<rparr>]
   \<and> (byPath (path f) = Some parsed \<and> findStepByFile defs (path f) = None \<longrightarrow>
        (\<exists>defs' chs' rc' ji old.
           addNewFile byPath (defs, chs, rc) f = (defs', chs', rc')
           \<and> findIndex (\<lambda>j. journey_id j = assignJourney (path f) (structName parsed) parsed defs)
                (journeys defs') = Some ji
           \<and> steps (journeys defs' ! ji)
               = old @ [newStep parsed (path f) (resolveNext parsed defs)]))
   \<and> set (resolveNext pv g)
       = step_id ` {s \<in> set (concat (map steps (journeys g))).
                      screen s \<in> destination ` set (presentsTo pv)}
   \<and> distinct (resolveNext pv g)
   \<and> (j \<in> set (journeys cand) \<and> s \<in> set (steps j) \<and> n \<in> set (step_next s)
        \<and> n \<notin> set (map step_id (steps j)) \<longrightarrow>
        (if step_id s = [] then StepMissingId (journey_id j)
         else NextRefNotFound (journey_id j) (step_id s) n) \<in> set (errors (validate prev cand)))
   \<and> (hasCrossReference cand \<longrightarrow> \<not> ok (validate prev cand))
   \<and> (scan (cycleRepo env) (lastCommit (daemon w)) = Inr r \<and> \<not> zeroChanges r
        \<and> parseFiles (newFiles r @ modifiedFiles r) = Returns pvs
        \<and> loadDefs env (workflowsFile w) = Some cur
        \<and> hasCrossReference (json (merge cur r pvs)) \<longrightarrow>
        (\<exists>st w'. pollCycle env w = Returns (st, w')
           \<and> workflowsFile w' = workflowsFile w \<and> lastCommitFile w' = lastCommitFile w))"
proof -
  have b: "byPath (path f) = Some parsed \<and> findStepByFile defs (path f) = None \<longrightarrow>
        (\<exists>defs' chs' rc' ji old.
           addNewFile byPath (defs, chs, rc) f = (defs', chs', rc')
           \<and> findIndex (\<lambda>j. journey_id j = assignJourney (path f) (structName parsed) parsed defs)
                (journeys defs') = Some ji
           \<and> steps (journeys defs' ! ji)
               = old @ [newStep parsed (path f) (resolveNext parsed defs)])"
  proof
    assume h: "byPath (path f) = Some parsed \<and> findStepByFile defs (path f) = None"
    from addNewFile_places[of byPath f parsed defs chs rc, rule_format, OF h]
    obtain defs' r ji old where
      p: "addNewFile byPath (defs, chs, rc) f = (defs', chs @ [r], Suc rc)"
         "journeyId r = assignJourney (path f) (structName parsed) parsed defs"
         "findIndex (\<lambda>j. journey_id j = journeyId r) (journeys defs') = Some ji"
         "steps (journeys defs' ! ji) = old @ [newStep parsed (path f) (resolveNext parsed defs)]"
      by blast
    from p(3) have "findIndex (\<lambda>j. journey_id j = assignJourney (path f) (structName parsed) parsed defs)
                (journeys defs') = Some ji" unfolding p(2) .
    with p(1,4) show "\<exists>defs' chs' rc' ji old.
           addNewFile byPath (defs, chs, rc) f = (defs', chs', rc')
           \<and> findIndex (\<lambda>j. journey_id j = assignJourney (path f) (structName parsed) parsed defs)
                (journeys defs') = Some ji
           \<and> steps (journeys defs' ! ji)
               = old @ [newStep parsed (path f) (resolveNext parsed defs)]"
      by blast
  qed
  have e: "j \<in> set (journeys cand) \<and> s \<in> set (steps j) \<and> n \<in> set (step_next s)
        \<and> n \<notin> set (map step_id (steps j)) \<longrightarrow>
        (if step_id s = [] then StepMissingId (journey_id j)
         else NextRefNotFound (journey_id j) (step_id s) n) \<in> set (errors (validate prev cand))"
    using validate_reference[of j cand s n prev] by blast
  have f: "hasCrossReference cand \<longrightarrow> \<not> ok (validate prev cand)"
    using validate_rejects_reference by blast
  have g: "scan (cycleRepo env) (lastCommit (daemon w)) = Inr r \<and> \<not> zeroChanges r
        \<and> parseFiles (newFiles r @ modifiedFiles r) = Returns pvs
        \<and> loadDefs env (workflowsFile w) = Some cur
        \<and> hasCrossReference (json (merge cur r pvs)) \<longrightarrow>
        (\<exists>st w'. pollCycle env w = Returns (st, w')
           \<and> workflowsFile w' = workflowsFile w \<and> lastCommitFile w' = lastCommitFile w)"
  proof
    assume h: "scan (cycleRepo env) (lastCommit (daemon w)) = Inr r \<and> \<not> zeroChanges r
        \<and> parseFiles (newFiles r @ modifiedFiles r) = Returns pvs
        \<and> loadDefs env (workflowsFile w) = Some cur
        \<and> hasCrossReference (json (merge cur r pvs))"
    then have bad: "\<not> ok (validate cur (json (merge cur r pvs)))"
      using validate_rejects_reference by blast
    obtain st w' where pc: "pollCycle env w = Returns (st, w')"
      using pollCycle_returns by blast
    from h have h1: "scan (cycleRepo env) (lastCommit (daemon w)) = Inr r"
      and h2: "\<not> zeroChanges r"
      and h3: "parseFiles (newFiles r @ modifiedFiles r) = Returns pvs"
      and h4: "loadDefs env (workflowsFile w) = Some cur" by simp_all
    from invalid_keeps_all[OF h1 h2 h3 h4 bad pc] pc
    show "\<exists>st w'. pollCycle env w = Returns (st, w')
           \<and> workflowsFile w' = workflowsFile w \<and> lastCommitFile w' = lastCommitFile w"
      by blast
  qed
  show ?thesis
    using intro_merged b set_resolveNext[of pv g] distinct_resolveNext[of pv g] e f g
    by (intro conjI)
qed

text \<open>
  Claim C10 as stated fails for the resolution of the targets: it is not by first match.
  On a graph with two steps that show the destination under different ids, \<open>resolveNext\<close>
  gives both ids, where the first match gives one.
\<close>

theorem resolveNext_takes_every_match:
  "resolveNext twinView twinDefs = [''b1'', ''b2'']
   \<and> resolveFirstMatch twinView twinDefs = [''b1'']"
  by code_simp

text \<open>
  The cycle on the graph with the home step and the added onboarding view: the new node
  of \<open>first-launch\<close> refers to \<open>home\<close>, the validator reports the reference, and the graph
  file and the cursor stay.
\<close>

theorem cross_container_edge_rejected_witness:
  "(\<exists>defs' chs' rc' ji old.
      addNewFile (parsedByPath [introView]) (homeDefs, [], 0) introFile = (defs', chs', rc')
      \<and> findIndex (\<lambda>j. journey_id j = ''first-launch'') (journeys defs') = Some ji
      \<and> steps (journeys defs' ! ji) = old @ [newStep introView introPath [''home'']])
   \<and> set (resolveNext introView homeDefs) = {''home''}
   \<and> NextRefNotFound ''first-launch'' ''intro-view'' ''home''
        \<in> set (errors (validate homeDefs (json (merge homeDefs introScan [introView]))))
   \<and> hasCrossReference (json (merge homeDefs introScan [introView]))
   \<and> \<not> ok (validate homeDefs (json (merge homeDefs introScan [introView])))
   \<and> (\<exists>st w'. pollCycle introEnv homeWorld = Returns (st, w')
          \<and> workflowsFile w' = Stored homeDefs \<and> lastCommitFile w' = Some ''abc'')"
proof -
  note t = cross_container_edge_rejected
  note t2 = t [THEN conjunct2, THEN conjunct1, rule_format]
  note t3 = t [THEN conjunct2, THEN conjunct2, THEN conjunct1]
  note t5 = t [THEN conjunct2, THEN conjunct2, THEN conjunct2, THEN conjunct2, THEN conjunct1,
               rule_format]
  note t6 = t [THEN conjunct2, THEN conjunct2, THEN conjunct2, THEN conjunct2, THEN conjunct2,
               THEN conjunct1, rule_format]
  note t7 = t [THEN conjunct2, THEN conjunct2, THEN conjunct2, THEN conjunct2, THEN conjunct2,
               THEN conjunct2, rule_format]
  let ?cand = "json (merge homeDefs introScan [introView])"
  let ?j = "(newJourney ''first-launch'')\<lparr> steps := [newStep introView introPath [''home'']] \<rparr>"
  let ?s = "newStep introView introPath [''home'']"
  have c1: "\<exists>defs' chs' rc' ji old.
      addNewFile (parsedByPath [introView]) (homeDefs, [], 0) introFile = (defs', chs', rc')
      \<and> findIndex (\<lambda>j. journey_id j = ''first-launch'') (journeys defs') = Some ji
      \<and> steps (journeys defs' ! ji) = old @ [newStep introView introPath [''home'']]"
    using t2 [of "parsedByPath [introView]" introFile introView homeDefs "[]" 0, OF intro_untracked]
    unfolding intro_assigned intro_resolved by (simp add: introFile_def)
  have c2: "set (resolveNext introView homeDefs) = {''home''}"
    using t3 [of introView homeDefs] by (simp add: intro_resolved)
  have sid: "step_id ?s = ''intro-view''" by code_simp
  have m: "?j \<in> set (journeys ?cand) \<and> ?s \<in> set (steps ?j) \<and> ''home'' \<in> set (step_next ?s)
           \<and> ''home'' \<notin> set (map step_id (steps ?j))"
    unfolding intro_merged by (simp add: sid) (simp add: newStep_def)
  have c3: "NextRefNotFound ''first-launch'' ''intro-view'' ''home''
        \<in> set (errors (validate homeDefs ?cand))"
    using t5 [of ?j ?cand ?s "''home''" homeDefs, OF m] by (simp add: sid newJourney_def)
  have c5: "\<not> ok (validate homeDefs ?cand)"
    using t6 [of ?cand homeDefs, OF intro_crosses] .
  have c0: "workflowsFile homeWorld = Stored homeDefs" "lastCommitFile homeWorld = Some ''abc''"
    by (simp_all add: homeWorld_def freshWorld_def)
  note ip = intro_pipeline
  have hyp: "scan (cycleRepo introEnv) (lastCommit (daemon homeWorld)) = Inr introScan
        \<and> \<not> zeroChanges introScan
        \<and> parseFiles (newFiles introScan @ modifiedFiles introScan) = Returns [introView]
        \<and> loadDefs introEnv (workflowsFile homeWorld) = Some homeDefs
        \<and> hasCrossReference (json (merge homeDefs introScan [introView]))"
    using ip [THEN conjunct1] ip [THEN conjunct2, THEN conjunct1]
      ip [THEN conjunct2, THEN conjunct2, THEN conjunct1]
      ip [THEN conjunct2, THEN conjunct2, THEN conjunct2, THEN conjunct1] intro_crosses
    by (intro conjI)
  have c6: "\<exists>st w'. pollCycle introEnv homeWorld = Returns (st, w')
          \<and> workflowsFile w' = Stored homeDefs \<and> lastCommitFile w' = Some ''abc''"
    using t7 [of introEnv homeWorld introScan "[introView]" homeDefs, OF hyp] c0 by simp
  show ?thesis using c1 c2 c3 intro_crosses c5 c6 by (intro conjI)
qed

section \<open>Properties of the merger on the store\<close>

subsection \<open>Reading is stable under new objects\<close>

lemma cellAt_prefix: "prefix h h' \<Longrightarrow> cellAt h a = Some c \<Longrightarrow> cellAt h' a = Some c"
  by (auto simp: cellAt_def prefix_def nth_append split: if_splits)

lemma readStrs_prefix: "prefix h h' \<Longrightarrow> readStrs h a = Some v \<Longrightarrow> readStrs h' a = Some v"
  by (auto simp: readStrs_def split: option.splits cell.splits dest: cellAt_prefix)

lemma readStep_prefix:
  assumes "prefix h h'" "readStep h a = Some v"
  shows "readStep h' a = Some v"
proof -
  from assms(2) obtain so where c: "cellAt h a = Some (StepCell so)"
    by (auto simp: readStep_def split: option.splits cell.splits)
  from assms(2) c obtain nx where nx: "readStrs h (o_next so) = Some nx"
    by (auto simp: readStep_def split: option.splits)
  note c' = cellAt_prefix[OF assms(1) c]
  note nx' = readStrs_prefix[OF assms(1) nx]
  show ?thesis
  proof (cases "o_edgeLabels so")
    case None
    then show ?thesis using assms(2) c c' nx nx' by (simp add: readStep_def)
  next
    case (Some e)
    with assms(2) c nx obtain el where el: "readStrs h e = Some el"
      by (auto simp: readStep_def)
    note el' = readStrs_prefix[OF assms(1) el]
    show ?thesis using assms(2) c c' nx nx' Some el el' by (simp add: readStep_def)
  qed
qed

lemma those_map_mono:
  assumes "\<And>a v. f a = Some v \<Longrightarrow> g a = Some v"
  shows "those (map f as) = Some vs \<Longrightarrow> those (map g as) = Some vs"
proof (induction as arbitrary: vs)
  case Nil
  then show ?case by simp
next
  case (Cons a as)
  from Cons.prems obtain v where v: "f a = Some v" by (auto split: option.splits)
  with Cons.prems obtain ws where ws: "those (map f as) = Some ws" "vs = v # ws"
    by (auto split: option.splits)
  show ?case using assms[OF v] Cons.IH[OF ws(1)] ws(2) by simp
qed

lemma journeyParts_prefix:
  assumes "prefix h h'" "journeyParts h a = Some v"
  shows "journeyParts h' a = Some v"
proof -
  from assms(2) obtain jo where c: "cellAt h a = Some (JourneyCell jo)"
    by (auto simp: journeyParts_def split: option.splits cell.splits)
  with assms(2) obtain ss where s: "cellAt h (jo_steps jo) = Some (StepArray ss)"
    by (auto simp: journeyParts_def split: option.splits cell.splits)
  show ?thesis
    using assms(2) c s cellAt_prefix[OF assms(1) c] cellAt_prefix[OF assms(1) s]
    by (simp add: journeyParts_def)
qed

lemma defsParts_prefix:
  assumes "prefix h h'" "defsParts h a = Some v"
  shows "defsParts h' a = Some v"
proof -
  from assms(2) obtain dob where c: "cellAt h a = Some (DefsCell dob)"
    by (auto simp: defsParts_def split: option.splits cell.splits)
  with assms(2) obtain js where s: "cellAt h (do_journeys dob) = Some (JourneyArray js)"
    by (auto simp: defsParts_def split: option.splits cell.splits)
  show ?thesis
    using assms(2) c s cellAt_prefix[OF assms(1) c] cellAt_prefix[OF assms(1) s]
    by (simp add: defsParts_def)
qed

lemma readJourney_prefix:
  assumes "prefix h h'" "readJourney h a = Some v"
  shows "readJourney h' a = Some v"
proof -
  from assms(2) obtain jo ss where p: "journeyParts h a = Some (jo, ss)"
    by (auto simp: readJourney_def split: option.splits)
  with assms(2) obtain sts where sts: "those (map (readStep h) ss) = Some sts"
    by (auto simp: readJourney_def)
  have sts': "those (map (readStep h') ss) = Some sts"
    using those_map_mono[of "readStep h" "readStep h'", OF readStep_prefix[OF assms(1)] sts] .
  show ?thesis
    using assms(2) p journeyParts_prefix[OF assms(1) p] sts sts' by (simp add: readJourney_def)
qed

lemma readDefs_prefix:
  assumes "prefix h h'" "readDefs h a = Some v"
  shows "readDefs h' a = Some v"
proof -
  from assms(2) obtain dob js where p: "defsParts h a = Some (dob, js)"
    by (auto simp: readDefs_def split: option.splits)
  with assms(2) obtain vs where vs: "those (map (readJourney h) js) = Some vs"
    by (auto simp: readDefs_def)
  have vs': "those (map (readJourney h') js) = Some vs"
    using those_map_mono[of "readJourney h" "readJourney h'", OF readJourney_prefix[OF assms(1)] vs] .
  show ?thesis
    using assms(2) p defsParts_prefix[OF assms(1) p] vs vs' by (simp add: readDefs_def)
qed

subsection \<open>The invariant under new objects and writes\<close>

lemma in_set_drop_iff:
  "x \<in> set (drop n xs) \<longleftrightarrow> (\<exists>i. n \<le> i \<and> i < length xs \<and> xs ! i = x)"
proof
  assume "x \<in> set (drop n xs)"
  then obtain j where j: "j < length (drop n xs)" "drop n xs ! j = x"
    by (auto simp: in_set_conv_nth)
  then have "n \<le> n + j \<and> n + j < length xs \<and> xs ! (n + j) = x" by auto
  then show "\<exists>i. n \<le> i \<and> i < length xs \<and> xs ! i = x" by blast
next
  assume "\<exists>i. n \<le> i \<and> i < length xs \<and> xs ! i = x"
  then obtain i where i: "n \<le> i" "i < length xs" "xs ! i = x" by blast
  then have "i - n < length (drop n xs)" "drop n xs ! (i - n) = x" by auto
  then show "x \<in> set (drop n xs)" by (auto simp: in_set_conv_nth)
qed

lemma regionOk_iff:
  "regionOk n h \<longleftrightarrow> (\<forall>a. n \<le> a \<and> a < length h \<longrightarrow> cellOk n h (h ! a))"
  unfolding regionOk_def list_all_iff Ball_def in_set_drop_iff by blast

lemma leadsTo_append: "leadsTo n h a k \<Longrightarrow> leadsTo n (h @ xs) a k"
  by (simp add: leadsTo_def nth_append)

lemma leadsTo_prefix: "prefix h h' \<Longrightarrow> leadsTo n h a k \<Longrightarrow> leadsTo n h' a k"
  by (auto simp: prefix_def leadsTo_append)

lemma leadsTo_update:
  "leadsTo n h a k \<Longrightarrow> b < length h \<Longrightarrow> kindOf c = kindOf (h ! b) \<Longrightarrow> leadsTo n (h[b := c]) a k"
  by (auto simp: leadsTo_def nth_list_update)

lemma cellOk_append: "cellOk n h c \<Longrightarrow> cellOk n (h @ xs) c"
  by (auto simp: cellOk_def list_all_iff leadsTo_append)

lemma cellOk_update:
  "cellOk n h c \<Longrightarrow> b < length h \<Longrightarrow> kindOf c' = kindOf (h ! b) \<Longrightarrow> cellOk n (h[b := c']) c"
  by (auto simp: cellOk_def list_all_iff leadsTo_update)

lemma regionOk_newCell:
  assumes "regionOk n h" "n \<le> length h" "cellOk n h c"
  shows "regionOk n (h @ [c])"
  unfolding regionOk_iff
proof (intro allI impI)
  fix a assume a: "n \<le> a \<and> a < length (h @ [c])"
  show "cellOk n (h @ [c]) ((h @ [c]) ! a)"
  proof (cases "a < length h")
    case True
    then have "cellOk n h (h ! a)" using assms(1) a by (simp add: regionOk_iff)
    then show ?thesis using True by (simp add: nth_append cellOk_append)
  next
    case False
    then have "a = length h" using a by simp
    then show ?thesis using assms(3) by (simp add: cellOk_append)
  qed
qed

lemma regionOk_writeCell:
  assumes "regionOk n h" "n \<le> b" "b < length h" "kindOf c = kindOf (h ! b)" "cellOk n h c"
  shows "regionOk n (h[b := c])"
  unfolding regionOk_iff
proof (intro allI impI)
  fix a assume a: "n \<le> a \<and> a < length (h[b := c])"
  show "cellOk n (h[b := c]) (h[b := c] ! a)"
  proof (cases "a = b")
    case True
    then show ?thesis using assms(3,4,5) by (simp add: cellOk_update)
  next
    case False
    have "cellOk n h (h ! a)" using assms(1) a by (simp add: regionOk_iff)
    then show ?thesis using False assms(3,4) by (simp add: cellOk_update)
  qed
qed

lemma regionOk_closedFrom: "regionOk n h \<Longrightarrow> closedFrom n h"
  by (auto simp: regionOk_def closedFrom_def cellOk_def leadsTo_def list_all_iff)

lemma keeps_refl: "keeps n h h"
  by (simp add: keeps_def)

lemma keeps_trans: "keeps n h h1 \<Longrightarrow> keeps n h1 h2 \<Longrightarrow> keeps n h h2"
  by (simp add: keeps_def)

lemma keeps_newCell: "n \<le> length h \<Longrightarrow> keeps n h (h @ [c])"
  by (simp add: keeps_def)

lemma keeps_writeCell: "n \<le> b \<Longrightarrow> keeps n h (h[b := c])"
  by (simp add: keeps_def)

lemma keeps_prefix: "n \<le> length h \<Longrightarrow> prefix h h' \<Longrightarrow> keeps n h h'"
  by (auto simp: keeps_def prefix_def)

subsection \<open>Following references in the copy\<close>

lemma leadsTo_StrArray: "leadsTo n h a KStrArray \<Longrightarrow> \<exists>xs. cellAt h a = Some (StrArray xs)"
  by (cases "h ! a") (auto simp: leadsTo_def cellAt_def)

lemma leadsTo_Step: "leadsTo n h a KStep \<Longrightarrow> \<exists>so. cellAt h a = Some (StepCell so)"
  by (cases "h ! a") (auto simp: leadsTo_def cellAt_def)

lemma leadsTo_StepArray: "leadsTo n h a KStepArray \<Longrightarrow> \<exists>ss. cellAt h a = Some (StepArray ss)"
  by (cases "h ! a") (auto simp: leadsTo_def cellAt_def)

lemma leadsTo_Journey: "leadsTo n h a KJourney \<Longrightarrow> \<exists>jo. cellAt h a = Some (JourneyCell jo)"
  by (cases "h ! a") (auto simp: leadsTo_def cellAt_def)

lemma leadsTo_JourneyArray: "leadsTo n h a KJourneyArray \<Longrightarrow> \<exists>js. cellAt h a = Some (JourneyArray js)"
  by (cases "h ! a") (auto simp: leadsTo_def cellAt_def)

lemma leadsTo_Defs: "leadsTo n h a KDefs \<Longrightarrow> \<exists>dob. cellAt h a = Some (DefsCell dob)"
  by (cases "h ! a") (auto simp: leadsTo_def cellAt_def)

lemma cellAt_cellOk:
  "regionOk n h \<Longrightarrow> n \<le> a \<Longrightarrow> cellAt h a = Some c \<Longrightarrow> cellOk n h c"
  by (auto simp: regionOk_iff cellAt_def split: if_splits)

lemma step_refs:
  assumes "regionOk n h" "leadsTo n h a KStep" "cellAt h a = Some (StepCell so)"
  shows "leadsTo n h (o_next so) KStrArray"
    and "o_edgeLabels so = Some e \<Longrightarrow> leadsTo n h e KStrArray"
proof -
  have ok: "cellOk n h (StepCell so)"
    using cellAt_cellOk[OF assms(1) _ assms(3)] assms(2) by (simp add: leadsTo_def)
  show "leadsTo n h (o_next so) KStrArray" using ok by (simp add: cellOk_def)
  show "o_edgeLabels so = Some e \<Longrightarrow> leadsTo n h e KStrArray" using ok by (simp add: cellOk_def)
qed

lemma journey_refs:
  assumes "regionOk n h" "leadsTo n h a KJourney"
  shows "\<exists>jo ss. journeyParts h a = Some (jo, ss) \<and> cellAt h a = Some (JourneyCell jo)
           \<and> leadsTo n h (jo_steps jo) KStepArray
           \<and> cellAt h (jo_steps jo) = Some (StepArray ss)
           \<and> (\<forall>s \<in> set ss. leadsTo n h s KStep)"
proof -
  from leadsTo_Journey[OF assms(2)] obtain jo where c: "cellAt h a = Some (JourneyCell jo)" by blast
  have ok: "cellOk n h (JourneyCell jo)"
    using cellAt_cellOk[OF assms(1) _ c] assms(2) by (simp add: leadsTo_def)
  then have l: "leadsTo n h (jo_steps jo) KStepArray" by (simp add: cellOk_def)
  from leadsTo_StepArray[OF l] obtain ss where s: "cellAt h (jo_steps jo) = Some (StepArray ss)"
    by blast
  have ok2: "cellOk n h (StepArray ss)"
    using cellAt_cellOk[OF assms(1) _ s] l by (simp add: leadsTo_def)
  then have "\<forall>s \<in> set ss. leadsTo n h s KStep" by (auto simp: cellOk_def list_all_iff)
  then show ?thesis using c l s by (simp add: journeyParts_def)
qed

lemma defs_refs:
  assumes "regionOk n h" "leadsTo n h d KDefs"
  shows "\<exists>dob js. defsParts h d = Some (dob, js) \<and> cellAt h d = Some (DefsCell dob)
           \<and> leadsTo n h (do_journeys dob) KJourneyArray
           \<and> cellAt h (do_journeys dob) = Some (JourneyArray js)
           \<and> (\<forall>j \<in> set js. leadsTo n h j KJourney)"
proof -
  from leadsTo_Defs[OF assms(2)] obtain dob where c: "cellAt h d = Some (DefsCell dob)" by blast
  have ok: "cellOk n h (DefsCell dob)"
    using cellAt_cellOk[OF assms(1) _ c] assms(2) by (simp add: leadsTo_def)
  then have l: "leadsTo n h (do_journeys dob) KJourneyArray" by (simp add: cellOk_def)
  from leadsTo_JourneyArray[OF l] obtain js where s: "cellAt h (do_journeys dob) = Some (JourneyArray js)"
    by blast
  have ok2: "cellOk n h (JourneyArray js)"
    using cellAt_cellOk[OF assms(1) _ s] l by (simp add: leadsTo_def)
  then have "\<forall>j \<in> set js. leadsTo n h j KJourney" by (auto simp: cellOk_def list_all_iff)
  then show ?thesis using c l s by (simp add: defsParts_def)
qed

lemma those_map_Some:
  "(\<forall>a \<in> set as. \<exists>v. f a = Some v) \<Longrightarrow> \<exists>vs. those (map f as) = Some vs"
  by (induction as) auto

lemma readStrs_ok: "leadsTo n h a KStrArray \<Longrightarrow> \<exists>xs. readStrs h a = Some xs"
  using leadsTo_StrArray[of n h a] by (auto simp: readStrs_def)

lemma readStep_ok:
  assumes "regionOk n h" "leadsTo n h a KStep"
  shows "\<exists>s. readStep h a = Some s"
proof -
  from leadsTo_Step[OF assms(2)] obtain so where c: "cellAt h a = Some (StepCell so)" by blast
  from readStrs_ok[OF step_refs(1)[OF assms c]] obtain nx where nx: "readStrs h (o_next so) = Some nx"
    by blast
  show ?thesis
  proof (cases "o_edgeLabels so")
    case None
    then show ?thesis using c nx by (simp add: readStep_def)
  next
    case (Some e)
    from readStrs_ok[OF step_refs(2)[OF assms c Some]] obtain el where "readStrs h e = Some el" by blast
    then show ?thesis using c nx Some by (simp add: readStep_def)
  qed
qed

lemma readJourney_ok:
  assumes "regionOk n h" "leadsTo n h a KJourney"
  shows "\<exists>j. readJourney h a = Some j"
proof -
  from journey_refs[OF assms] obtain jo ss where
    p: "journeyParts h a = Some (jo, ss)" "\<forall>s \<in> set ss. leadsTo n h s KStep" by blast
  have "\<forall>s \<in> set ss. \<exists>v. readStep h s = Some v" using p(2) readStep_ok[OF assms(1)] by blast
  from those_map_Some[OF this] obtain sts where "those (map (readStep h) ss) = Some sts" by blast
  then show ?thesis using p(1) by (simp add: readJourney_def)
qed

lemma readDefs_ok:
  assumes "regionOk n h" "leadsTo n h d KDefs"
  shows "\<exists>g. readDefs h d = Some g"
proof -
  from defs_refs[OF assms] obtain dob js where
    p: "defsParts h d = Some (dob, js)" "\<forall>j \<in> set js. leadsTo n h j KJourney" by blast
  have "\<forall>j \<in> set js. \<exists>v. readJourney h j = Some v" using p(2) readJourney_ok[OF assms(1)] by blast
  from those_map_Some[OF this] obtain vs where "those (map (readJourney h) js) = Some vs" by blast
  then show ?thesis using p(1) by (simp add: readDefs_def)
qed

lemma findStepRef_ok:
  "(\<forall>s \<in> set ss. leadsTo n h s KStep) \<Longrightarrow>
   \<exists>r. findStepRef h p ss = Some r \<and> (\<forall>sa. r = Some sa \<longrightarrow> sa \<in> set ss)"
proof (induction ss)
  case Nil
  then show ?case by simp
next
  case (Cons s ss)
  from Cons.prems have "leadsTo n h s KStep" by simp
  from leadsTo_Step[OF this] obtain so where c: "cellAt h s = Some (StepCell so)" by blast
  from Cons obtain r where r: "findStepRef h p ss = Some r" "\<forall>sa. r = Some sa \<longrightarrow> sa \<in> set ss"
    by auto
  show ?case using c r by auto
qed

lemma findInJourneys_ok:
  assumes "regionOk n h"
  shows "(\<forall>j \<in> set js. leadsTo n h j KJourney) \<Longrightarrow>
   \<exists>r. findInJourneys h p js = Some r
        \<and> (\<forall>ja sa. r = Some (ja, sa) \<longrightarrow> leadsTo n h ja KJourney \<and> leadsTo n h sa KStep)"
proof (induction js)
  case Nil
  then show ?case by simp
next
  case (Cons j js)
  from Cons.prems have lj: "leadsTo n h j KJourney" by simp
  from journey_refs[OF assms lj] obtain jo ss where
    p: "journeyParts h j = Some (jo, ss)" "\<forall>s \<in> set ss. leadsTo n h s KStep" by blast
  from findStepRef_ok[OF p(2), of p] obtain r1 where
    r1: "findStepRef h p ss = Some r1" "\<forall>sa. r1 = Some sa \<longrightarrow> sa \<in> set ss" by blast
  from Cons obtain r where
    r: "findInJourneys h p js = Some r"
       "\<forall>ja sa. r = Some (ja, sa) \<longrightarrow> leadsTo n h ja KJourney \<and> leadsTo n h sa KStep" by auto
  show ?case
  proof (cases r1)
    case None
    then show ?thesis using p(1) r1(1) r by simp
  next
    case (Some sa)
    then have "sa \<in> set ss" using r1(2) by simp
    then have "leadsTo n h sa KStep" using p(2) by simp
    then show ?thesis using p(1) r1(1) Some lj by simp
  qed
qed

lemma findStepByFileRef_ok:
  assumes "copyOk n h d"
  shows "\<exists>r. findStepByFileRef h d p = Some r
        \<and> (\<forall>ja sa. r = Some (ja, sa) \<longrightarrow> leadsTo n h ja KJourney \<and> leadsTo n h sa KStep)"
proof -
  from assms have ok: "regionOk n h" "leadsTo n h d KDefs" by (simp_all add: copyOk_def)
  from defs_refs[OF ok] obtain dob js where
    q: "defsParts h d = Some (dob, js)" "\<forall>j \<in> set js. leadsTo n h j KJourney" by blast
  from findInJourneys_ok[OF ok(1) q(2), of p] show ?thesis using q(1)
    by (simp add: findStepByFileRef_def)
qed

lemma findJourneyRef_ok:
  "(\<forall>j \<in> set js. leadsTo n h j KJourney) \<Longrightarrow>
   \<exists>r. findJourneyRef h jid js = Some r \<and> (\<forall>ja. r = Some ja \<longrightarrow> ja \<in> set js)"
proof (induction js)
  case Nil
  then show ?case by simp
next
  case (Cons j js)
  from Cons.prems have "leadsTo n h j KJourney" by simp
  from leadsTo_Journey[OF this] obtain jo where c: "cellAt h j = Some (JourneyCell jo)" by blast
  from Cons obtain r where r: "findJourneyRef h jid js = Some r" "\<forall>ja. r = Some ja \<longrightarrow> ja \<in> set js"
    by auto
  show ?case using c r by auto
qed

subsection \<open>The deep copy builds a closed part of the store\<close>

lemma copyOk_newCell:
  assumes "n \<le> length h" "regionOk n h" "cellOk n h c"
  shows "regionOk n (h @ [c])" "leadsTo n (h @ [c]) (length h) (kindOf c)" "prefix h (h @ [c])"
  using regionOk_newCell[OF assms(2,1,3)] assms(1) by (simp_all add: leadsTo_def)

lemma stepValue_stepObj: "stepValue (stepObj s nx el) (step_next s) (edgeLabels s) = s"
  by (cases s) (simp add: stepValue_def stepObj_def)

lemma buildStep_ok:
  assumes n: "n \<le> length h" and ok: "regionOk n h" and b: "buildStep h s = (h', a)"
  shows "regionOk n h' \<and> prefix h h' \<and> leadsTo n h' a KStep \<and> readStep h' a = Some s"
proof -
  let ?h1 = "h @ [StrArray (step_next s)]"
  let ?nx = "length h"
  have c1: "cellOk n h (StrArray (step_next s))" by (simp add: cellOk_def)
  note p1 = copyOk_newCell[OF n ok c1]
  have n1: "n \<le> length ?h1" using n by simp
  show ?thesis
  proof (cases "edgeLabels s")
    case None
    let ?so = "stepObj s ?nx None"
    have h': "h' = ?h1 @ [StepCell ?so]" "a = length ?h1"
      using b None by (simp_all add: buildStep_def newCell_def Let_def)
    have c2: "cellOk n ?h1 (StepCell ?so)"
      using p1(2) by (simp add: cellOk_def stepObj_def)
    note p2 = copyOk_newCell[OF n1 p1(1) c2]
    have rd: "readStep h' a = Some s"
      using stepValue_stepObj[of s ?nx None] None
      by (simp add: h' readStep_def cellAt_def readStrs_def nth_append stepObj_def)
    show ?thesis using p2 rd h' by (auto simp: prefix_def)
  next
    case (Some ls)
    let ?h2 = "?h1 @ [StrArray ls]"
    let ?e = "length ?h1"
    let ?so = "stepObj s ?nx (Some ?e)"
    have h': "h' = ?h2 @ [StepCell ?so]" "a = length ?h2"
      using b Some by (simp_all add: buildStep_def newCell_def Let_def)
    have c2: "cellOk n ?h1 (StrArray ls)" by (simp add: cellOk_def)
    note p2 = copyOk_newCell[OF n1 p1(1) c2]
    have n2: "n \<le> length ?h2" using n by simp
    have c3: "cellOk n ?h2 (StepCell ?so)"
      using leadsTo_append[OF p1(2), of "[StrArray ls]"] p2(2)
      by (simp add: cellOk_def stepObj_def)
    note p3 = copyOk_newCell[OF n2 p2(1) c3]
    have rd: "readStep h' a = Some s"
      using stepValue_stepObj[of s ?nx "Some ?e"] Some
      by (simp add: h' readStep_def cellAt_def readStrs_def nth_append stepObj_def)
    show ?thesis using p3 rd h' by (auto simp: prefix_def)
  qed
qed

lemma buildAll_ok:
  assumes step: "\<forall>h x h' a. n \<le> length h \<longrightarrow> regionOk n h \<longrightarrow> f h x = (h', a) \<longrightarrow>
                   regionOk n h' \<and> prefix h h' \<and> leadsTo n h' a k \<and> rd h' a = Some x"
    and mono: "\<forall>h h' a v. prefix h h' \<longrightarrow> rd h a = Some v \<longrightarrow> rd h' a = Some v"
  shows "n \<le> length h \<Longrightarrow> regionOk n h \<Longrightarrow> buildAll f h xs = (h', as) \<Longrightarrow>
         regionOk n h' \<and> prefix h h' \<and> (\<forall>a \<in> set as. leadsTo n h' a k)
         \<and> those (map (rd h') as) = Some xs"
proof (induction xs arbitrary: h h' as)
  case Nil
  then show ?case by simp
next
  case (Cons x xs)
  obtain h1 a where f: "f h x = (h1, a)" by (cases "f h x")
  obtain h2 bs where r: "buildAll f h1 xs = (h2, bs)" by (cases "buildAll f h1 xs")
  from Cons.prems(3) f r have eq: "h' = h2" "as = a # bs" by simp_all
  have s: "regionOk n h1" "prefix h h1" "leadsTo n h1 a k" "rd h1 a = Some x"
    using step Cons.prems(1,2) f by blast+
  have n1: "n \<le> length h1" using Cons.prems(1) s(2) by (auto simp: prefix_def)
  from Cons.IH[OF n1 s(1) r] have ih: "regionOk n h2" "prefix h1 h2"
    "\<forall>a \<in> set bs. leadsTo n h2 a k" "those (map (rd h2) bs) = Some xs" by simp_all
  have la: "leadsTo n h2 a k" using leadsTo_prefix[OF ih(2) s(3)] .
  have ra: "rd h2 a = Some x" using mono ih(2) s(4) by blast
  have "prefix h h2" using s(2) ih(2) by (meson prefix_order.order_trans)
  then show ?case using ih la ra eq by simp
qed

lemma journeyValue_journeyObj:
  "\<lparr> journey_id = jo_id (journeyObj j sa), journey_name = jo_name (journeyObj j sa),
     description = jo_description (journeyObj j sa), journey_group = jo_group (journeyObj j sa),
     steps = steps j \<rparr> = j"
  by (cases j) (simp add: journeyObj_def)

lemma buildJourney_ok:
  assumes n: "n \<le> length h" and ok: "regionOk n h" and b: "buildJourney h j = (h', a)"
  shows "regionOk n h' \<and> prefix h h' \<and> leadsTo n h' a KJourney \<and> readJourney h' a = Some j"
proof -
  obtain h1 ss where r: "buildAll buildStep h (steps j) = (h1, ss)"
    by (cases "buildAll buildStep h (steps j)")
  have st: "\<forall>h x h' a. n \<le> length h \<longrightarrow> regionOk n h \<longrightarrow> buildStep h x = (h', a) \<longrightarrow>
                   regionOk n h' \<and> prefix h h' \<and> leadsTo n h' a KStep \<and> readStep h' a = Some x"
    using buildStep_ok by blast
  have mo: "\<forall>h h' a v. prefix h h' \<longrightarrow> readStep h a = Some v \<longrightarrow> readStep h' a = Some v"
    using readStep_prefix by blast
  note ba = buildAll_ok[of n buildStep KStep readStep h "steps j" h1 ss, OF st mo n ok r]
  have p1: "regionOk n h1" "prefix h h1" "\<forall>a \<in> set ss. leadsTo n h1 a KStep"
    "those (map (readStep h1) ss) = Some (steps j)"
    using ba by blast+
  have n1: "n \<le> length h1" using n p1(2) by (auto simp: prefix_def)
  let ?h2 = "h1 @ [StepArray ss]"
  let ?sa = "length h1"
  have c2: "cellOk n h1 (StepArray ss)" using p1(3) by (simp add: cellOk_def list_all_iff)
  note p2 = copyOk_newCell[OF n1 p1(1) c2]
  have n2: "n \<le> length ?h2" using n1 by simp
  let ?jo = "journeyObj j ?sa"
  have h': "h' = ?h2 @ [JourneyCell ?jo]" "a = length ?h2"
    using b r by (simp_all add: buildJourney_def newCell_def Let_def)
  have c3: "cellOk n ?h2 (JourneyCell ?jo)" using p2(2) by (simp add: cellOk_def journeyObj_def)
  note p3 = copyOk_newCell[OF n2 p2(1) c3]
  have pre: "prefix h1 h'" unfolding h' by (simp add: prefix_def)
  have sts: "those (map (readStep h') ss) = Some (steps j)"
    using those_map_mono[of "readStep h1" "readStep h'", OF readStep_prefix[OF pre] p1(4)] .
  have jp: "journeyParts h' a = Some (?jo, ss)"
    by (simp add: h' journeyParts_def cellAt_def nth_append journeyObj_def)
  have rd: "readJourney h' a = Some j"
    using journeyValue_journeyObj[of j ?sa] by (simp add: readJourney_def jp sts)
  have "prefix h h'" using p1(2) pre by (meson prefix_order.order_trans)
  then show ?thesis using p3 rd h' by simp
qed

lemma defsValue:
  "\<lparr> version = version g, generatedAt = generatedAt g, journeys = journeys g \<rparr> = g"
  by (cases g) simp

lemma buildDefs_ok:
  assumes n: "n \<le> length h" and ok: "regionOk n h" and b: "buildDefs h g = (h', d)"
  shows "regionOk n h' \<and> prefix h h' \<and> leadsTo n h' d KDefs \<and> readDefs h' d = Some g"
proof -
  obtain h1 js where r: "buildAll buildJourney h (journeys g) = (h1, js)"
    by (cases "buildAll buildJourney h (journeys g)")
  have st: "\<forall>h x h' a. n \<le> length h \<longrightarrow> regionOk n h \<longrightarrow> buildJourney h x = (h', a) \<longrightarrow>
                   regionOk n h' \<and> prefix h h' \<and> leadsTo n h' a KJourney \<and> readJourney h' a = Some x"
    using buildJourney_ok by blast
  have mo: "\<forall>h h' a v. prefix h h' \<longrightarrow> readJourney h a = Some v \<longrightarrow> readJourney h' a = Some v"
    using readJourney_prefix by blast
  note ba = buildAll_ok[of n buildJourney KJourney readJourney h "journeys g" h1 js, OF st mo n ok r]
  have p1: "regionOk n h1" "prefix h h1" "\<forall>a \<in> set js. leadsTo n h1 a KJourney"
    "those (map (readJourney h1) js) = Some (journeys g)"
    using ba by blast+
  have n1: "n \<le> length h1" using n p1(2) by (auto simp: prefix_def)
  let ?h2 = "h1 @ [JourneyArray js]"
  let ?ja = "length h1"
  have c2: "cellOk n h1 (JourneyArray js)" using p1(3) by (simp add: cellOk_def list_all_iff)
  note p2 = copyOk_newCell[OF n1 p1(1) c2]
  have n2: "n \<le> length ?h2" using n1 by simp
  let ?dob = "\<lparr> do_version = version g, do_generatedAt = generatedAt g, do_journeys = ?ja \<rparr>"
  have h': "h' = ?h2 @ [DefsCell ?dob]" "d = length ?h2"
    using b r by (simp_all add: buildDefs_def newCell_def Let_def)
  have c3: "cellOk n ?h2 (DefsCell ?dob)" using p2(2) by (simp add: cellOk_def)
  note p3 = copyOk_newCell[OF n2 p2(1) c3]
  have pre: "prefix h1 h'" unfolding h' by (simp add: prefix_def)
  have vs: "those (map (readJourney h') js) = Some (journeys g)"
    using those_map_mono[of "readJourney h1" "readJourney h'", OF readJourney_prefix[OF pre] p1(4)] .
  have dp: "defsParts h' d = Some (?dob, js)"
    by (simp add: h' defsParts_def cellAt_def nth_append)
  have rd: "readDefs h' d = Some g"
    using defsValue[of g] by (simp add: readDefs_def dp vs)
  have "prefix h h'" using p1(2) pre by (meson prefix_order.order_trans)
  then show ?thesis using p3 rd h' by simp
qed

lemma deepClone_ok:
  assumes "readDefs h cur = Some g"
  shows "\<exists>h' d. deepClone h cur = Some (h', d) \<and> copyOk (length h) h' d \<and> prefix h h'
           \<and> readDefs h' d = Some g"
proof -
  obtain h' d where b: "buildDefs h g = (h', d)" by (cases "buildDefs h g")
  have r0: "regionOk (length h) h" by (simp add: regionOk_def)
  from buildDefs_ok[OF _ r0 b] have p: "regionOk (length h) h'" "prefix h h'"
    "leadsTo (length h) h' d KDefs" "readDefs h' d = Some g" by simp_all
  have "length h \<le> length h'" using p(2) by (auto simp: prefix_def)
  then show ?thesis using assms b p by (simp add: deepClone_def copyOk_def)
qed

subsection \<open>The loops write to the copy only\<close>

lemma copyOk_alloc:
  assumes "copyOk n h d" "cellOk n h c"
  shows "copyOk n (h @ [c]) d" "keeps n h (h @ [c])" "leadsTo n (h @ [c]) (length h) (kindOf c)"
proof -
  from assms(1) have n: "n \<le> length h" and ok: "regionOk n h" and d: "leadsTo n h d KDefs"
    by (simp_all add: copyOk_def)
  note p = copyOk_newCell[OF n ok assms(2)]
  show "copyOk n (h @ [c]) d" using p(1) n leadsTo_append[OF d] by (simp add: copyOk_def)
  show "keeps n h (h @ [c])" using n by (rule keeps_newCell)
  show "leadsTo n (h @ [c]) (length h) (kindOf c)" using p(2) .
qed

lemma copyOk_write:
  assumes "copyOk n h d" "leadsTo n h b (kindOf c)" "cellOk n h c"
  shows "copyOk n (h[b := c]) d" "keeps n h (h[b := c])"
    "leadsTo n h a k \<Longrightarrow> leadsTo n (h[b := c]) a k"
proof -
  from assms(1) have n: "n \<le> length h" and ok: "regionOk n h" and d: "leadsTo n h d KDefs"
    by (simp_all add: copyOk_def)
  from assms(2) have b: "n \<le> b" "b < length h" "kindOf c = kindOf (h ! b)"
    by (simp_all add: leadsTo_def)
  show "copyOk n (h[b := c]) d"
    using regionOk_writeCell[OF ok b assms(3)] n leadsTo_update[OF d b(2,3)]
    by (simp add: copyOk_def)
  show "keeps n h (h[b := c])" using b(1) by (rule keeps_writeCell)
  show "leadsTo n h a k \<Longrightarrow> leadsTo n (h[b := c]) a k" using leadsTo_update[OF _ b(2,3)] .
qed

lemma ensureJourneyRef_ok:
  assumes c: "copyOk n h d"
  shows "\<exists>h' ja. ensureJourneyRef h d jid = Some (h', ja) \<and> copyOk n h' d \<and> keeps n h h'
           \<and> leadsTo n h' ja KJourney"
proof -
  from c have ok: "regionOk n h" "leadsTo n h d KDefs" by (simp_all add: copyOk_def)
  from defs_refs[OF ok] obtain dob js where
    q: "defsParts h d = Some (dob, js)" "leadsTo n h (do_journeys dob) KJourneyArray"
       "\<forall>j \<in> set js. leadsTo n h j KJourney" by blast
  from findJourneyRef_ok[OF q(3), of jid] obtain r where
    r: "findJourneyRef h jid js = Some r" "\<forall>ja. r = Some ja \<longrightarrow> ja \<in> set js" by blast
  show ?thesis
  proof (cases r)
    case (Some ja)
    then have "leadsTo n h ja KJourney" using r(2) q(3) by simp
    then show ?thesis using q(1) r(1) Some c by (simp add: ensureJourneyRef_def keeps_refl)
  next
    case None
    let ?h1 = "h @ [StepArray []]"
    let ?jo = "journeyObj (newJourney jid) (length h)"
    let ?h2 = "?h1 @ [JourneyCell ?jo]"
    let ?ja = "length ?h1"
    let ?arr = "JourneyArray (js @ [?ja])"
    let ?h3 = "?h2[do_journeys dob := ?arr]"
    have c1: "cellOk n h (StepArray [])" by (simp add: cellOk_def)
    note p1 = copyOk_alloc[OF c c1]
    have c2: "cellOk n ?h1 (JourneyCell ?jo)" using p1(3) by (simp add: cellOk_def journeyObj_def)
    note p2 = copyOk_alloc[OF p1(1) c2]
    have la: "leadsTo n ?h2 (do_journeys dob) KJourneyArray"
      using leadsTo_append[OF q(2), of "[StepArray [], JourneyCell ?jo]"] by simp
    have lj: "\<forall>j \<in> set js. leadsTo n ?h2 j KJourney"
      using q(3) leadsTo_append[of n h _ KJourney "[StepArray [], JourneyCell ?jo]"] by simp
    have c3: "cellOk n ?h2 ?arr" using lj p2(3) by (simp add: cellOk_def list_all_iff)
    have la': "leadsTo n ?h2 (do_journeys dob) (kindOf ?arr)" using la by simp
    note p3 = copyOk_write[OF p2(1) la' c3]
    have k: "keeps n h ?h3" using keeps_trans[OF keeps_trans[OF p1(2) p2(2)] p3(2)] .
    have lja: "leadsTo n ?h3 ?ja KJourney" using p3(3)[of ?ja KJourney] p2(3) by simp
    have e: "ensureJourneyRef h d jid = Some (?h3, ?ja)"
      using q(1) r(1) None by (simp add: ensureJourneyRef_def newCell_def writeCell_def Let_def)
    show ?thesis using e p3(1) k lja by blast
  qed
qed

lemma pushStepRef_ok:
  assumes c: "copyOk n h d" and ja: "leadsTo n h ja KJourney" and sa: "leadsTo n h sa KStep"
  shows "\<exists>h'. pushStepRef h ja sa = Some h' \<and> copyOk n h' d \<and> keeps n h h'"
proof -
  from c have ok: "regionOk n h" by (simp add: copyOk_def)
  from journey_refs[OF ok ja] obtain jo ss where
    q: "journeyParts h ja = Some (jo, ss)" "leadsTo n h (jo_steps jo) KStepArray"
       "\<forall>s \<in> set ss. leadsTo n h s KStep" by blast
  let ?arr = "StepArray (ss @ [sa])"
  have c1: "cellOk n h ?arr" using q(3) sa by (simp add: cellOk_def list_all_iff)
  have l: "leadsTo n h (jo_steps jo) (kindOf ?arr)" using q(2) by simp
  note p = copyOk_write[OF c l c1]
  show ?thesis using q(1) p(1,2) by (simp add: pushStepRef_def writeCell_def)
qed

lemma addNewFileRef_ok:
  assumes c: "copyOk n h d"
  shows "\<exists>h' chs' rc'. addNewFileRef byPath d (h, chs, rc) f = Some (h', chs', rc')
           \<and> copyOk n h' d \<and> keeps n h h'"
proof (cases "byPath (path f)")
  case None
  then show ?thesis using c by (simp add: addNewFileRef_def keeps_refl)
next
  case (Some parsed)
  from findStepByFileRef_ok[OF c, of "path f"] obtain r where
    r: "findStepByFileRef h d (path f) = Some r" by blast
  show ?thesis
  proof (cases r)
    case (Some found)
    then show ?thesis using c r \<open>byPath (path f) = Some parsed\<close>
      by (simp add: addNewFileRef_def keeps_refl)
  next
    case None
    from c have ok: "regionOk n h" "leadsTo n h d KDefs" by (simp_all add: copyOk_def)
    from readDefs_ok[OF ok] obtain defs where defs: "readDefs h d = Some defs" by blast
    let ?jid = "assignJourney (path f) (structName parsed) parsed defs"
    from ensureJourneyRef_ok[OF c, of ?jid] obtain h1 ja where
      e: "ensureJourneyRef h d ?jid = Some (h1, ja)" "copyOk n h1 d" "keeps n h h1"
         "leadsTo n h1 ja KJourney" by blast
    from e(2) have ok1: "regionOk n h1" "leadsTo n h1 d KDefs" by (simp_all add: copyOk_def)
    from readDefs_ok[OF ok1] obtain defs1 where defs1: "readDefs h1 d = Some defs1" by blast
    let ?nxc = "StrArray (resolveNext parsed defs1)"
    let ?h2 = "h1 @ [?nxc]"
    let ?so = "stepObj (newStep parsed (path f) []) (length h1) None"
    let ?h3 = "?h2 @ [StepCell ?so]"
    have c1: "cellOk n h1 ?nxc" by (simp add: cellOk_def)
    note p1 = copyOk_alloc[OF e(2) c1]
    have c2: "cellOk n ?h2 (StepCell ?so)" using p1(3) by (simp add: cellOk_def stepObj_def)
    note p2 = copyOk_alloc[OF p1(1) c2]
    have lja: "leadsTo n ?h3 ja KJourney"
      using leadsTo_append[OF e(4), of "[?nxc, StepCell ?so]"] by simp
    have lsa: "leadsTo n ?h3 (length ?h2) KStep" using p2(3) by simp
    from pushStepRef_ok[OF p2(1) lja lsa] obtain h4 where
      h4: "pushStepRef ?h3 ja (length ?h2) = Some h4" "copyOk n h4 d" "keeps n ?h3 h4" by blast
    have k: "keeps n h h4"
      using keeps_trans[OF keeps_trans[OF keeps_trans[OF e(3) p1(2)] p2(2)] h4(3)] .
    have "addNewFileRef byPath d (h, chs, rc) f
            = Some (h4, chs @ [\<lparr> action = ''add'', journeyId = ?jid,
                                  stepId = slugify (structName parsed),
                                  detail = ''Added '' @ structName parsed @ '' from '' @ path f \<rparr>],
                    Suc rc)"
      using \<open>byPath (path f) = Some parsed\<close> r None defs e(1) defs1 h4(1)
      by (simp add: addNewFileRef_def newCell_def Let_def)
    then show ?thesis using h4(2) k by blast
  qed
qed

lemma cellOk_step_same_refs:
  "cellOk n h (StepCell so) \<Longrightarrow> o_next so' = o_next so \<Longrightarrow> o_edgeLabels so' = o_edgeLabels so
   \<Longrightarrow> cellOk n h (StepCell so')"
  by (simp add: cellOk_def)

lemma removeFileRef_ok:
  assumes c: "copyOk n h d"
  shows "\<exists>h' chs' rc'. removeFileRef d (h, chs, rc) p = Some (h', chs', rc')
           \<and> copyOk n h' d \<and> keeps n h h'"
proof -
  from c have ok: "regionOk n h" by (simp add: copyOk_def)
  from findStepByFileRef_ok[OF c, of p] obtain r where
    r: "findStepByFileRef h d p = Some r"
       "\<forall>ja sa. r = Some (ja, sa) \<longrightarrow> leadsTo n h ja KJourney \<and> leadsTo n h sa KStep" by blast
  show ?thesis
  proof (cases r)
    case None
    then show ?thesis using c r(1) by (simp add: removeFileRef_def keeps_refl)
  next
    case (Some found)
    obtain ja sa where found: "found = (ja, sa)" by (cases found)
    with Some r(2) have l: "leadsTo n h ja KJourney" "leadsTo n h sa KStep" by simp_all
    from leadsTo_Journey[OF l(1)] obtain jo where jo: "cellAt h ja = Some (JourneyCell jo)" by blast
    from leadsTo_Step[OF l(2)] obtain so where so: "cellAt h sa = Some (StepCell so)" by blast
    show ?thesis
    proof (cases "truthy (o_deprecated so)")
      case True
      then show ?thesis using c r(1) Some found jo so by (simp add: removeFileRef_def keeps_refl)
    next
      case False
      let ?so = "so\<lparr> o_deprecated := Some True \<rparr>"
      have c0: "cellOk n h (StepCell so)"
        using cellAt_cellOk[OF ok _ so] l(2) by (simp add: leadsTo_def)
      have c1: "cellOk n h (StepCell ?so)" using cellOk_step_same_refs[OF c0] by simp
      have l': "leadsTo n h sa (kindOf (StepCell ?so))" using l(2) by simp
      note p = copyOk_write[OF c l' c1]
      show ?thesis using r(1) Some found jo so False p(1,2)
        by (simp add: removeFileRef_def writeCell_def)
    qed
  qed
qed

lemma trimEdgeLabelsRef_ok:
  assumes c: "copyOk n h d" and l: "leadsTo n h sa KStep" and so: "cellAt h sa = Some (StepCell so)"
  shows "\<exists>h' so'. trimEdgeLabelsRef h sa so m = Some (h', so') \<and> copyOk n h' d \<and> keeps n h h'
           \<and> cellOk n h' (StepCell so') \<and> (\<forall>a k. leadsTo n h a k \<longrightarrow> leadsTo n h' a k)"
proof -
  from c have ok: "regionOk n h" by (simp add: copyOk_def)
  have c0: "cellOk n h (StepCell so)"
    using cellAt_cellOk[OF ok _ so] l by (simp add: leadsTo_def)
  show ?thesis
  proof (cases "o_edgeLabels so")
    case None
    then show ?thesis using c c0 by (simp add: trimEdgeLabelsRef_def keeps_refl)
  next
    case (Some e)
    from readStrs_ok[OF step_refs(2)[OF ok l so Some]] obtain ls where ls: "readStrs h e = Some ls"
      by blast
    show ?thesis
    proof (cases "m < length ls")
      case False
      then show ?thesis using c c0 Some ls by (simp add: trimEdgeLabelsRef_def keeps_refl)
    next
      case True
      let ?arr = "StrArray (take m ls)"
      let ?h1 = "h @ [?arr]"
      let ?so = "so\<lparr> o_edgeLabels := Some (length h) \<rparr>"
      let ?h2 = "?h1[sa := StepCell ?so]"
      have c1: "cellOk n h ?arr" by (simp add: cellOk_def)
      note p1 = copyOk_alloc[OF c c1]
      have c2: "cellOk n ?h1 (StepCell ?so)"
        using cellOk_append[OF c0, of "[?arr]"] p1(3) by (simp add: cellOk_def)
      have l1: "leadsTo n ?h1 sa (kindOf (StepCell ?so))" using leadsTo_append[OF l] by simp
      note p2 = copyOk_write[OF p1(1) l1 c2]
      have c3: "cellOk n ?h2 (StepCell ?so)"
        using cellOk_update[OF c2, of sa "StepCell ?so"] l1 by (simp add: leadsTo_def)
      have mono: "\<forall>a k. leadsTo n h a k \<longrightarrow> leadsTo n ?h2 a k"
        using p2(3) leadsTo_append by blast
      have k: "keeps n h ?h2" using keeps_trans[OF p1(2) p2(2)] .
      have "trimEdgeLabelsRef h sa so m = Some (?h2, ?so)"
        using Some ls True by (simp add: trimEdgeLabelsRef_def newCell_def writeCell_def Let_def)
      then show ?thesis using p2(1) k c3 mono by blast
    qed
  qed
qed

lemma modifyFileRef_ok:
  assumes c: "copyOk n h d"
  shows "\<exists>h' chs' rc'. modifyFileRef byPath d (h, chs, rc) f = Some (h', chs', rc')
           \<and> copyOk n h' d \<and> keeps n h h'"
proof (cases "byPath (path f)")
  case None
  then show ?thesis using c by (simp add: modifyFileRef_def keeps_refl)
next
  case (Some parsed)
  note bp = this
  from c have ok: "regionOk n h" "leadsTo n h d KDefs" by (simp_all add: copyOk_def)
  from findStepByFileRef_ok[OF c, of "path f"] obtain r where
    r: "findStepByFileRef h d (path f) = Some r"
       "\<forall>ja sa. r = Some (ja, sa) \<longrightarrow> leadsTo n h ja KJourney \<and> leadsTo n h sa KStep" by blast
  show ?thesis
  proof (cases r)
    case None
    then show ?thesis using c r(1) bp by (simp add: modifyFileRef_def keeps_refl)
  next
    case (Some found)
    obtain ja sa where found: "found = (ja, sa)" by (cases found)
    with Some r(2) have l: "leadsTo n h ja KJourney" "leadsTo n h sa KStep" by simp_all
    from leadsTo_Journey[OF l(1)] obtain jo where jo: "cellAt h ja = Some (JourneyCell jo)" by blast
    from leadsTo_Step[OF l(2)] obtain so where so: "cellAt h sa = Some (StepCell so)" by blast
    from readDefs_ok[OF ok] obtain defs where defs: "readDefs h d = Some defs" by blast
    let ?newNext = "resolveNext parsed defs"
    let ?h1 = "h @ [StrArray ?newNext]"
    let ?nn = "length h"
    have c1: "cellOk n h (StrArray ?newNext)" by (simp add: cellOk_def)
    note p1 = copyOk_alloc[OF c c1]
    have pre: "prefix h ?h1" by (simp add: prefix_def)
    have l1: "leadsTo n ?h1 sa KStep" using leadsTo_append[OF l(2)] .
    have so1: "cellAt ?h1 sa = Some (StepCell so)" using cellAt_prefix[OF pre so] .
    from readStrs_ok[OF step_refs(1)[OF ok(1) l(2) so]] obtain oldNext where
      "readStrs h (o_next so) = Some oldNext" by blast
    then have old: "readStrs ?h1 (o_next so) = Some oldNext" using readStrs_prefix[OF pre] by blast
    show ?thesis
    proof (cases "jsonStringArray oldNext \<noteq> jsonStringArray ?newNext")
      case False
      then have "modifyFileRef byPath d (h, chs, rc) f = Some (?h1, chs, rc)"
        using bp r(1) Some found jo so defs old
        by (simp add: modifyFileRef_def newCell_def Let_def)
      then show ?thesis using p1(1,2) by blast
    next
      case True
      from trimEdgeLabelsRef_ok[OF p1(1) l1 so1, of "length ?newNext"] obtain h2 so' where
        t: "trimEdgeLabelsRef ?h1 sa so (length ?newNext) = Some (h2, so')" "copyOk n h2 d"
           "keeps n ?h1 h2" "cellOk n h2 (StepCell so')"
           "\<forall>a k. leadsTo n ?h1 a k \<longrightarrow> leadsTo n h2 a k" by blast
      let ?so = "so'\<lparr> o_next := ?nn \<rparr>"
      let ?h3 = "h2[sa := StepCell ?so]"
      have lnn: "leadsTo n h2 ?nn KStrArray" using t(5) p1(3) by simp
      have c3: "cellOk n h2 (StepCell ?so)" using t(4) lnn by (simp add: cellOk_def)
      have l2: "leadsTo n h2 sa (kindOf (StepCell ?so))" using t(5) l1 by simp
      note p3 = copyOk_write[OF t(2) l2 c3]
      have k: "keeps n h ?h3" using keeps_trans[OF keeps_trans[OF p1(2) t(3)] p3(2)] .
      have "modifyFileRef byPath d (h, chs, rc) f
              = Some (?h3, chs @ [\<lparr> action = ''update-edges'', journeyId = jo_id jo,
                                     stepId = o_id so,
                                     detail = ''Updated next[] from '' @ jsonStringArray oldNext
                                              @ '' to '' @ jsonStringArray ?newNext \<rparr>], rc)"
        using bp r(1) Some found jo so defs old True t(1)
        by (simp add: modifyFileRef_def newCell_def writeCell_def Let_def)
      then show ?thesis using p3(1) k by blast
    qed
  qed
qed

lemma foldOpt_ok:
  assumes body: "\<forall>h chs rc x. copyOk n h d \<longrightarrow>
            (\<exists>h' chs' rc'. f (h, chs, rc) x = Some (h', chs', rc') \<and> copyOk n h' d \<and> keeps n h h')"
  shows "copyOk n h d \<Longrightarrow>
         \<exists>h' chs' rc'. foldOpt f (h, chs, rc) xs = Some (h', chs', rc') \<and> copyOk n h' d \<and> keeps n h h'"
proof (induction xs arbitrary: h chs rc)
  case Nil
  then show ?case by (simp add: keeps_refl)
next
  case (Cons x xs)
  from body Cons.prems obtain h1 chs1 rc1 where
    s: "f (h, chs, rc) x = Some (h1, chs1, rc1)" "copyOk n h1 d" "keeps n h h1" by blast
  from Cons.IH[OF s(2), of chs1 rc1] obtain h2 chs2 rc2 where
    t: "foldOpt f (h1, chs1, rc1) xs = Some (h2, chs2, rc2)" "copyOk n h2 d" "keeps n h1 h2" by blast
  show ?case using s(1) t(1,2) keeps_trans[OF s(3) t(3)] by simp
qed

lemma mergeRef_ok:
  assumes "readDefs h cur = Some g"
  shows "\<exists>h' d chs rc. mergeRef h cur scanResult parsedViews = Some (h', d, chs, rc)
           \<and> copyOk (length h) h' d \<and> keeps (length h) h h'"
proof -
  let ?n = "length h"
  let ?byPath = "parsedByPath parsedViews"
  from deepClone_ok[OF assms] obtain h1 d where
    c: "deepClone h cur = Some (h1, d)" "copyOk ?n h1 d" "prefix h h1" by blast
  have k0: "keeps ?n h h1" using keeps_prefix[OF _ c(3)] by simp
  have b1: "\<forall>h chs rc x. copyOk ?n h d \<longrightarrow>
            (\<exists>h' chs' rc'. addNewFileRef ?byPath d (h, chs, rc) x = Some (h', chs', rc')
               \<and> copyOk ?n h' d \<and> keeps ?n h h')"
    using addNewFileRef_ok by blast
  have b2: "\<forall>h chs rc x. copyOk ?n h d \<longrightarrow>
            (\<exists>h' chs' rc'. removeFileRef d (h, chs, rc) x = Some (h', chs', rc')
               \<and> copyOk ?n h' d \<and> keeps ?n h h')"
    using removeFileRef_ok by blast
  have b3: "\<forall>h chs rc x. copyOk ?n h d \<longrightarrow>
            (\<exists>h' chs' rc'. modifyFileRef ?byPath d (h, chs, rc) x = Some (h', chs', rc')
               \<and> copyOk ?n h' d \<and> keeps ?n h h')"
    using modifyFileRef_ok by blast
  from foldOpt_ok[of ?n d "addNewFileRef ?byPath d", OF b1 c(2), of "[]" 0 "newFiles scanResult"]
  obtain h2 chs2 rc2 where
    s1: "foldOpt (addNewFileRef ?byPath d) (h1, [], 0) (newFiles scanResult) = Some (h2, chs2, rc2)"
        "copyOk ?n h2 d" "keeps ?n h1 h2" by blast
  from foldOpt_ok[of ?n d "removeFileRef d", OF b2 s1(2), of chs2 rc2 "removedFiles scanResult"]
  obtain h3 chs3 rc3 where
    s2: "foldOpt (removeFileRef d) (h2, chs2, rc2) (removedFiles scanResult) = Some (h3, chs3, rc3)"
        "copyOk ?n h3 d" "keeps ?n h2 h3" by blast
  from foldOpt_ok[of ?n d "modifyFileRef ?byPath d", OF b3 s2(2), of chs3 rc3 "modifiedFiles scanResult"]
  obtain h4 chs4 rc4 where
    s3: "foldOpt (modifyFileRef ?byPath d) (h3, chs3, rc3) (modifiedFiles scanResult)
           = Some (h4, chs4, rc4)"
        "copyOk ?n h4 d" "keeps ?n h3 h4" by blast
  have k: "keeps ?n h h4" using keeps_trans[OF keeps_trans[OF keeps_trans[OF k0 s1(3)] s2(3)] s3(3)] .
  have "mergeRef h cur scanResult parsedViews = Some (h4, d, chs4, rc4)"
    using c(1) s1(1) s2(1) s3(1) by (simp add: mergeRef_def Let_def)
  then show ?thesis using s3(2) k by blast
qed

lemma mergeRef_empty:
  assumes "readDefs h cur = Some g"
  shows "\<exists>h' d. mergeRef h cur (emptyScan sha) parsedViews = Some (h', d, [], 0)
           \<and> readDefs h' d = Some g"
proof -
  from deepClone_ok[OF assms] obtain h1 d where
    c: "deepClone h cur = Some (h1, d)" "readDefs h1 d = Some g" by blast
  then show ?thesis by (simp add: mergeRef_def emptyScan_def Let_def)
qed

lemma merge_empty:
  "merge g (emptyScan sha) parsedViews = \<lparr> json = g, changes = [], reviewCount = 0 \<rparr>"
  by (simp add: merge_def emptyScan_def Let_def)

lemma keeps_take: "keeps (length h) h h' \<Longrightarrow> take (length h) h' = h \<and> prefix h h'"
proof -
  assume "keeps (length h) h h'"
  then have t: "take (length h) h' = h" by (simp add: keeps_def)
  have "prefix (take (length h) h') h'" by (rule take_is_prefix)
  then show ?thesis using t by simp
qed

text \<open>
  Claim C3. On an empty diff \<open>merge\<close> returns the graph it was given, no change and a
  review count of zero. On the store: when \<open>current\<close> leads to a graph of the declared
  types, \<open>mergeRef\<close> returns; on an empty diff the graph read through the returned
  reference is the graph read through \<open>current\<close>; and for every scan result and every list
  of views the objects that were in the store before the call are all as they were, so
  that \<open>current\<close> still leads to the same graph, while the returned reference and every
  address held by an object made in the call are new, and the returned reference leads
  to a graph.
\<close>

theorem merge_leaves_current_unmutated:
  "merge g (emptyScan sha) pvs = \<lparr> json = g, changes = [], reviewCount = 0 \<rparr>
   \<and> (readDefs h cur = Some g \<longrightarrow>
        (\<exists>h' d. mergeRef h cur (emptyScan sha) pvs = Some (h', d, [], 0)
           \<and> readDefs h' d = Some g)
        \<and> (\<exists>h' d chs rc. mergeRef h cur scanResult parsedViews = Some (h', d, chs, rc)
              \<and> take (length h) h' = h
              \<and> readDefs h' cur = Some g
              \<and> length h \<le> d \<and> d < length h'
              \<and> closedFrom (length h) h'
              \<and> (\<exists>g'. readDefs h' d = Some g')))"
proof -
  have b: "readDefs h cur = Some g \<longrightarrow>
        (\<exists>h' d. mergeRef h cur (emptyScan sha) pvs = Some (h', d, [], 0)
           \<and> readDefs h' d = Some g)
        \<and> (\<exists>h' d chs rc. mergeRef h cur scanResult parsedViews = Some (h', d, chs, rc)
              \<and> take (length h) h' = h
              \<and> readDefs h' cur = Some g
              \<and> length h \<le> d \<and> d < length h'
              \<and> closedFrom (length h) h'
              \<and> (\<exists>g'. readDefs h' d = Some g'))"
  proof
    assume r: "readDefs h cur = Some g"
    from mergeRef_ok[OF r, of scanResult parsedViews] obtain h' d chs rc where
      m: "mergeRef h cur scanResult parsedViews = Some (h', d, chs, rc)"
         "copyOk (length h) h' d" "keeps (length h) h h'" by blast
    from keeps_take[OF m(3)] have t: "take (length h) h' = h" "prefix h h'" by simp_all
    from m(2) have ok: "regionOk (length h) h'" "leadsTo (length h) h' d KDefs"
      by (simp_all add: copyOk_def)
    have cur: "readDefs h' cur = Some g" using readDefs_prefix[OF t(2) r] .
    have d: "length h \<le> d" "d < length h'" using ok(2) by (simp_all add: leadsTo_def)
    from readDefs_ok[OF ok] obtain g' where g': "readDefs h' d = Some g'" by blast
    have "\<exists>h' d chs rc. mergeRef h cur scanResult parsedViews = Some (h', d, chs, rc)
              \<and> take (length h) h' = h
              \<and> readDefs h' cur = Some g
              \<and> length h \<le> d \<and> d < length h'
              \<and> closedFrom (length h) h'
              \<and> (\<exists>g'. readDefs h' d = Some g')"
      using m(1) t(1) cur d regionOk_closedFrom[OF ok(1)] g' by blast
    then show "(\<exists>h' d. mergeRef h cur (emptyScan sha) pvs = Some (h', d, [], 0)
           \<and> readDefs h' d = Some g)
        \<and> (\<exists>h' d chs rc. mergeRef h cur scanResult parsedViews = Some (h', d, chs, rc)
              \<and> take (length h) h' = h
              \<and> readDefs h' cur = Some g
              \<and> length h \<le> d \<and> d < length h'
              \<and> closedFrom (length h) h'
              \<and> (\<exists>g'. readDefs h' d = Some g'))"
      using mergeRef_empty[OF r, of sha pvs] by blast
  qed
  show ?thesis using merge_empty[of g sha pvs] b by (intro conjI)
qed

lemma homeStore_read: "readDefs homeStore homeRef = Some homeDefs"
  by code_simp

lemma homeStore_length: "length homeStore = 6"
  by code_simp

text \<open>
  The store that holds the graph with the home step and nothing else, merged with the
  added onboarding view: the six objects of the graph stay, and the copy begins at
  address six.
\<close>

theorem merge_leaves_current_unmutated_witness:
  "readDefs homeStore homeRef = Some homeDefs
   \<and> (\<exists>h' d. mergeRef homeStore homeRef (emptyScan ''def'') [] = Some (h', d, [], 0)
         \<and> readDefs h' d = Some homeDefs)
   \<and> (\<exists>h' d chs rc. mergeRef homeStore homeRef introScan [introView] = Some (h', d, chs, rc)
         \<and> take 6 h' = homeStore
         \<and> readDefs h' homeRef = Some homeDefs
         \<and> 6 \<le> d \<and> closedFrom 6 h')"
proof -
  note t = merge_leaves_current_unmutated
            [of homeDefs "''def''" "[]" homeStore homeRef introScan "[introView]",
             THEN conjunct2, rule_format, OF homeStore_read]
  have a: "\<exists>h' d. mergeRef homeStore homeRef (emptyScan ''def'') [] = Some (h', d, [], 0)
         \<and> readDefs h' d = Some homeDefs"
    using t [THEN conjunct1] .
  have b: "\<exists>h' d chs rc. mergeRef homeStore homeRef introScan [introView] = Some (h', d, chs, rc)
         \<and> take 6 h' = homeStore
         \<and> readDefs h' homeRef = Some homeDefs
         \<and> 6 \<le> d \<and> closedFrom 6 h'"
    using t [THEN conjunct2] unfolding homeStore_length by blast
  show ?thesis using homeStore_read a b by (intro conjI)
qed

end
